(* ===== verification/Prelude.thy ===== *)
theory Prelude
  imports Main "HOL-Library.List_Lexorder" "HOL-Library.Char_ord" "HOL-Library.Sublist"
begin

text \<open>
  What the components share: the fact collections their proofs draw on, the two loop
  combinators of the code (a loop that stops at the first error, and the plain one), the
  wrap-around of Go's 64-bit integers, and generic lemmas on lists.

  Strings are byte strings (\<^typ>\<open>string\<close>): Go, Lua and Redis all treat them so.
\<close>

named_theorems wire_simps \<open>evaluation of the wire formats\<close>
named_theorems redis_laws \<open>what the commands of the database do to its content\<close>
named_theorems index_intros \<open>well-formedness of entries and index members\<close>

section \<open>Results and loops\<close>

text \<open>An operation that may stop with an error, over a state it may have changed by then.\<close>

type_synonym ('e, 's) outcome = "'e option \<times> 's"

text \<open>
  A loop whose body may raise: the first error ends it, what earlier rounds did stays done.
\<close>

fun for_each :: "('a \<Rightarrow> 's \<Rightarrow> ('e, 's) outcome) \<Rightarrow> 'a list \<Rightarrow> 's \<Rightarrow> ('e, 's) outcome" where
  "for_each f [] s = (None, s)"
| "for_each f (x # xs) s =
     (case f x s of
        (None, s') \<Rightarrow> for_each f xs s'
      | (Some e, s') \<Rightarrow> (Some e, s'))"

lemma for_each_total:
  assumes "\<And>x s. x \<in> set xs \<Longrightarrow> f x s = (None, g x s)"
  shows "for_each f xs s = (None, fold g xs s)"
  using assms by (induction xs arbitrary: s) auto

lemma for_each_append:
  "for_each f (xs @ ys) s =
     (case for_each f xs s of
        (None, s') \<Rightarrow> for_each f ys s'
      | (Some e, s') \<Rightarrow> (Some e, s'))"
  by (induction xs arbitrary: s) (auto split: prod.splits option.splits)

lemma for_each_invariant:
  assumes "\<And>x s. x \<in> set xs \<Longrightarrow> P s \<Longrightarrow> P (snd (f x s))" and "P s"
  shows "P (snd (for_each f xs s))"
  using assms
proof (induction xs arbitrary: s)
  case Nil
  then show ?case by simp
next
  case (Cons x xs)
  obtain e s' where fx: "f x s = (e, s')" by fastforce
  with Cons.prems(1)[of x s] Cons.prems(2) have "P s'" by simp
  with Cons fx show ?case by (cases e) auto
qed

lemma fold_invariant_set:
  assumes "\<And>x s. x \<in> set xs \<Longrightarrow> P s \<Longrightarrow> P (f x s)" and "P s"
  shows "P (fold f xs s)"
  using assms by (induction xs arbitrary: s) auto

lemma fold_cong_invariant:
  assumes "\<And>x s. x \<in> set xs \<Longrightarrow> h (f x s) = h s"
  shows "h (fold f xs s) = h s"
  using assms by (induction xs arbitrary: s) auto

section \<open>Machine integers\<close>

text \<open>Two's complement wrap-around of Go's \<open>int64\<close>, \<open>int\<close> and \<open>time.Duration\<close>.\<close>

definition wrap64 :: "int \<Rightarrow> int" where
  "wrap64 x = (x + 2 ^ 63) mod 2 ^ 64 - 2 ^ 63"

definition int64 :: "int \<Rightarrow> bool" where
  "int64 x \<longleftrightarrow> - (2 ^ 63) \<le> x \<and> x < 2 ^ 63"

lemma wrap64_id: "int64 x \<Longrightarrow> wrap64 x = x"
  by (simp add: wrap64_def int64_def)

lemma wrap64_int64: "int64 (wrap64 x)"
proof -
  have "0 \<le> (x + 2 ^ 63) mod (2 ^ 64 :: int)" "(x + 2 ^ 63) mod (2 ^ 64 :: int) < 2 ^ 64"
    by (rule pos_mod_sign pos_mod_bound, simp)+
  then show ?thesis by (simp add: wrap64_def int64_def)
qed

section \<open>Lists\<close>

text \<open>Split a list in front of the first occurrence of a separator, if there is one.\<close>

fun break_at :: "'a \<Rightarrow> 'a list \<Rightarrow> ('a list \<times> 'a list) option" where
  "break_at c [] = None"
| "break_at c (x # xs) =
     (if x = c then Some ([], xs) else map_option (\<lambda>(a, b). (x # a, b)) (break_at c xs))"

lemma break_at_append: "c \<notin> set a \<Longrightarrow> break_at c (a @ c # b) = Some (a, b)"
  by (induction a) auto

lemma break_at_SomeD: "break_at c s = Some (a, b) \<Longrightarrow> s = a @ c # b \<and> c \<notin> set a"
  by (induction s arbitrary: a) (auto split: if_splits)

lemma break_at_None: "break_at c s = None \<longleftrightarrow> c \<notin> set s"
  by (induction s) auto

lemma break_at_Some: "break_at c s = Some (a, b) \<longleftrightarrow> s = a @ c # b \<and> c \<notin> set a"
  by (auto dest: break_at_SomeD simp: break_at_append)

lemma sorted_distinct_filter:
  "sorted xs \<Longrightarrow> distinct xs \<Longrightarrow> sorted (filter P xs) \<and> distinct (filter P xs)"
  using sorted_filter[of "\<lambda>x. x" xs] by simp

end
