(* ===== verification/GoStd.thy ===== *)
theory GoStd
  imports Prelude
begin

text \<open>
  The part of Go's standard library that the program's pure code is written in:
  \<open>strings\<close> (Split, IndexByte, HasPrefix, Cut), \<open>strconv\<close> (ParseUint, ParseInt, Atoi,
  FormatInt in base 10, with their range errors) and the decimal printing of \<open>fmt\<close>.
  Each function works on byte strings. The lemmas are the round trips of the number formats
  and what splitting does to a joined list.
\<close>

section \<open>Decimal digits\<close>

definition digit_char :: "nat \<Rightarrow> char" where
  "digit_char d = char_of (48 + d)"

definition digit_val :: "char \<Rightarrow> nat option" where
  "digit_val c = (let k = of_char c :: nat in if 48 \<le> k \<and> k \<le> 57 then Some (k - 48) else None)"

definition is_digit :: "char \<Rightarrow> bool" where
  "is_digit c \<longleftrightarrow> digit_val c \<noteq> None"

lemma of_char_digit_char: "d < 10 \<Longrightarrow> (of_char (digit_char d) :: nat) = 48 + d"
  by (simp add: digit_char_def)

lemma digit_val_digit_char [simp]: "d < 10 \<Longrightarrow> digit_val (digit_char d) = Some d"
  by (simp add: digit_val_def of_char_digit_char)

lemma digit_val_less: "digit_val c = Some d \<Longrightarrow> d < 10"
  by (auto simp: digit_val_def Let_def split: if_splits)

lemma is_digit_digit_char [simp]: "d < 10 \<Longrightarrow> is_digit (digit_char d)"
  by (simp add: is_digit_def)

lemma not_digit_chars [simp]:
  "\<not> is_digit CHR '':''" "\<not> is_digit CHR '' ''" "\<not> is_digit CHR '',''" "\<not> is_digit CHR ''-''"
  "\<not> is_digit CHR ''+''" "\<not> is_digit CHR 0x0A" "\<not> is_digit CHR 0x0D" "\<not> is_digit CHR ''{''"
  "\<not> is_digit CHR ''P''" "\<not> is_digit CHR ''Q''" "\<not> is_digit CHR ''q''"
  by (simp_all add: is_digit_def digit_val_def)

text \<open>\<open>strconv.FormatUint(n, 10)\<close> and \<open>strconv.FormatInt(n, 10)\<close>.\<close>

fun format_nat :: "nat \<Rightarrow> string" where
  "format_nat n = (if n < 10 then [digit_char n] else format_nat (n div 10) @ [digit_char (n mod 10)])"

declare format_nat.simps [simp del]

definition FormatInt :: "int \<Rightarrow> string" where
  "FormatInt n = (if n < 0 then CHR ''-'' # format_nat (nat (- n)) else format_nat (nat n))"

lemma format_nat_digits: "\<forall>c \<in> set (format_nat n). is_digit c"
proof (induction n rule: format_nat.induct)
  case (1 n)
  then show ?case by (cases "n < 10") (auto simp: format_nat.simps[of n])
qed

lemma format_nat_nonempty [simp]: "format_nat n \<noteq> []"
  by (subst format_nat.simps) simp

lemma format_nat_no [simp]: "\<not> is_digit c \<Longrightarrow> c \<notin> set (format_nat n)"
  using format_nat_digits by blast

lemma FormatInt_nonempty [simp]: "FormatInt n \<noteq> []"
  by (simp add: FormatInt_def)

lemma FormatInt_no [simp]: "\<not> is_digit c \<Longrightarrow> c \<noteq> CHR ''-'' \<Longrightarrow> c \<notin> set (FormatInt n)"
  by (simp add: FormatInt_def)

lemma FormatInt_nonneg_digits: "0 \<le> n \<Longrightarrow> \<forall>c \<in> set (FormatInt n). is_digit c"
  by (simp add: FormatInt_def format_nat_digits)

section \<open>Parsing numbers\<close>

datatype num_error = ErrSyntax | ErrRange

text \<open>
  The digit loop of \<open>strconv.ParseUint(s, 10, 64)\<close>: a byte that is not a digit is a syntax
  error with value 0; the first digit that would pass the largest 64-bit number ends the loop
  with that number and a range error, whatever follows it.
\<close>

fun uint_loop :: "nat \<Rightarrow> string \<Rightarrow> nat \<times> num_error option" where
  "uint_loop n [] = (n, None)"
| "uint_loop n (c # cs) =
     (case digit_val c of
        None \<Rightarrow> (0, Some ErrSyntax)
      | Some d \<Rightarrow>
          if 2 ^ 64 - 1 < 10 * n + d then (2 ^ 64 - 1, Some ErrRange)
          else uint_loop (10 * n + d) cs)"

definition ParseUint :: "string \<Rightarrow> nat \<times> num_error option" where
  "ParseUint s = (if s = [] then (0, Some ErrSyntax) else uint_loop 0 s)"

text \<open>\<open>strconv.ParseInt(s, 10, 64)\<close>; \<open>strconv.Atoi\<close> is the same on a 64-bit machine.\<close>

definition ParseInt :: "string \<Rightarrow> int \<times> num_error option" where
  "ParseInt s =
     (case s of
        [] \<Rightarrow> (0, Some ErrSyntax)
      | c # cs \<Rightarrow>
          let neg = (c = CHR ''-'');
              body = (if c = CHR ''-'' \<or> c = CHR ''+'' then cs else s);
              (un, err) = ParseUint body
          in if err = Some ErrSyntax then (0, Some ErrSyntax)
             else if \<not> neg \<and> 2 ^ 63 \<le> un then (2 ^ 63 - 1, Some ErrRange)
             else if neg \<and> 2 ^ 63 < un then (- (2 ^ 63), Some ErrRange)
             else (if neg then - int un else int un, None))"

abbreviation Atoi :: "string \<Rightarrow> int \<times> num_error option" where
  "Atoi \<equiv> ParseInt"

text \<open>The value of a parse that succeeded.\<close>

definition parsed :: "'a \<times> num_error option \<Rightarrow> 'a option" where
  "parsed r = (if snd r = None then Some (fst r) else None)"

lemma uint_loop_append:
  "uint_loop n (xs @ ys) =
     (case uint_loop n xs of
        (m, None) \<Rightarrow> uint_loop m ys
      | (m, Some e) \<Rightarrow> (m, Some e))"
  by (induction xs arbitrary: n) (auto split: option.splits)

lemma uint_loop_format_nat: "n < 2 ^ 64 \<Longrightarrow> uint_loop 0 (format_nat n) = (n, None)"
proof (induction n rule: format_nat.induct)
  case (1 n)
  show ?case
  proof (cases "n < 10")
    case True
    then show ?thesis by (subst format_nat.simps) simp
  next
    case False
    have n: "10 * (n div 10) + n mod 10 = n" by simp
    from False 1 have "uint_loop 0 (format_nat (n div 10)) = (n div 10, None)" by simp
    with False n 1(2) show ?thesis
      by (subst format_nat.simps) (simp add: uint_loop_append)
  qed
qed

lemma ParseUint_format_nat [simp]: "n < 2 ^ 64 \<Longrightarrow> ParseUint (format_nat n) = (n, None)"
  by (simp add: ParseUint_def uint_loop_format_nat)

lemma format_nat_hd: "\<exists>c cs. format_nat n = c # cs \<and> is_digit c"
  by (metis format_nat_digits format_nat_nonempty list.set_intros(1) neq_Nil_conv)

lemma is_digit_neq: "is_digit c \<Longrightarrow> \<not> is_digit d \<Longrightarrow> c \<noteq> d"
  by auto

lemma ParseInt_digits:
  assumes "s = c # cs" and "is_digit c"
  shows "ParseInt s =
    (case ParseUint s of (un, err) \<Rightarrow>
       if err = Some ErrSyntax then (0, Some ErrSyntax)
       else if 2 ^ 63 \<le> un then (2 ^ 63 - 1, Some ErrRange) else (int un, None))"
proof -
  have "c \<noteq> CHR ''-''" "c \<noteq> CHR ''+''" using assms(2) by auto
  with assms(1) show ?thesis by (simp add: ParseInt_def Let_def split: prod.splits)
qed

lemma ParseInt_format_nat:
  assumes "n < 2 ^ 63"
  shows "ParseInt (format_nat n) = (int n, None)"
proof -
  obtain c cs where "format_nat n = c # cs" "is_digit c" using format_nat_hd by blast
  from ParseInt_digits[OF this] assms show ?thesis by simp
qed

lemma ParseInt_FormatInt [simp]:
  assumes "int64 n"
  shows "ParseInt (FormatInt n) = (n, None)"
proof (cases "n < 0")
  case True
  with assms have "nat (- n) < 2 ^ 64" and "\<not> 2 ^ 63 < nat (- n)"
    by (auto simp: int64_def)
  with True show ?thesis by (simp add: FormatInt_def ParseInt_def Let_def)
next
  case False
  with assms have "nat n < 2 ^ 63" by (auto simp: int64_def)
  with False show ?thesis by (simp add: FormatInt_def ParseInt_format_nat)
qed

lemma uint_loop_digits: "uint_loop n s = (m, None) \<Longrightarrow> \<forall>c \<in> set s. is_digit c"
  by (induction s arbitrary: n) (auto simp: is_digit_def split: option.splits if_splits)

lemma uint_loop_bound: "uint_loop n s = (m, e) \<Longrightarrow> n < 2 ^ 64 \<Longrightarrow> m < 2 ^ 64"
  by (induction s arbitrary: n) (auto split: option.splits if_splits)

lemma uint_loop_range: "uint_loop n s = (m, Some ErrRange) \<Longrightarrow> m = 2 ^ 64 - 1"
  by (induction s arbitrary: n) (auto split: option.splits if_splits)

lemma ParseUint_bound: "fst (ParseUint s) < 2 ^ 64"
  using uint_loop_bound[of 0 s] by (cases "uint_loop 0 s") (auto simp: ParseUint_def)

lemma ParseInt_ok_int64: "ParseInt s = (n, None) \<Longrightarrow> int64 n"
  by (auto simp: ParseInt_def int64_def Let_def split: list.splits prod.splits if_splits)

lemma ParseUint_ok_digits: "ParseUint s = (n, None) \<Longrightarrow> \<forall>c \<in> set s. is_digit c"
  by (auto simp: ParseUint_def split: if_splits dest: uint_loop_digits)

text \<open>A successful parse leaves only digits and a sign in the text.\<close>

lemma ParseInt_ok_chars:
  assumes ok: "ParseInt s = (n, None)"
    and c: "\<not> is_digit c" "c \<noteq> CHR ''-''" "c \<noteq> CHR ''+''"
  shows "c \<notin> set s"
proof (cases s)
  case Nil
  then show ?thesis by simp
next
  case (Cons x xs)
  define body where "body = (if x = CHR ''-'' \<or> x = CHR ''+'' then xs else s)"
  obtain un err where u: "ParseUint body = (un, err)" by fastforce
  have "err = None"
  proof (rule ccontr)
    assume "err \<noteq> None"
    moreover have "err \<noteq> Some ErrSyntax"
      using ok Cons u by (auto simp: ParseInt_def body_def Let_def split: if_splits)
    ultimately have "err = Some ErrRange" by (metis num_error.exhaust not_Some_eq)
    moreover from this u have "un = 2 ^ 64 - 1"
      using uint_loop_range by (auto simp: ParseUint_def split: if_splits)
    ultimately show False
      using ok Cons u by (auto simp: ParseInt_def body_def Let_def split: if_splits)
  qed
  with u have "\<forall>c \<in> set body. is_digit c" by (simp add: ParseUint_ok_digits)
  with c Cons show ?thesis by (auto simp: body_def split: if_splits)
qed

section \<open>Strings\<close>

abbreviation newline :: char where
  "newline \<equiv> CHR 0x0A"

definition HasPrefix :: "string \<Rightarrow> string \<Rightarrow> bool" where
  "HasPrefix s p \<longleftrightarrow> take (length p) s = p"

definition TrimPrefix :: "string \<Rightarrow> string \<Rightarrow> string" where
  "TrimPrefix s p = (if HasPrefix s p then drop (length p) s else s)"

lemma HasPrefix_append [simp]: "HasPrefix (p @ s) p"
  by (simp add: HasPrefix_def)

lemma TrimPrefix_append [simp]: "TrimPrefix (p @ s) p = s"
  by (simp add: TrimPrefix_def)

text \<open>\<open>strings.IndexByte\<close> and \<open>bytes.IndexByte\<close>; no occurrence (\<open>-1\<close>) is \<open>None\<close>.\<close>

fun IndexByte :: "string \<Rightarrow> char \<Rightarrow> nat option" where
  "IndexByte [] c = None"
| "IndexByte (x # xs) c = (if x = c then Some 0 else map_option Suc (IndexByte xs c))"

lemma IndexByte_None: "IndexByte s c = None \<longleftrightarrow> c \<notin> set s"
  by (induction s) auto

lemma IndexByte_append: "c \<notin> set a \<Longrightarrow> IndexByte (a @ c # b) c = Some (length a)"
  by (induction a) auto

lemma IndexByte_Some:
  "IndexByte s c = Some i \<Longrightarrow> \<exists>a b. s = a @ c # b \<and> length a = i \<and> c \<notin> set a"
proof (induction s arbitrary: i)
  case Nil
  then show ?case by simp
next
  case (Cons x s)
  show ?case
  proof (cases "x = c")
    case True
    with Cons.prems show ?thesis by (auto intro!: exI[of _ "[]"])
  next
    case False
    with Cons.prems obtain j where j: "IndexByte s c = Some j" "i = Suc j" by auto
    from Cons.IH[OF j(1)] obtain a b where "s = a @ c # b" "length a = j" "c \<notin> set a" by blast
    with False j have "x # s = (x # a) @ c # b \<and> length (x # a) = i \<and> c \<notin> set (x # a)" by simp
    then show ?thesis by blast
  qed
qed

text \<open>\<open>strings.Split\<close> with a one-byte separator: never empty.\<close>

fun Split :: "string \<Rightarrow> char \<Rightarrow> string list" where
  "Split [] c = [[]]"
| "Split (x # xs) c =
     (if x = c then [] # Split xs c
      else (case Split xs c of [] \<Rightarrow> [[x]] | w # ws \<Rightarrow> (x # w) # ws))"

fun Join :: "string list \<Rightarrow> string \<Rightarrow> string" where
  "Join [] sep = []"
| "Join [x] sep = x"
| "Join (x # y # zs) sep = x @ sep @ Join (y # zs) sep"

lemma Split_nonempty [simp]: "Split s c \<noteq> []"
  by (induction s) (auto split: list.splits)

lemma Split_no_sep: "c \<notin> set s \<Longrightarrow> Split s c = [s]"
  by (induction s) auto

lemma Split_append: "c \<notin> set a \<Longrightarrow> Split (a @ c # b) c = a # Split b c"
  by (induction a) auto

lemma Split_Join:
  "xs \<noteq> [] \<Longrightarrow> \<forall>x \<in> set xs. c \<notin> set x \<Longrightarrow> Split (Join xs [c]) c = xs"
  by (induction xs "[c]" rule: Join.induct) (auto simp: Split_no_sep Split_append)

lemma Split_pieces: "\<forall>w \<in> set (Split s c). c \<notin> set w"
  by (induction s) (auto split: list.splits)

text \<open>\<open>strings.SplitN(s, sep, 2)\<close>: the text before the first separator and the rest, if any.\<close>

definition SplitN2 :: "string \<Rightarrow> char \<Rightarrow> string list" where
  "SplitN2 s c = (case break_at c s of None \<Rightarrow> [s] | Some (a, b) \<Rightarrow> [a, b])"

section \<open>White space, case and cutting\<close>

text \<open>\<open>TrimSpace\<close> of \<open>strings\<close> and \<open>bytes\<close>: the encodings of the characters that Unicode counts as white space.\<close>

definition white_space :: "string list" where
  "white_space = [[CHR 0x09], [CHR 0x0A], [CHR 0x0B], [CHR 0x0C], [CHR 0x0D], [CHR 0x20],
     [CHR 0xC2, CHR 0x85], [CHR 0xC2, CHR 0xA0], [CHR 0xE1, CHR 0x9A, CHR 0x80]] @
     map (\<lambda>n. [CHR 0xE2, CHR 0x80, char_of (n :: nat)]) ([0x80..<0x8B] @ [0xA8, 0xA9, 0xAF]) @
     [[CHR 0xE2, CHR 0x81, CHR 0x9F], [CHR 0xE3, CHR 0x80, CHR 0x80]]"

function trim_front :: "string list \<Rightarrow> string \<Rightarrow> string" where
  "trim_front ws s =
     (case find (\<lambda>w. w \<noteq> [] \<and> HasPrefix s w) ws of None \<Rightarrow> s | Some w \<Rightarrow> trim_front ws (drop (length w) s))"
  by pat_completeness auto

termination
proof (relation "measure (\<lambda>(ws, s). length s)", goal_cases)
  case 1
  show ?case by simp
next
  case (2 ws s w)
  then have "w \<noteq> []" "HasPrefix s w" by (auto simp: find_Some_iff)
  then show ?case by (cases w; cases s) (auto simp: HasPrefix_def)
qed

declare trim_front.simps [simp del]

definition TrimSpace :: "string \<Rightarrow> string" where
  "TrimSpace s = rev (trim_front (map rev white_space) (rev (trim_front white_space s)))"

text \<open>
  \<open>strings.ToLower\<close>. Two letters outside ASCII have a lower case in ASCII; the others are left as
  they are here (their lower case is outside ASCII too, and the results are only compared with
  ASCII names).
\<close>

definition lower_char :: "char \<Rightarrow> char" where
  "lower_char c = (let k = of_char c :: nat in if 65 \<le> k \<and> k \<le> 90 then char_of (k + 32) else c)"

function ToLower :: "string \<Rightarrow> string" where
  "ToLower s =
     (case s of
        [] \<Rightarrow> []
      | c # cs \<Rightarrow>
          if HasPrefix s [CHR 0xC4, CHR 0xB0] then CHR ''i'' # ToLower (drop 2 s)
          else if HasPrefix s [CHR 0xE2, CHR 0x84, CHR 0xAA] then CHR ''k'' # ToLower (drop 3 s)
          else lower_char c # ToLower cs)"
  by pat_completeness auto

termination by (relation "measure length") (auto simp: HasPrefix_def)

declare ToLower.simps [simp del]

definition ascii_text :: "string \<Rightarrow> bool" where
  "ascii_text s \<longleftrightarrow> (\<forall>c \<in> set s. (of_char c :: nat) < 128)"

lemma ToLower_ascii: "ascii_text s \<Longrightarrow> ToLower s = map lower_char s"
proof (induction s)
  case Nil
  then show ?case by (simp add: ToLower.simps)
next
  case (Cons c s)
  then have "c \<noteq> CHR 0xC4" "c \<noteq> CHR 0xE2" by (auto simp: ascii_text_def)
  with Cons show ?case by (subst ToLower.simps) (simp add: HasPrefix_def ascii_text_def)
qed

text \<open>\<open>strings.Cut\<close>: before and after the first separator, and whether there is one.\<close>

definition Cut :: "string \<Rightarrow> char \<Rightarrow> string \<times> string \<times> bool" where
  "Cut s c =
     (case IndexByte s c of
        None \<Rightarrow> (s, [], False)
      | Some i \<Rightarrow> (take i s, drop (Suc i) s, True))"

lemma Cut_none: "c \<notin> set s \<Longrightarrow> Cut s c = (s, [], False)"
  by (simp add: Cut_def IndexByte_None[THEN iffD2])

lemma Cut_some: "c \<notin> set a \<Longrightarrow> Cut (a @ c # b) c = (a, b, True)"
  by (simp add: Cut_def IndexByte_append)

end
