(* ===== verification/Redis.thy ===== *)
theory Redis
  imports GoStd
begin

text \<open>
  The database is a service outside the repository, so the model takes it as a parameter: a
  record \<open>'s redis\<close> of the commands the program issues (from Go and from its Lua scripts) over
  an unknown server state \<open>'s\<close>. What the program relies on is the predicate \<open>redis_ok R v\<close>: the
  documented effect of each command on the \<open>content\<close> that a view \<open>v\<close> reads off the
  state. Commands act on one key of one kind; nothing is said about timing, persistence or
  failures here (the callers model a lost connection themselves).

  \<open>mem_redis\<close> is a small in-memory server that satisfies the hypotheses; it instantiates the
  parameter in the witnesses and is not part of the model of the program.
\<close>

section \<open>Content of a database\<close>

type_synonym fields = "(string \<times> string) list"
type_synonym stream_entry = "string \<times> fields"

record content =
  hashes :: "string \<Rightarrow> string \<Rightarrow> string option"
  rsets :: "string \<Rightarrow> string set"
  zsets :: "string \<Rightarrow> string \<Rightarrow> int option"
  streams :: "string \<Rightarrow> stream_entry list"

definition no_content :: content where
  "no_content = \<lparr>hashes = \<lambda>_ _. None, rsets = \<lambda>_. {}, zsets = \<lambda>_ _. None, streams = \<lambda>_. []\<rparr>"

definition put_hash :: "string \<Rightarrow> (string \<Rightarrow> string option) \<Rightarrow> content \<Rightarrow> content" where
  "put_hash k h c = c\<lparr>hashes := (hashes c)(k := h)\<rparr>"

definition put_set :: "string \<Rightarrow> string set \<Rightarrow> content \<Rightarrow> content" where
  "put_set k a c = c\<lparr>rsets := (rsets c)(k := a)\<rparr>"

definition put_zset :: "string \<Rightarrow> (string \<Rightarrow> int option) \<Rightarrow> content \<Rightarrow> content" where
  "put_zset k z c = c\<lparr>zsets := (zsets c)(k := z)\<rparr>"

definition put_stream :: "string \<Rightarrow> stream_entry list \<Rightarrow> content \<Rightarrow> content" where
  "put_stream k es c = c\<lparr>streams := (streams c)(k := es)\<rparr>"

definition drop_key :: "string \<Rightarrow> content \<Rightarrow> content" where
  "drop_key k c = put_hash k (\<lambda>_. None) (put_set k {} (put_zset k (\<lambda>_. None) (put_stream k [] c)))"

lemma content_get_put [simp]:
  "hashes (put_hash k h c) = (hashes c)(k := h)" "rsets (put_hash k h c) = rsets c"
  "zsets (put_hash k h c) = zsets c" "streams (put_hash k h c) = streams c"
  "hashes (put_set k a c) = hashes c" "rsets (put_set k a c) = (rsets c)(k := a)"
  "zsets (put_set k a c) = zsets c" "streams (put_set k a c) = streams c"
  "hashes (put_zset k z c) = hashes c" "rsets (put_zset k z c) = rsets c"
  "zsets (put_zset k z c) = (zsets c)(k := z)" "streams (put_zset k z c) = streams c"
  "hashes (put_stream k es c) = hashes c" "rsets (put_stream k es c) = rsets c"
  "zsets (put_stream k es c) = zsets c" "streams (put_stream k es c) = (streams c)(k := es)"
  by (simp_all add: put_hash_def put_set_def put_zset_def put_stream_def)

lemma content_drop_key [simp]:
  "hashes (drop_key k c) = (hashes c)(k := (\<lambda>_. None))" "rsets (drop_key k c) = (rsets c)(k := {})"
  "zsets (drop_key k c) = (zsets c)(k := (\<lambda>_. None))" "streams (drop_key k c) = (streams c)(k := [])"
  by (simp_all add: drop_key_def)

lemma no_content_get [simp]:
  "hashes no_content k = (\<lambda>_. None)" "rsets no_content k = {}" "zsets no_content k = (\<lambda>_. None)"
  "streams no_content k = []"
  by (simp_all add: no_content_def)

section \<open>Stream IDs\<close>

text \<open>A stream ID is printed \<open>ms-seq\<close>; the server orders IDs by the pair.\<close>

type_synonym sid = "nat \<times> nat"

definition sid_str :: "sid \<Rightarrow> string" where
  "sid_str t = format_nat (fst t) @ ''-'' @ format_nat (snd t)"

definition sid_less :: "sid \<Rightarrow> sid \<Rightarrow> bool" where
  "sid_less a b \<longleftrightarrow> fst a < fst b \<or> fst a = fst b \<and> snd a < snd b"

definition sid64 :: "sid \<Rightarrow> bool" where
  "sid64 t \<longleftrightarrow> fst t < 2 ^ 64 \<and> snd t < 2 ^ 64"

text \<open>Reading an ID back; a text that is no ID reads as \<open>(0, 0)\<close>.\<close>

definition sid_of :: "string \<Rightarrow> sid" where
  "sid_of s = (case break_at CHR ''-'' s of
     None \<Rightarrow> (fst (ParseUint s), 0)
   | Some (a, b) \<Rightarrow> (fst (ParseUint a), fst (ParseUint b)))"

lemma sid_of_sid_str [simp]: "sid64 t \<Longrightarrow> sid_of (sid_str t) = t"
  by (simp add: sid_of_def sid_str_def sid64_def break_at_append)

lemma sid_less_trans: "sid_less a b \<Longrightarrow> sid_less b c \<Longrightarrow> sid_less a c"
  by (auto simp: sid_less_def)

lemma sid_less_irrefl [simp]: "\<not> sid_less a a"
  by (simp add: sid_less_def)

lemma sid_not_less: "\<not> sid_less a b \<longleftrightarrow> a = b \<or> sid_less b a"
  by (cases a; cases b) (auto simp: sid_less_def)

definition ids_increasing :: "stream_entry list \<Rightarrow> bool" where
  "ids_increasing es \<longleftrightarrow> sorted_wrt (\<lambda>a b. sid_less (sid_of (fst a)) (sid_of (fst b))) es"

section \<open>The commands\<close>

record 's redis =
  r_hget :: "string \<Rightarrow> string \<Rightarrow> 's \<Rightarrow> string option"
  r_hset :: "string \<Rightarrow> string \<Rightarrow> string \<Rightarrow> 's \<Rightarrow> 's"
  r_hdel :: "string \<Rightarrow> string \<Rightarrow> 's \<Rightarrow> 's"
  r_hincrby :: "string \<Rightarrow> string \<Rightarrow> int \<Rightarrow> 's \<Rightarrow> (string, 's) outcome"
  r_exists :: "string \<Rightarrow> 's \<Rightarrow> bool"
  r_del :: "string \<Rightarrow> 's \<Rightarrow> 's"
  r_sadd :: "string \<Rightarrow> string \<Rightarrow> 's \<Rightarrow> 's"
  r_srem :: "string \<Rightarrow> string \<Rightarrow> 's \<Rightarrow> 's"
  r_spop :: "string \<Rightarrow> nat \<Rightarrow> 's \<Rightarrow> string list \<times> 's"
  r_sunionstore :: "string \<Rightarrow> string \<Rightarrow> string \<Rightarrow> 's \<Rightarrow> 's"
  r_scard :: "string \<Rightarrow> 's \<Rightarrow> nat"
  r_zadd :: "string \<Rightarrow> int \<Rightarrow> string \<Rightarrow> 's \<Rightarrow> 's"
  r_zrem :: "string \<Rightarrow> string \<Rightarrow> 's \<Rightarrow> 's"
  r_zrange :: "string \<Rightarrow> nat \<Rightarrow> 's \<Rightarrow> string list"
  r_zcard :: "string \<Rightarrow> 's \<Rightarrow> nat"
  r_xadd :: "string \<Rightarrow> fields \<Rightarrow> 's \<Rightarrow> 's"
  r_xread :: "string \<Rightarrow> string \<Rightarrow> nat \<Rightarrow> 's \<Rightarrow> stream_entry list"
  r_xrange_before :: "string \<Rightarrow> string \<Rightarrow> nat \<Rightarrow> 's \<Rightarrow> stream_entry list"
  r_xrange :: "string \<Rightarrow> nat \<Rightarrow> 's \<Rightarrow> stream_entry list"
  r_xrevrange :: "string \<Rightarrow> nat \<Rightarrow> 's \<Rightarrow> stream_entry list"
  r_xtrim_minid :: "string \<Rightarrow> string \<Rightarrow> 's \<Rightarrow> nat \<times> 's"
  r_xinfo :: "string \<Rightarrow> 's \<Rightarrow> (string \<times> string \<times> nat) option"
  r_flushdb :: "'s \<Rightarrow> 's"
  r_cjson :: "string \<Rightarrow> string list option"

text \<open>Hash commands. \<open>HINCRBY\<close> reads a missing field as 0 and refuses a value that is no integer.\<close>

definition hash_value :: "string option \<Rightarrow> int option" where
  "hash_value x = (case x of None \<Rightarrow> Some 0 | Some w \<Rightarrow> parsed (ParseInt w))"

definition hincrby_ok :: "'s redis \<Rightarrow> ('s \<Rightarrow> content) \<Rightarrow> bool" where
  "hincrby_ok R v \<longleftrightarrow>
     (\<forall>k f n s. case hash_value (hashes (v s) k f) of
        None \<Rightarrow> \<exists>e s'. r_hincrby R k f n s = (Some e, s') \<and> v s' = v s
      | Some i \<Rightarrow>
          if int64 (i + n)
          then \<exists>s'. r_hincrby R k f n s = (None, s') \<and>
                 v s' = put_hash k ((hashes (v s) k)(f := Some (FormatInt (i + n)))) (v s)
          else \<exists>e s'. r_hincrby R k f n s = (Some e, s') \<and> v s' = v s)"

definition hash_ok :: "'s redis \<Rightarrow> ('s \<Rightarrow> content) \<Rightarrow> bool" where
  "hash_ok R v \<longleftrightarrow>
     (\<forall>k f s. r_hget R k f s = hashes (v s) k f) \<and>
     (\<forall>k f x s. v (r_hset R k f x s) = put_hash k ((hashes (v s) k)(f := Some x)) (v s)) \<and>
     (\<forall>k f s. v (r_hdel R k f s) = put_hash k ((hashes (v s) k)(f := None)) (v s)) \<and>
     (\<forall>k s. (\<exists>f. hashes (v s) k f \<noteq> None) \<longrightarrow> r_exists R k s) \<and>
     (\<forall>k s. v (r_del R k s) = drop_key k (v s)) \<and>
     (\<forall>s. v (r_flushdb R s) = no_content)"

text \<open>Set commands. \<open>SPOP\<close> takes any members, as many as asked for if there are so many.\<close>

definition spop_ok :: "'s redis \<Rightarrow> ('s \<Rightarrow> content) \<Rightarrow> bool" where
  "spop_ok R v \<longleftrightarrow>
     (\<forall>k n s. finite (rsets (v s) k) \<longrightarrow>
        (case r_spop R k n s of (ms, s') \<Rightarrow>
           distinct ms \<and> set ms \<subseteq> rsets (v s) k \<and>
           length ms = min n (card (rsets (v s) k)) \<and>
           v s' = put_set k (rsets (v s) k - set ms) (v s)))"

definition set_ok :: "'s redis \<Rightarrow> ('s \<Rightarrow> content) \<Rightarrow> bool" where
  "set_ok R v \<longleftrightarrow>
     (\<forall>k m s. v (r_sadd R k m s) = put_set k (insert m (rsets (v s) k)) (v s)) \<and>
     (\<forall>k m s. v (r_srem R k m s) = put_set k (rsets (v s) k - {m}) (v s)) \<and>
     (\<forall>k a b s. v (r_sunionstore R k a b s) = put_set k (rsets (v s) a \<union> rsets (v s) b) (v s)) \<and>
     (\<forall>k s. finite (rsets (v s) k) \<longrightarrow> r_scard R k s = card (rsets (v s) k))"

text \<open>Sorted sets: \<open>ZRANGE\<close> lists the members with the smallest scores.\<close>

definition zset_ok :: "'s redis \<Rightarrow> ('s \<Rightarrow> content) \<Rightarrow> bool" where
  "zset_ok R v \<longleftrightarrow>
     (\<forall>k x m s. v (r_zadd R k x m s) = put_zset k ((zsets (v s) k)(m := Some x)) (v s)) \<and>
     (\<forall>k m s. v (r_zrem R k m s) = put_zset k ((zsets (v s) k)(m := None)) (v s)) \<and>
     (\<forall>k n s. set (r_zrange R k n s) \<subseteq> dom (zsets (v s) k) \<and> distinct (r_zrange R k n s) \<and>
        length (r_zrange R k n s) \<le> n) \<and>
     (\<forall>k s. finite (dom (zsets (v s) k)) \<longrightarrow> r_zcard R k s = card (dom (zsets (v s) k)))"

text \<open>
  Streams: \<open>XADD\<close> with an automatic ID appends; the range commands select by ID; \<open>XTRIM MINID\<close>
  drops what is older; \<open>XINFO STREAM\<close> fails on a missing key, and may leave out the first or
  the last entry (Kvrocks does).
\<close>

definition xadd_ok :: "'s redis \<Rightarrow> ('s \<Rightarrow> content) \<Rightarrow> bool" where
  "xadd_ok R v \<longleftrightarrow>
     (\<forall>k fs s. \<exists>i. v (r_xadd R k fs s) = put_stream k (streams (v s) k @ [(i, fs)]) (v s))"

definition xrange_ok :: "'s redis \<Rightarrow> ('s \<Rightarrow> content) \<Rightarrow> bool" where
  "xrange_ok R v \<longleftrightarrow>
     (\<forall>k t n s. sid64 t \<longrightarrow>
        r_xread R k (sid_str t) n s =
          take n (filter (\<lambda>e. sid_less t (sid_of (fst e))) (streams (v s) k)) \<and>
        r_xrange_before R k (sid_str t) n s =
          take n (filter (\<lambda>e. sid_less (sid_of (fst e)) t) (streams (v s) k))) \<and>
     (\<forall>k n s. r_xrange R k n s = take n (streams (v s) k)) \<and>
     (\<forall>k n s. r_xrevrange R k n s = take n (rev (streams (v s) k)))"

definition xtrim_ok :: "'s redis \<Rightarrow> ('s \<Rightarrow> content) \<Rightarrow> bool" where
  "xtrim_ok R v \<longleftrightarrow>
     (\<forall>k t s. sid64 t \<longrightarrow>
        (case r_xtrim_minid R k (sid_str t) s of (n, s') \<Rightarrow>
           n = length (filter (\<lambda>e. sid_less (sid_of (fst e)) t) (streams (v s) k)) \<and>
           v s' = put_stream k (filter (\<lambda>e. \<not> sid_less (sid_of (fst e)) t) (streams (v s) k)) (v s)))"

definition xinfo_ok :: "'s redis \<Rightarrow> ('s \<Rightarrow> content) \<Rightarrow> bool" where
  "xinfo_ok R v \<longleftrightarrow>
     (\<forall>k s. case r_xinfo R k s of
        None \<Rightarrow> streams (v s) k = []
      | Some (f, l, n) \<Rightarrow>
          n = length (streams (v s) k) \<and>
          (f = [] \<or> streams (v s) k \<noteq> [] \<and> f = fst (hd (streams (v s) k))) \<and>
          (l = [] \<or> streams (v s) k \<noteq> [] \<and> l = fst (last (streams (v s) k))))"

definition redis_ok :: "'s redis \<Rightarrow> ('s \<Rightarrow> content) \<Rightarrow> bool" where
  "redis_ok R v \<longleftrightarrow> hash_ok R v \<and> hincrby_ok R v \<and> set_ok R v \<and> spop_ok R v \<and> zset_ok R v \<and>
     xadd_ok R v \<and> xrange_ok R v \<and> xtrim_ok R v \<and> xinfo_ok R v"

lemma redis_okD:
  assumes "redis_ok R v"
  shows "hash_ok R v" "hincrby_ok R v" "set_ok R v" "spop_ok R v" "zset_ok R v"
    "xadd_ok R v" "xrange_ok R v" "xtrim_ok R v" "xinfo_ok R v"
  using assms by (simp_all add: redis_ok_def)

lemma redis_hash [redis_laws]:
  assumes "redis_ok R v"
  shows "r_hget R k f s = hashes (v s) k f"
    and "v (r_hset R k f x s) = put_hash k ((hashes (v s) k)(f := Some x)) (v s)"
    and "v (r_hdel R k f s) = put_hash k ((hashes (v s) k)(f := None)) (v s)"
    and "v (r_del R k s) = drop_key k (v s)"
    and "v (r_flushdb R s) = no_content"
  using redis_okD(1)[OF assms] by (simp_all add: hash_ok_def)

lemma redis_set [redis_laws]:
  assumes "redis_ok R v"
  shows "v (r_sadd R k m s) = put_set k (insert m (rsets (v s) k)) (v s)"
    and "v (r_srem R k m s) = put_set k (rsets (v s) k - {m}) (v s)"
    and "v (r_sunionstore R k a b s) = put_set k (rsets (v s) a \<union> rsets (v s) b) (v s)"
    and "finite (rsets (v s) k) \<Longrightarrow> r_scard R k s = card (rsets (v s) k)"
  using redis_okD(3)[OF assms] by (simp_all add: set_ok_def)

lemma redis_zset [redis_laws]:
  assumes "redis_ok R v"
  shows "v (r_zadd R k x m s) = put_zset k ((zsets (v s) k)(m := Some x)) (v s)"
    and "v (r_zrem R k m s) = put_zset k ((zsets (v s) k)(m := None)) (v s)"
  using redis_okD(5)[OF assms] by (simp_all add: zset_ok_def)

lemma redis_hincrby:
  assumes "redis_ok R v" and "hash_value (hashes (v s) k f) = Some i" and "int64 (i + n)"
  obtains s' where "r_hincrby R k f n s = (None, s')"
    and "v s' = put_hash k ((hashes (v s) k)(f := Some (FormatInt (i + n)))) (v s)"
proof -
  have "case hash_value (hashes (v s) k f) of
        None \<Rightarrow> \<exists>e s'. r_hincrby R k f n s = (Some e, s') \<and> v s' = v s
      | Some i \<Rightarrow>
          if int64 (i + n)
          then \<exists>s'. r_hincrby R k f n s = (None, s') \<and>
                 v s' = put_hash k ((hashes (v s) k)(f := Some (FormatInt (i + n)))) (v s)
          else \<exists>e s'. r_hincrby R k f n s = (Some e, s') \<and> v s' = v s"
    using redis_okD(2)[OF assms(1)] unfolding hincrby_ok_def by blast
  with assms(2,3) show thesis using that by auto
qed

lemma redis_hincrby_cases:
  assumes "redis_ok R v"
  obtains (added) i s' where "r_hincrby R k f n s = (None, s')"
      "hash_value (hashes (v s) k f) = Some i"
      "v s' = put_hash k ((hashes (v s) k)(f := Some (FormatInt (i + n)))) (v s)"
    | (refused) e s' where "r_hincrby R k f n s = (Some e, s')" "v s' = v s"
proof -
  have "case hash_value (hashes (v s) k f) of
        None \<Rightarrow> \<exists>e s'. r_hincrby R k f n s = (Some e, s') \<and> v s' = v s
      | Some i \<Rightarrow>
          if int64 (i + n)
          then \<exists>s'. r_hincrby R k f n s = (None, s') \<and>
                 v s' = put_hash k ((hashes (v s) k)(f := Some (FormatInt (i + n)))) (v s)
          else \<exists>e s'. r_hincrby R k f n s = (Some e, s') \<and> v s' = v s"
    using redis_okD(2)[OF assms(1)] unfolding hincrby_ok_def by blast
  then show thesis using added refused by (auto split: option.splits if_splits)
qed

lemma redis_spop:
  assumes "redis_ok R v" and "finite (rsets (v s) k)" and "r_spop R k n s = (ms, s')"
  shows "distinct ms" "set ms \<subseteq> rsets (v s) k" "length ms = min n (card (rsets (v s) k))"
    "v s' = put_set k (rsets (v s) k - set ms) (v s)"
proof -
  have "case r_spop R k n s of (ms, s') \<Rightarrow>
           distinct ms \<and> set ms \<subseteq> rsets (v s) k \<and>
           length ms = min n (card (rsets (v s) k)) \<and>
           v s' = put_set k (rsets (v s) k - set ms) (v s)"
    using redis_okD(4)[OF assms(1), unfolded spop_ok_def, THEN spec, THEN spec, THEN spec, THEN mp, OF assms(2)] .
  with assms(3) show "distinct ms" "set ms \<subseteq> rsets (v s) k"
    "length ms = min n (card (rsets (v s) k))" "v s' = put_set k (rsets (v s) k - set ms) (v s)"
    by simp_all
qed

lemma redis_xadd:
  assumes "redis_ok R v"
  obtains i where "v (r_xadd R k fs s) = put_stream k (streams (v s) k @ [(i, fs)]) (v s)"
proof -
  have "\<exists>i. v (r_xadd R k fs s) = put_stream k (streams (v s) k @ [(i, fs)]) (v s)"
    using redis_okD(6)[OF assms] unfolding xadd_ok_def by blast
  then show thesis using that by blast
qed

lemma redis_range [redis_laws]:
  assumes "redis_ok R v"
  shows "r_xrange R k n s = take n (streams (v s) k)"
    and "r_xrevrange R k n s = take n (rev (streams (v s) k))"
    and "sid64 t \<Longrightarrow> r_xread R k (sid_str t) n s =
          take n (filter (\<lambda>e. sid_less t (sid_of (fst e))) (streams (v s) k))"
    and "sid64 t \<Longrightarrow> r_xrange_before R k (sid_str t) n s =
          take n (filter (\<lambda>e. sid_less (sid_of (fst e)) t) (streams (v s) k))"
  using redis_okD(7)[OF assms] unfolding xrange_ok_def by blast+

lemma redis_xtrim:
  assumes "redis_ok R v" and "sid64 t" and "r_xtrim_minid R k (sid_str t) s = (n, s')"
  shows "n = length (filter (\<lambda>e. sid_less (sid_of (fst e)) t) (streams (v s) k))"
    and "v s' = put_stream k (filter (\<lambda>e. \<not> sid_less (sid_of (fst e)) t) (streams (v s) k)) (v s)"
proof -
  have "case r_xtrim_minid R k (sid_str t) s of (n, s') \<Rightarrow>
      n = length (filter (\<lambda>e. sid_less (sid_of (fst e)) t) (streams (v s) k)) \<and>
      v s' = put_stream k (filter (\<lambda>e. \<not> sid_less (sid_of (fst e)) t) (streams (v s) k)) (v s)"
    using redis_okD(8)[OF assms(1), unfolded xtrim_ok_def, THEN spec, THEN spec, THEN spec, THEN mp, OF assms(2)] .
  with assms(3) show "n = length (filter (\<lambda>e. sid_less (sid_of (fst e)) t) (streams (v s) k))"
    "v s' = put_stream k (filter (\<lambda>e. \<not> sid_less (sid_of (fst e)) t) (streams (v s) k)) (v s)"
    by simp_all
qed

lemma redis_xinfo:
  assumes "redis_ok R v"
  shows "case r_xinfo R k s of
        None \<Rightarrow> streams (v s) k = []
      | Some (f, l, n) \<Rightarrow>
          n = length (streams (v s) k) \<and>
          (f = [] \<or> streams (v s) k \<noteq> [] \<and> f = fst (hd (streams (v s) k))) \<and>
          (l = [] \<or> streams (v s) k \<noteq> [] \<and> l = fst (last (streams (v s) k)))"
  using redis_okD(9)[OF assms] unfolding xinfo_ok_def by blast

end
