(* ===== verification/Mappings.thy ===== *)
theory Mappings
  imports GoStd
begin

text \<open>
  The identifiers and mapping entries of \<open>internal/store/writer.go\<close>: QIDs as text and as numbers,
  the flat \<open>P<id>:<value>\<close> entries with their validation, and the keys of the database. The
  lemmas say which texts the validation accepts and that QIDs survive the round trip.
\<close>

section \<open>Keys of the database\<close>

definition changelogKey :: string where "changelogKey = ''changelog''"
definition entitiesKey :: string where "entitiesKey = ''entities''"
definition metaKey :: string where "metaKey = ''meta''"
definition pendingKey :: string where "pendingKey = ''pending''"
definition processingKey :: string where "processingKey = ''processing''"
definition failedZsetKey :: string where "failedZsetKey = ''failed_zset''"

lemmas key_defs = changelogKey_def entitiesKey_def metaKey_def pendingKey_def processingKey_def
  failedZsetKey_def

text \<open>\<open>propKey\<close>: the hash that indexes one property, \<open>fmt.Sprintf("p:%d", property)\<close>.\<close>

definition propKey :: "int \<Rightarrow> string" where
  "propKey property = ''p:'' @ FormatInt property"

lemma propKey_prefix [simp]: "HasPrefix (propKey n) ''p:''"
  by (simp add: propKey_def HasPrefix_def)

lemma fixed_keys_no_prop [simp]:
  "\<not> HasPrefix entitiesKey ''p:''" "\<not> HasPrefix metaKey ''p:''"
  by (simp_all add: key_defs HasPrefix_def)

lemma fixed_keys_distinct [simp]:
  "entitiesKey \<noteq> metaKey" "metaKey \<noteq> entitiesKey" "pendingKey \<noteq> processingKey"
  "processingKey \<noteq> pendingKey"
  by (simp_all add: key_defs)

section \<open>Errors\<close>

datatype entry_error = MustStartWithP | BadEntryFormat | InvalidProperty string

datatype store_error =
    InvalidQIDFormat string
  | ParseQIDNumber num_error
  | ConvertQID string store_error
  | RawMappingsEmpty string
  | InvalidMapping string string entry_error
  | ScriptError string
  | ConnError string
  | LoadScripts string
  | SchemaMismatch
  | ParseScriptQID string
  | StoreOp string store_error

section \<open>QIDs\<close>

definition qidToInt :: "string \<Rightarrow> store_error + int" where
  "qidToInt qid =
     (case qid of
        [] \<Rightarrow> Inl (InvalidQIDFormat qid)
      | c # rest \<Rightarrow>
          if c \<noteq> CHR ''Q'' \<and> c \<noteq> CHR ''q'' then Inl (InvalidQIDFormat qid)
          else (case ParseInt rest of
                  (n, None) \<Rightarrow> Inr n
                | (_, Some e) \<Rightarrow> Inl (ParseQIDNumber e)))"

definition intToQid :: "int \<Rightarrow> string" where
  "intToQid n = CHR ''Q'' # FormatInt n"

lemma qidToInt_intToQid [simp]: "int64 n \<Longrightarrow> qidToInt (intToQid n) = Inr n"
  by (simp add: qidToInt_def intToQid_def)

lemma qidToInt_int64: "qidToInt q = Inr n \<Longrightarrow> int64 n"
  by (auto simp: qidToInt_def intro: ParseInt_ok_int64 split: list.splits if_splits prod.splits option.splits)

section \<open>Mapping entries\<close>

text \<open>
  \<open>parseFlatMappingEntry\<close>: an entry starts with \<open>P\<close>, has a colon at byte 2 or later that is
  not the last byte, and a number between the two.
\<close>

definition parseFlatMappingEntry :: "string \<Rightarrow> entry_error + (string \<times> string)" where
  "parseFlatMappingEntry entry =
     (if \<not> HasPrefix entry ''P'' then Inl MustStartWithP
      else (case IndexByte entry CHR '':'' of
              None \<Rightarrow> Inl BadEntryFormat
            | Some colonIdx \<Rightarrow>
                if colonIdx < 2 \<or> colonIdx = length entry - 1 then Inl BadEntryFormat
                else
                  let pid = drop 1 (take colonIdx entry) in
                  (case Atoi pid of
                     (_, Some _) \<Rightarrow> Inl (InvalidProperty pid)
                   | (_, None) \<Rightarrow> Inr (pid, drop (colonIdx + 1) entry))))"

lemma parseFlatMappingEntry_build:
  assumes "parsed (Atoi pid) \<noteq> None" and "val \<noteq> []"
  shows "parseFlatMappingEntry (CHR ''P'' # pid @ CHR '':'' # val) = Inr (pid, val)"
proof -
  obtain n where n: "Atoi pid = (n, None)"
    using assms(1) by (cases "Atoi pid") (auto simp: parsed_def split: if_splits)
  then have "pid \<noteq> []" by (auto simp: ParseInt_def)
  moreover have "CHR '':'' \<notin> set pid" using ParseInt_ok_chars[OF n] by simp
  then have "IndexByte (CHR ''P'' # pid @ CHR '':'' # val) CHR '':'' = Some (Suc (length pid))"
    by (simp add: IndexByte_append)
  ultimately show ?thesis
    using n assms(2) by (cases pid) (auto simp: parseFlatMappingEntry_def HasPrefix_def)
qed

lemma parseFlatMappingEntry_Inr:
  assumes "parseFlatMappingEntry e = Inr (pid, val)"
  shows "e = CHR ''P'' # pid @ CHR '':'' # val" "CHR '':'' \<notin> set pid" "val \<noteq> []"
    "parsed (Atoi pid) \<noteq> None"
proof -
  obtain i where i: "IndexByte e CHR '':'' = Some i" "2 \<le> i" "i \<noteq> length e - 1"
    and pre: "HasPrefix e ''P''" and pid: "pid = drop 1 (take i e)" and val: "val = drop (i + 1) e"
    and atoi: "snd (Atoi pid) = None"
    using assms by (auto simp: parseFlatMappingEntry_def Let_def split: if_splits option.splits prod.splits)
  from IndexByte_Some[OF i(1)] obtain a b where ab: "e = a @ CHR '':'' # b" "length a = i" "CHR '':'' \<notin> set a"
    by blast
  from pre ab i(2) obtain a' where a': "a = CHR ''P'' # a'"
    by (cases a) (auto simp: HasPrefix_def)
  from ab a' pid val show "e = CHR ''P'' # pid @ CHR '':'' # val" "CHR '':'' \<notin> set pid" by auto
  from ab i(3) val show "val \<noteq> []" by (cases b) auto
  from atoi show "parsed (Atoi pid) \<noteq> None" by (simp add: parsed_def)
qed

end
