(* ===== verification/Scripts.thy ===== *)
theory Scripts
  imports Redis Mappings
begin

text \<open>
  The Lua scripts of \<open>internal/store/writer.go\<close> that keep the entities, the reverse index and the
  changelog: \<open>upsertScript\<close>, \<open>deleteScript\<close>, \<open>recordFailedScript\<close> and \<open>claimScript\<close>. A
  script runs alone on the server, but an error in it does not undo what it has done: each
  returns its reply together with the state it leaves.

  The locale \<open>reverse_index\<close> is the contract of the index; the model's \<open>add_key\<close> and
  \<open>del_key\<close> satisfy it, and the two invariants of the store rest on its lemmas.
\<close>

section \<open>Lua helpers\<close>

datatype lua_reply = LuaInt int | LuaError string

text \<open>
  \<open>parse\<close>: the property key and the value of an entry; no colon from the second byte on makes
  \<open>colon\<close> nil, and the arithmetic on it an error.
\<close>

definition lua_parse :: "string \<Rightarrow> (string \<times> string) option" where
  "lua_parse e = map_option (\<lambda>(pid, val). (''p:'' @ pid, val)) (break_at CHR '':'' (drop 1 e))"

text \<open>\<open>string.gmatch(s, '[^,]+')\<close> and \<open>table.concat(parts, ',')\<close>.\<close>

definition csv_parts :: "string \<Rightarrow> string list" where
  "csv_parts s = filter (\<lambda>w. w \<noteq> []) (Split s CHR '','')"

definition csv_concat :: "string list \<Rightarrow> string" where
  "csv_concat parts = Join parts '',''"

definition add_key :: "'s redis \<Rightarrow> string \<Rightarrow> string \<times> string \<Rightarrow> 's \<Rightarrow> 's" where
  "add_key R eid k s =
     (case k of (pk, val) \<Rightarrow>
        (case r_hget R pk val s of
           None \<Rightarrow> r_hset R pk val eid s
         | Some cur \<Rightarrow>
             let parts = csv_parts cur in
             if eid \<in> set parts then s
             else r_hset R pk val (csv_concat (sort (parts @ [eid]))) s))"

definition add_idx :: "'s redis \<Rightarrow> string \<Rightarrow> string \<Rightarrow> 's \<Rightarrow> (string, 's) outcome" where
  "add_idx R eid e s =
     (case lua_parse e of
        None \<Rightarrow> (Some ''attempt to perform arithmetic on a nil value'', s)
      | Some k \<Rightarrow> (None, add_key R eid k s))"

definition del_key :: "'s redis \<Rightarrow> string \<Rightarrow> string \<times> string \<Rightarrow> 's \<Rightarrow> 's" where
  "del_key R eid k s =
     (case k of (pk, val) \<Rightarrow>
        (case r_hget R pk val s of
           None \<Rightarrow> s
         | Some cur \<Rightarrow>
             let parts = filter (\<lambda>p. p \<noteq> eid) (csv_parts cur) in
             if parts = [] then r_hdel R pk val s
             else r_hset R pk val (csv_concat parts) s))"

definition del_idx :: "'s redis \<Rightarrow> string \<Rightarrow> string \<Rightarrow> 's \<Rightarrow> (string, 's) outcome" where
  "del_idx R eid e s =
     (case lua_parse e of
        None \<Rightarrow> (Some ''attempt to perform arithmetic on a nil value'', s)
      | Some k \<Rightarrow> (None, del_key R eid k s))"

section \<open>The scripts\<close>

text \<open>Bringing the index from the old entries of an entity to the new ones.\<close>

definition diff_index ::
  "'s redis \<Rightarrow> string \<Rightarrow> string list \<Rightarrow> string list \<Rightarrow> 's \<Rightarrow> (string, 's) outcome" where
  "diff_index R eid old_parsed new_parsed s =
     (case for_each (\<lambda>e s. if e \<in> set new_parsed then (None, s) else del_idx R eid e s) old_parsed s of
        (Some err, s') \<Rightarrow> (Some err, s')
      | (None, s') \<Rightarrow>
          for_each (\<lambda>e s. if e \<in> set old_parsed then (None, s) else add_idx R eid e s) new_parsed s')"

definition upsertScript :: "'s redis \<Rightarrow> string \<Rightarrow> string \<Rightarrow> string \<Rightarrow> 's \<Rightarrow> lua_reply \<times> 's" where
  "upsertScript R key new_m eid s =
     (let old_m = r_hget R entitiesKey eid s;
          is_new = (old_m = None);
          changed = (is_new \<or> old_m \<noteq> Some new_m)
      in if \<not> changed then (LuaInt 0, s)
         else
           let s1 = r_hset R entitiesKey eid new_m s in
           case r_cjson R new_m of
             None \<Rightarrow> (LuaError ''cannot decode new mappings'', s1)
           | Some new_parsed \<Rightarrow>
               (case
                 (case old_m of
                    None \<Rightarrow> for_each (add_idx R eid) new_parsed s1
                  | Some om \<Rightarrow>
                      (case r_cjson R om of
                         None \<Rightarrow> (Some ''cannot decode old mappings'', s1)
                       | Some old_parsed \<Rightarrow> diff_index R eid old_parsed new_parsed s1))
                of
                  (Some err, s2) \<Rightarrow> (LuaError err, s2)
                | (None, s2) \<Rightarrow>
                    let s3 = r_xadd R key [(''q'', eid), (''m'', new_m)] s2 in
                    if is_new
                    then (case r_hincrby R metaKey ''entity_count'' 1 s3 of
                            (Some err, s4) \<Rightarrow> (LuaError err, s4)
                          | (None, s4) \<Rightarrow> (LuaInt 1, s4))
                    else (LuaInt 1, s3)))"

text \<open>The loop of \<open>deleteScript\<close> is \<open>del_idx\<close> written out in place.\<close>

definition deleteScript :: "'s redis \<Rightarrow> string \<Rightarrow> string \<Rightarrow> 's \<Rightarrow> lua_reply \<times> 's" where
  "deleteScript R key eid s =
     (case r_hget R entitiesKey eid s of
        None \<Rightarrow> (LuaInt 0, s)
      | Some old_m \<Rightarrow>
          let s1 = r_hdel R entitiesKey eid s in
          (case r_cjson R old_m of
             None \<Rightarrow> (LuaError ''cannot decode old mappings'', s1)
           | Some old \<Rightarrow>
               (case for_each (del_idx R eid) old s1 of
                  (Some err, s2) \<Rightarrow> (LuaError err, s2)
                | (None, s2) \<Rightarrow>
                    let s3 = r_xadd R key [(''q'', eid), (''m'', '''')] s2 in
                    (case r_hincrby R metaKey ''entity_count'' (- 1) s3 of
                       (Some err, s4) \<Rightarrow> (LuaError err, s4)
                     | (None, s4) \<Rightarrow> (LuaInt 1, s4)))))"

definition recordFailedScript ::
  "'s redis \<Rightarrow> string \<Rightarrow> string \<Rightarrow> string \<Rightarrow> string \<Rightarrow> string \<Rightarrow> int \<Rightarrow> 's \<Rightarrow> lua_reply \<times> 's" where
  "recordFailedScript R zkey fkey ident errMsg now score s =
     (if r_exists R fkey s
      then
        let s1 = r_hset R fkey ''last_failed'' now (r_hset R fkey ''error'' errMsg s) in
        (case r_hincrby R fkey ''attempts'' 1 s1 of
           (Some err, s2) \<Rightarrow> (LuaError err, s2)
         | (None, s2) \<Rightarrow> (LuaInt 1, r_zadd R zkey score ident s2))
      else
        let s1 = r_hset R fkey ''last_failed'' now (r_hset R fkey ''first_failed'' now
                   (r_hset R fkey ''attempts'' ''1'' (r_hset R fkey ''error'' errMsg s)))
        in (LuaInt 1, r_zadd R zkey score ident s1))"

definition claimScript :: "'s redis \<Rightarrow> string \<Rightarrow> string \<Rightarrow> nat \<Rightarrow> 's \<Rightarrow> string list \<times> 's" where
  "claimScript R pend proc limit s =
     (case r_spop R pend limit s of
        (members, s') \<Rightarrow>
          if members = [] then ([], s')
          else (members, fold (r_sadd R proc) members s'))"

end
