(* ===== verification/Index.thy ===== *)
theory Index
  imports Scripts
begin

text \<open>
  The reverse index: which entities a (property, value) pair leads to. The index invariant
  \<open>index_ok\<close> says that the comma-separated lists under the \<open>p:<id>\<close> hashes are well formed and
  hold exactly the entities whose stored mappings have the entry. The lemmas of this theory are
  about one key at a time and about the loops of the scripts; \<open>Entities\<close> has the scripts.
\<close>

section \<open>The contract of a reverse index\<close>

text \<open>
  An index relates keys to sets of ids. Adding and removing touch one key and one id and keep
  the representation invariant; everything about loops over keys follows.
\<close>

locale reverse_index =
  fixes add :: "'i \<Rightarrow> 'k \<Rightarrow> 's \<Rightarrow> 's"
    and del :: "'i \<Rightarrow> 'k \<Rightarrow> 's \<Rightarrow> 's"
    and mem :: "'s \<Rightarrow> 'k \<Rightarrow> 'i set"
    and inv :: "'s \<Rightarrow> bool"
    and id_ok :: "'i \<Rightarrow> bool"
    and key_ok :: "'k \<Rightarrow> bool"
  assumes mem_add: "inv s \<Longrightarrow> id_ok i \<Longrightarrow> key_ok k \<Longrightarrow>
      mem (add i k s) k' = (if k' = k then insert i (mem s k') else mem s k')"
    and mem_del: "inv s \<Longrightarrow> id_ok i \<Longrightarrow> key_ok k \<Longrightarrow>
      mem (del i k s) k' = (if k' = k then mem s k' - {i} else mem s k')"
    and inv_add: "inv s \<Longrightarrow> id_ok i \<Longrightarrow> key_ok k \<Longrightarrow> inv (add i k s)"
    and inv_del: "inv s \<Longrightarrow> id_ok i \<Longrightarrow> key_ok k \<Longrightarrow> inv (del i k s)"
begin

lemma add_all:
  assumes "inv s" "id_ok i" "\<forall>k \<in> set ks. key_ok k"
  shows "inv (fold (add i) ks s) \<and>
    mem (fold (add i) ks s) k = (if k \<in> set ks then insert i (mem s k) else mem s k)"
  using assms by (induction ks arbitrary: s) (auto simp: mem_add inv_add)

lemma del_all:
  assumes "inv s" "id_ok i" "\<forall>k \<in> set ks. key_ok k"
  shows "inv (fold (del i) ks s) \<and>
    mem (fold (del i) ks s) k = (if k \<in> set ks then mem s k - {i} else mem s k)"
  using assms by (induction ks arbitrary: s) (auto simp: mem_del inv_del)

text \<open>Removing the stale keys of an id and adding its new ones.\<close>

lemma update_all:
  assumes s: "inv s" "id_ok i" and ks: "\<forall>k \<in> set ds \<union> set as. key_ok k"
  shows "inv (fold (add i) as (fold (del i) ds s)) \<and>
    mem (fold (add i) as (fold (del i) ds s)) k =
      (if k \<in> set as then insert i (mem s k)
       else if k \<in> set ds then mem s k - {i} else mem s k)"
proof -
  have d: "inv (fold (del i) ds s)"
    and m: "mem (fold (del i) ds s) k = (if k \<in> set ds then mem s k - {i} else mem s k)"
    using del_all[of s i ds k] s ks by auto
  show ?thesis using add_all[OF d, of i as k] s ks m by auto
qed

end

section \<open>Index lists\<close>

definition eid_ok :: "string \<Rightarrow> bool" where
  "eid_ok eid \<longleftrightarrow> eid \<noteq> [] \<and> CHR '','' \<notin> set eid"

lemma eid_ok_FormatInt [index_intros]: "eid_ok (FormatInt n)"
  by (simp add: eid_ok_def)

lemma csv_parts_concat: "\<forall>w \<in> set ws. eid_ok w \<Longrightarrow> csv_parts (csv_concat ws) = ws"
proof (cases "ws = []")
  case True
  then show ?thesis by (simp add: csv_parts_def csv_concat_def)
next
  case False
  assume ok: "\<forall>w \<in> set ws. eid_ok w"
  with False have "Split (Join ws '','') CHR '','' = ws"
    by (intro Split_Join) (auto simp: eid_ok_def)
  with ok show ?thesis by (simp add: csv_parts_def csv_concat_def eid_ok_def)
qed

lemma csv_parts_eid_ok: "w \<in> set (csv_parts cur) \<Longrightarrow> eid_ok w"
  using Split_pieces by (auto simp: csv_parts_def eid_ok_def)

lemma csv_parts_single: "eid_ok w \<Longrightarrow> csv_parts w = [w]"
  by (simp add: csv_parts_def eid_ok_def Split_no_sep)

definition csv_ok :: "string \<Rightarrow> bool" where
  "csv_ok cur \<longleftrightarrow>
     (let ids = csv_parts cur in ids \<noteq> [] \<and> sorted ids \<and> distinct ids \<and> cur = csv_concat ids)"

lemma csv_ok_concat:
  "ids \<noteq> [] \<Longrightarrow> sorted ids \<Longrightarrow> distinct ids \<Longrightarrow> \<forall>w \<in> set ids. eid_ok w \<Longrightarrow> csv_ok (csv_concat ids)"
  by (simp add: csv_ok_def csv_parts_concat Let_def)

lemma csv_ok_single: "eid_ok w \<Longrightarrow> csv_ok w"
  by (simp add: csv_ok_def csv_parts_single csv_concat_def)

definition index_entry_ok :: "string option \<Rightarrow> bool" where
  "index_entry_ok x = (case x of None \<Rightarrow> True | Some cur \<Rightarrow> csv_ok cur)"

definition index_entry_ids :: "string option \<Rightarrow> string set" where
  "index_entry_ids x = (case x of None \<Rightarrow> {} | Some cur \<Rightarrow> set (csv_parts cur))"

definition members :: "content \<Rightarrow> string \<times> string \<Rightarrow> string set" where
  "members c k = index_entry_ids (hashes c (fst k) (snd k))"

definition key_ok :: "string \<times> string \<Rightarrow> bool" where
  "key_ok k \<longleftrightarrow> HasPrefix (fst k) ''p:''"

definition lists_ok :: "content \<Rightarrow> bool" where
  "lists_ok c \<longleftrightarrow> (\<forall>pk val. HasPrefix pk ''p:'' \<longrightarrow> index_entry_ok (hashes c pk val))"

section \<open>One key\<close>

text \<open>What adding or removing an id does to the field of its key, and to nothing else.\<close>

definition field_after_add :: "string \<Rightarrow> string option \<Rightarrow> string option" where
  "field_after_add eid x =
     (case x of None \<Rightarrow> Some eid
      | Some cur \<Rightarrow> if eid \<in> set (csv_parts cur) then Some cur
                    else Some (csv_concat (sort (csv_parts cur @ [eid]))))"

definition field_after_del :: "string \<Rightarrow> string option \<Rightarrow> string option" where
  "field_after_del eid x =
     (case x of None \<Rightarrow> None
      | Some cur \<Rightarrow> (let parts = filter (\<lambda>p. p \<noteq> eid) (csv_parts cur) in
                      if parts = [] then None else Some (csv_concat parts)))"

lemma put_hash_same: "hashes c k f = x \<Longrightarrow> put_hash k ((hashes c k)(f := x)) c = c"
  by (simp add: put_hash_def fun_upd_idem)

lemma add_key_view:
  assumes "redis_ok R v"
  shows "v (add_key R eid (pk, val) s) =
    put_hash pk ((hashes (v s) pk)(val := field_after_add eid (hashes (v s) pk val))) (v s)"
  using assms by (auto simp: add_key_def field_after_add_def redis_laws Let_def put_hash_same
      split: option.splits)

lemma del_key_view:
  assumes "redis_ok R v"
  shows "v (del_key R eid (pk, val) s) =
    put_hash pk ((hashes (v s) pk)(val := field_after_del eid (hashes (v s) pk val))) (v s)"
  using assms by (auto simp: del_key_def field_after_del_def redis_laws Let_def put_hash_same
      split: option.splits)

lemma index_entry_ids_add:
  "eid_ok eid \<Longrightarrow> index_entry_ids (field_after_add eid x) = insert eid (index_entry_ids x)"
  by (auto simp: index_entry_ids_def field_after_add_def csv_parts_single csv_parts_concat
      csv_parts_eid_ok split: option.splits)

lemma index_entry_ids_del:
  "index_entry_ids (field_after_del eid x) = index_entry_ids x - {eid}"
proof (cases x)
  case None
  then show ?thesis by (simp add: index_entry_ids_def field_after_del_def)
next
  case (Some cur)
  have "csv_parts (csv_concat (filter (\<lambda>p. p \<noteq> eid) (csv_parts cur))) = filter (\<lambda>p. p \<noteq> eid) (csv_parts cur)"
    by (rule csv_parts_concat) (auto simp: csv_parts_eid_ok)
  with Some show ?thesis
    by (auto simp: index_entry_ids_def field_after_del_def Let_def filter_empty_conv)
qed

lemma index_entry_ok_add:
  assumes "eid_ok eid" "index_entry_ok x"
  shows "index_entry_ok (field_after_add eid x)"
proof (cases x)
  case None
  with assms(1) show ?thesis by (simp add: index_entry_ok_def field_after_add_def csv_ok_single)
next
  case (Some cur)
  have "sort (csv_parts cur @ [eid]) \<noteq> []"
    by (metis append_is_Nil_conv list.distinct(1) set_empty set_sort)
  then have "csv_ok (csv_concat (sort (csv_parts cur @ [eid])))" if "eid \<notin> set (csv_parts cur)"
    using that assms Some csv_parts_eid_ok
    by (intro csv_ok_concat) (auto simp: index_entry_ok_def csv_ok_def Let_def)
  with Some assms(2) show ?thesis by (simp add: index_entry_ok_def field_after_add_def)
qed

lemma index_entry_ok_del:
  assumes "index_entry_ok x"
  shows "index_entry_ok (field_after_del eid x)"
proof (cases x)
  case None
  then show ?thesis by (simp add: index_entry_ok_def field_after_del_def)
next
  case (Some cur)
  define parts where "parts = filter (\<lambda>p. p \<noteq> eid) (csv_parts cur)"
  have "sorted parts \<and> distinct parts"
    using assms Some unfolding parts_def
    by (intro sorted_distinct_filter) (simp_all add: index_entry_ok_def csv_ok_def Let_def)
  then have "csv_ok (csv_concat parts)" if "parts \<noteq> []"
    using that csv_parts_eid_ok by (intro csv_ok_concat) (auto simp: parts_def)
  with Some show ?thesis
    by (simp add: index_entry_ok_def field_after_del_def Let_def parts_def)
qed

section \<open>The model's index meets the contract\<close>

interpretation kv_index: reverse_index "add_key R" "del_key R" "\<lambda>s. members (v s)"
  "\<lambda>s. redis_ok R v \<and> lists_ok (v s)" eid_ok key_ok
  for R :: "'s redis" and v :: "'s \<Rightarrow> content"
proof (unfold_locales, goal_cases)
  case (1 s i k k')
  then show ?case
    by (cases k; cases k') (auto simp: add_key_view members_def index_entry_ids_add)
next
  case (2 s i k k')
  then show ?case
    by (cases k; cases k') (auto simp: del_key_view members_def index_entry_ids_del)
next
  case (3 s i k)
  then show ?case
    by (cases k) (auto simp: add_key_view lists_ok_def index_entry_ok_add)
next
  case (4 s i k)
  then show ?case
    by (cases k) (auto simp: del_key_view lists_ok_def index_entry_ok_del)
qed

section \<open>Entries\<close>

text \<open>An entry the scripts can index: \<open>P\<close>, a property without a colon, a colon, any value.\<close>

definition entry_ok :: "string \<Rightarrow> bool" where
  "entry_ok e \<longleftrightarrow> (case e of [] \<Rightarrow> False | c # rest \<Rightarrow> c = CHR ''P'' \<and> CHR '':'' \<in> set rest)"

definition entry_key :: "string \<Rightarrow> string \<times> string" where
  "entry_key e = the (lua_parse e)"

lemma lua_parse_entry:
  "CHR '':'' \<notin> set a \<Longrightarrow> lua_parse (c # a @ CHR '':'' # b) = Some (''p:'' @ a, b)"
  by (simp add: lua_parse_def break_at_append)

lemma entry_okE:
  assumes "entry_ok e"
  obtains a b where "e = CHR ''P'' # a @ CHR '':'' # b" "CHR '':'' \<notin> set a"
    "lua_parse e = Some (''p:'' @ a, b)" "entry_key e = (''p:'' @ a, b)"
proof -
  obtain rest where e: "e = CHR ''P'' # rest" "CHR '':'' \<in> set rest"
    using assms by (auto simp: entry_ok_def split: list.splits)
  then obtain a b where "break_at CHR '':'' rest = Some (a, b)"
    using break_at_None[of "CHR '':''" rest] by (cases "break_at CHR '':'' rest") auto
  then have "rest = a @ CHR '':'' # b" "CHR '':'' \<notin> set a" by (auto dest: break_at_SomeD)
  with e that show thesis by (simp add: entry_key_def lua_parse_entry)
qed

lemma lua_parse_ok: "entry_ok e \<Longrightarrow> lua_parse e = Some (entry_key e)"
  by (auto elim: entry_okE)

lemma key_ok_entry [index_intros]: "entry_ok e \<Longrightarrow> key_ok (entry_key e)"
  by (auto elim!: entry_okE simp: key_ok_def HasPrefix_def)

lemma entry_key_inj: "entry_ok e \<Longrightarrow> entry_ok e' \<Longrightarrow> entry_key e = entry_key e' \<Longrightarrow> e = e'"
  by (elim entry_okE) simp

lemma parseFlatMappingEntry_entry_ok [index_intros]:
  "parseFlatMappingEntry e = Inr r \<Longrightarrow> entry_ok e"
  using parseFlatMappingEntry_Inr[of e "fst r" "snd r"] by (auto simp: entry_ok_def)

section \<open>The loops of the scripts\<close>

lemma add_loop:
  "\<forall>e \<in> set es. entry_ok e \<Longrightarrow>
   for_each (add_idx R eid) es s = (None, fold (add_key R eid) (map entry_key es) s)"
  by (induction es arbitrary: s) (auto simp: add_idx_def lua_parse_ok)

lemma del_loop:
  "\<forall>e \<in> set es. entry_ok e \<Longrightarrow>
   for_each (del_idx R eid) es s = (None, fold (del_key R eid) (map entry_key es) s)"
  by (induction es arbitrary: s) (auto simp: del_idx_def lua_parse_ok)

lemma for_each_skip:
  "for_each (\<lambda>e s. if P e then (None, s) else f e s) es s = for_each f (filter (\<lambda>e. \<not> P e) es) s"
  by (induction es arbitrary: s) (auto split: prod.splits option.splits)

lemma diff_index_eq:
  assumes "\<forall>e \<in> set old \<union> set new. entry_ok e"
  shows "diff_index R eid old new s =
    (None, fold (add_key R eid) (map entry_key (filter (\<lambda>e. e \<notin> set old) new))
             (fold (del_key R eid) (map entry_key (filter (\<lambda>e. e \<notin> set new) old)) s))"
  using assms by (simp add: diff_index_def for_each_skip add_loop del_loop)

text \<open>The loops touch the index hashes only.\<close>

definition same_but_index :: "content \<Rightarrow> content \<Rightarrow> bool" where
  "same_but_index c c' \<longleftrightarrow>
     (\<forall>k. \<not> HasPrefix k ''p:'' \<longrightarrow> hashes c' k = hashes c k) \<and>
     rsets c' = rsets c \<and> zsets c' = zsets c \<and> streams c' = streams c"

lemma same_but_index_refl [simp]: "same_but_index c c"
  by (simp add: same_but_index_def)

lemma same_but_index_trans: "same_but_index a b \<Longrightarrow> same_but_index b c \<Longrightarrow> same_but_index a c"
  by (simp add: same_but_index_def)

lemma add_key_frame: "redis_ok R v \<Longrightarrow> key_ok k \<Longrightarrow> same_but_index (v s) (v (add_key R eid k s))"
  by (cases k) (auto simp: same_but_index_def add_key_view key_ok_def)

lemma del_key_frame: "redis_ok R v \<Longrightarrow> key_ok k \<Longrightarrow> same_but_index (v s) (v (del_key R eid k s))"
  by (cases k) (auto simp: same_but_index_def del_key_view key_ok_def)

lemma fold_frame:
  assumes "\<And>k s. k \<in> set ks \<Longrightarrow> same_but_index (v s) (v (f k s))"
  shows "same_but_index (v s) (v (fold f ks s))"
  using assms
proof (induction ks arbitrary: s)
  case Nil
  then show ?case by simp
next
  case (Cons k ks)
  have "same_but_index (v s) (v (f k s))" using Cons.prems by simp
  moreover have "same_but_index (v (f k s)) (v (fold f ks (f k s)))"
    using Cons by simp
  ultimately show ?case using same_but_index_trans by auto
qed

lemma update_frame:
  assumes "redis_ok R v" "\<forall>k \<in> set ds \<union> set as. key_ok k"
  shows "same_but_index (v s) (v (fold (add_key R eid) as (fold (del_key R eid) ds s)))"
proof -
  have "same_but_index (v s) (v (fold (del_key R eid) ds s))"
    using assms by (intro fold_frame del_key_frame) auto
  moreover have "same_but_index (v (fold (del_key R eid) ds s))
      (v (fold (add_key R eid) as (fold (del_key R eid) ds s)))"
    using assms by (intro fold_frame add_key_frame) auto
  ultimately show ?thesis by (rule same_but_index_trans)
qed

end
