(* ===== verification/Entities.thy ===== *)
theory Entities
  imports Index
begin

text \<open>
  What \<open>upsertScript\<close> and \<open>deleteScript\<close> do to the store as a whole. \<open>index_ok\<close> ties the
  reverse index to the entities, \<open>count_ok\<close> ties the entity counter to them, and a script's
  effect on the entities is the effect of the changelog entries it appends
  (\<open>apply_log\<close>). The lemmas \<open>upsert_changed\<close> and \<open>delete_present\<close> give the complete effect
  of a script that succeeds; the others are read off them.
\<close>

section \<open>Invariants\<close>

abbreviation entities :: "content \<Rightarrow> string \<Rightarrow> string option" where
  "entities c \<equiv> hashes c entitiesKey"

definition mappings_ok :: "'s redis \<Rightarrow> string \<Rightarrow> bool" where
  "mappings_ok R m \<longleftrightarrow>
     m \<noteq> [] \<and> (case r_cjson R m of None \<Rightarrow> False | Some es \<Rightarrow> \<forall>e \<in> set es. entry_ok e)"

definition entity_keys :: "'s redis \<Rightarrow> string option \<Rightarrow> (string \<times> string) set" where
  "entity_keys R x =
     (case x of None \<Rightarrow> {}
      | Some m \<Rightarrow> (case r_cjson R m of None \<Rightarrow> {} | Some es \<Rightarrow> entry_key ` set es))"

definition entities_ok :: "'s redis \<Rightarrow> content \<Rightarrow> bool" where
  "entities_ok R c \<longleftrightarrow> (\<forall>eid m. entities c eid = Some m \<longrightarrow> eid_ok eid \<and> mappings_ok R m)"

definition index_ok :: "'s redis \<Rightarrow> content \<Rightarrow> bool" where
  "index_ok R c \<longleftrightarrow> entities_ok R c \<and> lists_ok c \<and>
     (\<forall>k eid. key_ok k \<longrightarrow> (eid \<in> members c k \<longleftrightarrow> k \<in> entity_keys R (entities c eid)))"

definition entity_count :: "content \<Rightarrow> int option" where
  "entity_count c = hash_value (hashes c metaKey ''entity_count'')"

definition count_ok :: "content \<Rightarrow> bool" where
  "count_ok c \<longleftrightarrow> finite (dom (entities c)) \<and> int64 (int (card (dom (entities c)))) \<and>
     entity_count c = Some (int (card (dom (entities c))))"

text \<open>The changelog entry of a change, and the effect of a changelog on a map of entities.\<close>

definition change_fields :: "string \<Rightarrow> string \<Rightarrow> fields" where
  "change_fields eid m = [(''q'', eid), (''m'', m)]"

definition apply_change :: "string \<times> string \<Rightarrow> (string \<Rightarrow> string option) \<Rightarrow> string \<Rightarrow> string option" where
  "apply_change ch ents = ents(fst ch := (if snd ch = [] then None else Some (snd ch)))"

definition entry_change :: "stream_entry \<Rightarrow> string \<times> string" where
  "entry_change e = (the (map_of (snd e) ''q''), the (map_of (snd e) ''m''))"

definition apply_log :: "stream_entry list \<Rightarrow> (string \<Rightarrow> string option) \<Rightarrow> string \<Rightarrow> string option" where
  "apply_log es = fold (\<lambda>e. apply_change (entry_change e)) es"

lemma entry_change_fields [simp]: "entry_change (i, change_fields eid m) = (eid, m)"
  by (simp add: entry_change_def change_fields_def)

lemma apply_log_append [simp]: "apply_log (xs @ ys) ents = apply_log ys (apply_log xs ents)"
  by (simp add: apply_log_def)

lemma apply_log_simps [simp]:
  "apply_log [] ents = ents"
  "apply_log (e # es) ents = apply_log es (apply_change (entry_change e) ents)"
  by (simp_all add: apply_log_def)

lemma index_ok_cong:
  assumes "\<And>k. HasPrefix k ''p:'' \<or> k = entitiesKey \<Longrightarrow> hashes c' k = hashes c k"
  shows "index_ok R c' = index_ok R c"
proof -
  have "entities c' = entities c" using assms by blast
  moreover have "members c' k = members c k" if "key_ok k" for k
    using assms that by (simp add: members_def key_ok_def)
  moreover have "lists_ok c' = lists_ok c" using assms by (simp add: lists_ok_def)
  ultimately show ?thesis by (simp add: index_ok_def entities_ok_def)
qed

lemma index_okD:
  assumes "index_ok R c"
  shows "lists_ok c" and "entities c eid = Some m \<Longrightarrow> mappings_ok R m"
    and "entities c eid = Some m \<Longrightarrow> eid_ok eid"
    and "key_ok k \<Longrightarrow> members c k = {eid. k \<in> entity_keys R (entities c eid)}"
  using assms unfolding index_ok_def entities_ok_def by blast+

lemma mappings_okE:
  assumes "mappings_ok R m"
  obtains es where "r_cjson R m = Some es" "\<forall>e \<in> set es. entry_ok e" "m \<noteq> []"
  using assms by (auto simp: mappings_ok_def split: option.splits)

lemma entity_keys_Some [simp]:
  "r_cjson R m = Some es \<Longrightarrow> entity_keys R (Some m) = entry_key ` set es"
  "entity_keys R None = {}"
  by (simp_all add: entity_keys_def)

section \<open>Re-indexing one entity\<close>

text \<open>
  Removing the entries that went and adding the ones that came turns the keys of the old list
  into the keys of the new one: entries determine their keys and keys their entries.
\<close>

lemma diff_keys:
  assumes ok: "\<forall>e \<in> set old \<union> set new. entry_ok e"
  shows "(k \<in> entry_key ` (set new - set old) \<or>
          k \<notin> entry_key ` (set old - set new) \<and> k \<in> entry_key ` set old)
         \<longleftrightarrow> k \<in> entry_key ` set new" (is "?l \<longleftrightarrow> ?r")
proof (cases "\<exists>e \<in> set new. k = entry_key e")
  case True
  then obtain e where e: "e \<in> set new" "k = entry_key e" by blast
  have "k \<noteq> entry_key e'" if "e' \<in> set old - set new" for e'
    using that e ok entry_key_inj[of e e'] by auto
  then have "k \<notin> entry_key ` (set old - set new)" by blast
  with e show ?thesis by (cases "e \<in> set old") auto
next
  case False
  then have "k \<in> entry_key ` (set old - set new)" if "k \<in> entry_key ` set old"
    using that by auto
  with False show ?thesis by auto
qed

text \<open>
  One lemma for both scripts: the entity \<open>eid\<close> has the entries \<open>old\<close> in the index and is stored
  with \<open>x\<close>, whose entries are \<open>new\<close>; after the loops the index agrees with the store.
\<close>

lemma reindex:
  assumes R: "redis_ok R v" and c: "index_ok R c" and e: "eid_ok eid"
    and ok: "\<forall>e \<in> set old \<union> set new. entry_ok e"
    and old: "entity_keys R (entities c eid) = entry_key ` set old"
    and new: "entity_keys R x = entry_key ` set new"
    and x: "\<And>m. x = Some m \<Longrightarrow> mappings_ok R m"
    and s1: "v s1 = put_hash entitiesKey ((entities c)(eid := x)) c"
    and s2: "s2 = fold (add_key R eid) (map entry_key (filter (\<lambda>e. e \<notin> set old) new))
             (fold (del_key R eid) (map entry_key (filter (\<lambda>e. e \<notin> set new) old)) s1)"
  shows "index_ok R (v s2)" and "same_but_index (v s1) (v s2)"
proof -
  have keys: "\<forall>k \<in> set (map entry_key (filter (\<lambda>e. e \<notin> set new) old)) \<union>
      set (map entry_key (filter (\<lambda>e. e \<notin> set old) new)). key_ok k"
    using ok key_ok_entry by fastforce
  show frame: "same_but_index (v s1) (v s2)" unfolding s2 by (rule update_frame[OF R keys])
  have "lists_ok (v s1)" using index_okD(1)[OF c] by (auto simp: lists_ok_def s1)
  note upd = kv_index.update_all[OF conjI[OF R this] e keys, folded s2]
  have ents: "entities (v s2) = (entities c)(eid := x)"
    using frame s1 by (simp add: same_but_index_def)
  have mem1: "members (v s1) k = {i. k \<in> entity_keys R (entities c i)}" if "key_ok k" for k
  proof -
    from that have "fst k \<noteq> entitiesKey" by (auto simp: key_ok_def)
    then have "members (v s1) k = members c k" by (simp add: members_def s1)
    with index_okD(4)[OF c that] show ?thesis by simp
  qed
  have mem2: "i \<in> members (v s2) k \<longleftrightarrow> k \<in> entity_keys R (entities (v s2) i)"
    if k: "key_ok k" for k i
  proof (cases "i = eid")
    case True
    have "eid \<in> members (v s2) k \<longleftrightarrow>
        k \<in> entry_key ` (set new - set old) \<or>
        k \<notin> entry_key ` (set old - set new) \<and> k \<in> entry_key ` set old"
      using upd[of k] mem1[OF k] old by (auto simp: set_diff_eq)
    with diff_keys[OF ok] True ents new show ?thesis by simp
  next
    case False
    with upd[of k] mem1[OF k] ents show ?thesis by auto
  qed
  have "entities_ok R (v s2)"
    using c ents e x by (auto simp: entities_ok_def index_ok_def)
  with mem2 upd show "index_ok R (v s2)" by (auto simp: index_ok_def)
qed

section \<open>The effect of a script\<close>

text \<open>
  \<open>stored c eid x i c'\<close>: the content \<open>c'\<close> differs from \<open>c\<close> in that the entity \<open>eid\<close> is stored
  as \<open>x\<close>, a changelog entry \<open>i\<close> says so, and the index and the entity counter may have changed.
\<close>

definition stored :: "content \<Rightarrow> string \<Rightarrow> string \<Rightarrow> string option \<Rightarrow> string \<Rightarrow> content \<Rightarrow> bool" where
  "stored c key eid x i c' \<longleftrightarrow>
     entities c' = (entities c)(eid := x) \<and>
     streams c' = (streams c)(key := streams c key @
        [(i, change_fields eid (case x of None \<Rightarrow> [] | Some m \<Rightarrow> m))]) \<and>
     rsets c' = rsets c \<and> zsets c' = zsets c \<and>
     (\<forall>k. \<not> HasPrefix k ''p:'' \<longrightarrow> k \<noteq> entitiesKey \<longrightarrow> k \<noteq> metaKey \<longrightarrow> hashes c' k = hashes c k) \<and>
     (\<forall>f. f \<noteq> ''entity_count'' \<longrightarrow> hashes c' metaKey f = hashes c metaKey f)"

lemma upsert_unchanged:
  assumes "redis_ok R v" "entities (v s) eid = Some m"
  shows "upsertScript R key m eid s = (LuaInt 0, s)"
  using assms by (simp add: upsertScript_def redis_laws)

lemma delete_absent:
  assumes "redis_ok R v" "entities (v s) eid = None"
  shows "deleteScript R key eid s = (LuaInt 0, s)"
  using assms by (simp add: deleteScript_def redis_laws)

lemma meta_not_prop: "HasPrefix k ''p:'' \<Longrightarrow> k \<noteq> metaKey"
  by auto

text \<open>The tail of both scripts: append to the changelog, move the counter.\<close>

lemma log_and_count:
  assumes R: "redis_ok R v"
  obtains i where "v (r_xadd R key fs s2) = put_stream key (streams (v s2) key @ [(i, fs)]) (v s2)"
    and "\<And>n c'. v (snd (r_hincrby R metaKey ''entity_count'' n (r_xadd R key fs s2))) = c' \<Longrightarrow>
      (\<forall>k. k \<noteq> metaKey \<longrightarrow> hashes c' k = hashes (v s2) k) \<and>
      (\<forall>f. f \<noteq> ''entity_count'' \<longrightarrow> hashes c' metaKey f = hashes (v s2) metaKey f) \<and>
      rsets c' = rsets (v s2) \<and> zsets c' = zsets (v s2) \<and>
      streams c' = (streams (v s2))(key := streams (v s2) key @ [(i, fs)])"
proof -
  obtain i where i: "v (r_xadd R key fs s2) = put_stream key (streams (v s2) key @ [(i, fs)]) (v s2)"
    using redis_xadd[OF R] .
  show thesis
  proof (rule that[OF i], goal_cases)
    case (1 n c')
    then show ?case
      by (cases rule: redis_hincrby_cases[OF R, of metaKey "''entity_count''" n "r_xadd R key fs s2"])
        (auto simp: i)
  qed
qed

text \<open>What an upsert of well-formed mappings comes down to, and the same for a delete.\<close>

lemma upsert_run:
  assumes R: "redis_ok R v" and c: "index_ok R (v s)" and e: "eid_ok eid" and m: "mappings_ok R m"
    and changed: "entities (v s) eid \<noteq> Some m"
  obtains s2 where "index_ok R (v s2)"
    "same_but_index (put_hash entitiesKey ((entities (v s))(eid := Some m)) (v s)) (v s2)"
    "upsertScript R key m eid s =
       (let s3 = r_xadd R key (change_fields eid m) s2 in
        if entities (v s) eid = None
        then (case r_hincrby R metaKey ''entity_count'' 1 s3 of
                (Some err, s4) \<Rightarrow> (LuaError err, s4)
              | (None, s4) \<Rightarrow> (LuaInt 1, s4))
        else (LuaInt 1, s3))"
proof -
  define s1 where "s1 = r_hset R entitiesKey eid m s"
  have s1: "v s1 = put_hash entitiesKey ((entities (v s))(eid := Some m)) (v s)"
    using R by (simp add: s1_def redis_laws)
  obtain new where new: "r_cjson R m = Some new" "\<forall>e \<in> set new. entry_ok e"
    using m by (rule mappings_okE)
  have "\<exists>old. (\<forall>e \<in> set old. entry_ok e) \<and> entity_keys R (entities (v s) eid) = entry_key ` set old \<and>
     (case entities (v s) eid of None \<Rightarrow> for_each (add_idx R eid) new s1
      | Some om \<Rightarrow> (case r_cjson R om of None \<Rightarrow> (Some ''cannot decode old mappings'', s1)
                      | Some old_parsed \<Rightarrow> diff_index R eid old_parsed new s1))
     = (None, fold (add_key R eid) (map entry_key (filter (\<lambda>e. e \<notin> set old) new))
             (fold (del_key R eid) (map entry_key (filter (\<lambda>e. e \<notin> set new) old)) s1))"
  proof (cases "entities (v s) eid")
    case None
    then show ?thesis using new by (intro exI[of _ "[]"]) (simp add: add_loop)
  next
    case (Some om)
    obtain old where old: "r_cjson R om = Some old" "\<forall>e \<in> set old. entry_ok e"
      using index_okD(2)[OF c Some] by (rule mappings_okE)
    with new have "\<forall>e \<in> set old \<union> set new. entry_ok e" by blast
    then show ?thesis using Some old by (intro exI[of _ old]) (simp add: diff_index_eq)
  qed
  then obtain old where old: "\<forall>e \<in> set old. entry_ok e"
      "entity_keys R (entities (v s) eid) = entry_key ` set old" and
    run: "(case entities (v s) eid of None \<Rightarrow> for_each (add_idx R eid) new s1
      | Some om \<Rightarrow> (case r_cjson R om of None \<Rightarrow> (Some ''cannot decode old mappings'', s1)
                      | Some old_parsed \<Rightarrow> diff_index R eid old_parsed new s1))
     = (None, fold (add_key R eid) (map entry_key (filter (\<lambda>e. e \<notin> set old) new))
             (fold (del_key R eid) (map entry_key (filter (\<lambda>e. e \<notin> set new) old)) s1))"
    by blast
  define s2 where "s2 = fold (add_key R eid) (map entry_key (filter (\<lambda>e. e \<notin> set old) new))
             (fold (del_key R eid) (map entry_key (filter (\<lambda>e. e \<notin> set new) old)) s1)"
  have ok: "\<forall>e \<in> set old \<union> set new. entry_ok e" using old new by blast
  note post = reindex[OF R c e ok old(2) _ _ s1 s2_def, simplified new(1) entity_keys_Some]
  have "upsertScript R key m eid s =
       (let s3 = r_xadd R key (change_fields eid m) s2 in
        if entities (v s) eid = None
        then (case r_hincrby R metaKey ''entity_count'' 1 s3 of
                (Some err, s4) \<Rightarrow> (LuaError err, s4)
              | (None, s4) \<Rightarrow> (LuaInt 1, s4))
        else (LuaInt 1, s3))"
    using R changed run new(1)
    by (simp add: upsertScript_def redis_laws s1_def[symmetric] s2_def[symmetric] change_fields_def)
  with post s1 m new(1) that show thesis by auto
qed

lemma delete_run:
  assumes R: "redis_ok R v" and c: "index_ok R (v s)" and e: "entities (v s) eid = Some m"
  obtains s2 where "index_ok R (v s2)"
    "same_but_index (put_hash entitiesKey ((entities (v s))(eid := None)) (v s)) (v s2)"
    "deleteScript R key eid s =
       (let s3 = r_xadd R key (change_fields eid []) s2 in
        (case r_hincrby R metaKey ''entity_count'' (- 1) s3 of
           (Some err, s4) \<Rightarrow> (LuaError err, s4)
         | (None, s4) \<Rightarrow> (LuaInt 1, s4)))"
proof -
  define s1 where "s1 = r_hdel R entitiesKey eid s"
  have s1: "v s1 = put_hash entitiesKey ((entities (v s))(eid := None)) (v s)"
    using R by (simp add: s1_def redis_laws)
  obtain old where old: "r_cjson R m = Some old" "\<forall>e \<in> set old. entry_ok e"
    using index_okD(2)[OF c e] by (rule mappings_okE)
  define s2 where "s2 = fold (del_key R eid) (map entry_key old) s1"
  have ok: "\<forall>e \<in> set old \<union> set []. entry_ok e" using old by simp
  have keys: "entity_keys R (entities (v s) eid) = entry_key ` set old" using e old by simp
  have s2: "s2 = fold (add_key R eid) (map entry_key (filter (\<lambda>e. e \<notin> set old) []))
             (fold (del_key R eid) (map entry_key (filter (\<lambda>e. e \<notin> set []) old)) s1)"
    by (simp add: s2_def)
  have none: "entity_keys R None = entry_key ` set []" by simp
  note post = reindex[OF R c index_okD(3)[OF c e] ok keys none _ s1 s2]
  have "deleteScript R key eid s =
       (let s3 = r_xadd R key (change_fields eid []) s2 in
        (case r_hincrby R metaKey ''entity_count'' (- 1) s3 of
           (Some err, s4) \<Rightarrow> (LuaError err, s4)
         | (None, s4) \<Rightarrow> (LuaInt 1, s4)))"
    using R e old
    by (simp add: deleteScript_def redis_laws s1_def[symmetric] del_loop s2_def[symmetric] change_fields_def)
  with post s1 that show thesis by auto
qed

text \<open>Appending the change and moving the counter keeps the index and stores the change.\<close>

lemma finish_change:
  assumes R: "redis_ok R v" and i2: "index_ok R (v s2)"
    and f: "same_but_index (put_hash entitiesKey ((entities c)(eid := x)) c) (v s2)"
    and fs: "fs = change_fields eid (case x of None \<Rightarrow> [] | Some m \<Rightarrow> m)"
  obtains i where "stored c key eid x i (v (r_xadd R key fs s2))"
    "index_ok R (v (r_xadd R key fs s2))"
    "hashes (v (r_xadd R key fs s2)) metaKey = hashes c metaKey"
    "\<And>n. stored c key eid x i (v (snd (r_hincrby R metaKey ''entity_count'' n (r_xadd R key fs s2))))"
    "\<And>n. index_ok R (v (snd (r_hincrby R metaKey ''entity_count'' n (r_xadd R key fs s2))))"
proof -
  obtain i where i: "v (r_xadd R key fs s2) = put_stream key (streams (v s2) key @ [(i, fs)]) (v s2)"
    and h: "\<And>n c'. v (snd (r_hincrby R metaKey ''entity_count'' n (r_xadd R key fs s2))) = c' \<Longrightarrow>
      (\<forall>k. k \<noteq> metaKey \<longrightarrow> hashes c' k = hashes (v s2) k) \<and>
      (\<forall>f. f \<noteq> ''entity_count'' \<longrightarrow> hashes c' metaKey f = hashes (v s2) metaKey f) \<and>
      rsets c' = rsets (v s2) \<and> zsets c' = zsets (v s2) \<and>
      streams c' = (streams (v s2))(key := streams (v s2) key @ [(i, fs)])"
    using log_and_count[OF R] by blast
  have s2: "entities (v s2) = (entities c)(eid := x)" "streams (v s2) = streams c"
    "rsets (v s2) = rsets c" "zsets (v s2) = zsets c" "hashes (v s2) metaKey = hashes c metaKey"
    "\<And>k. \<not> HasPrefix k ''p:'' \<Longrightarrow> k \<noteq> entitiesKey \<Longrightarrow> hashes (v s2) k = hashes c k"
    using f by (auto simp: same_but_index_def)
  have add: "stored c key eid x i (v (r_xadd R key fs s2))"
    "hashes (v (r_xadd R key fs s2)) metaKey = hashes c metaKey"
    using s2 unfolding fs by (simp_all add: stored_def i[unfolded fs])
  have addi: "index_ok R (v (r_xadd R key fs s2))"
    using i2 index_ok_cong[of "v (r_xadd R key fs s2)" "v s2" R] by (simp add: i)
  have inc: "stored c key eid x i (v (snd (r_hincrby R metaKey ''entity_count'' n (r_xadd R key fs s2))))" for n
    using h[OF refl, of n] s2 unfolding fs by (auto simp: stored_def)
  have "index_ok R (v (snd (r_hincrby R metaKey ''entity_count'' n (r_xadd R key fs s2)))) = index_ok R (v s2)" for n
  proof (rule index_ok_cong)
    fix k
    assume "HasPrefix k ''p:'' \<or> k = entitiesKey"
    then have "k \<noteq> metaKey" by auto
    then show "hashes (v (snd (r_hincrby R metaKey ''entity_count'' n (r_xadd R key fs s2)))) k = hashes (v s2) k"
      using h[OF refl, of n] by blast
  qed
  with i2 have inci: "index_ok R (v (snd (r_hincrby R metaKey ''entity_count'' n (r_xadd R key fs s2))))" for n
    by simp
  show thesis using that[OF add(1) addi add(2) inc inci] .
qed

theorem upsert_changed:
  assumes R: "redis_ok R v" and c: "index_ok R (v s)" and e: "eid_ok eid" and m: "mappings_ok R m"
    and changed: "entities (v s) eid \<noteq> Some m"
  obtains i where "stored (v s) key eid (Some m) i (v (snd (upsertScript R key m eid s)))"
    "index_ok R (v (snd (upsertScript R key m eid s)))"
proof -
  obtain s2 where i2: "index_ok R (v s2)" and
    f: "same_but_index (put_hash entitiesKey ((entities (v s))(eid := Some m)) (v s)) (v s2)"
    and run: "upsertScript R key m eid s =
       (let s3 = r_xadd R key (change_fields eid m) s2 in
        if entities (v s) eid = None
        then (case r_hincrby R metaKey ''entity_count'' 1 s3 of
                (Some err, s4) \<Rightarrow> (LuaError err, s4)
              | (None, s4) \<Rightarrow> (LuaInt 1, s4))
        else (LuaInt 1, s3))"
    using upsert_run[OF R c e m changed] .
  have two: "snd (upsertScript R key m eid s) \<in> {r_xadd R key (change_fields eid m) s2,
      snd (r_hincrby R metaKey ''entity_count'' 1 (r_xadd R key (change_fields eid m) s2))}"
    unfolding run by (auto simp: Let_def split: prod.splits option.splits)
  show thesis
  proof (rule finish_change[OF R i2 f, where fs = "change_fields eid m" and key = key], goal_cases)
    case 1
    show ?case by simp
  next
    case (2 i)
    with two that[of i] show ?case by auto
  qed
qed

theorem delete_present:
  assumes R: "redis_ok R v" and c: "index_ok R (v s)" and e: "entities (v s) eid = Some m"
  obtains i where "stored (v s) key eid None i (v (snd (deleteScript R key eid s)))"
    "index_ok R (v (snd (deleteScript R key eid s)))"
proof -
  obtain s2 where i2: "index_ok R (v s2)" and
    f: "same_but_index (put_hash entitiesKey ((entities (v s))(eid := None)) (v s)) (v s2)"
    and run: "deleteScript R key eid s =
       (let s3 = r_xadd R key (change_fields eid []) s2 in
        (case r_hincrby R metaKey ''entity_count'' (- 1) s3 of
           (Some err, s4) \<Rightarrow> (LuaError err, s4)
         | (None, s4) \<Rightarrow> (LuaInt 1, s4)))"
    using delete_run[OF R c e] .
  have one: "snd (deleteScript R key eid s) =
      snd (r_hincrby R metaKey ''entity_count'' (- 1) (r_xadd R key (change_fields eid []) s2))"
    unfolding run by (auto simp: Let_def split: prod.splits option.splits)
  show thesis
  proof (rule finish_change[OF R i2 f, where fs = "change_fields eid []" and key = key], goal_cases)
    case 1
    show ?case by simp
  next
    case (2 i)
    with one that[of i] show ?case by auto
  qed
qed

section \<open>Replies and the entity counter\<close>

lemma count_okD:
  assumes "count_ok c"
  shows "finite (dom (entities c))"
    "hash_value (hashes c metaKey ''entity_count'') = Some (int (card (dom (entities c))))"
  using assms by (simp_all add: count_ok_def entity_count_def)

lemma hash_value_FormatInt [simp]: "int64 n \<Longrightarrow> hash_value (Some (FormatInt n)) = Some n"
  by (simp add: hash_value_def parsed_def)

lemma entities_after:
  assumes "redis_ok R v"
    and "same_but_index (put_hash entitiesKey ((entities c)(eid := x)) c) (v s2)"
  shows "entities (v (r_xadd R key fs s2)) = (entities c)(eid := x)"
    and "hashes (v (r_xadd R key fs s2)) metaKey = hashes c metaKey"
proof -
  obtain i where "v (r_xadd R key fs s2) = put_stream key (streams (v s2) key @ [(i, fs)]) (v s2)"
    using redis_xadd[OF assms(1)] .
  with assms(2) show "entities (v (r_xadd R key fs s2)) = (entities c)(eid := x)"
    "hashes (v (r_xadd R key fs s2)) metaKey = hashes c metaKey"
    by (simp_all add: same_but_index_def)
qed

text \<open>The counter moves with the number of entities.\<close>

lemma counter_step:
  assumes R: "redis_ok R v" and cnt: "hash_value (hashes c metaKey ''entity_count'') = Some n"
    and meta: "hashes (v s3) metaKey = hashes c metaKey" and ents: "entities (v s3) = ents"
    and new: "int (card (dom ents)) = n + d" "int64 (n + d)" "finite (dom ents)"
  obtains s4 where "r_hincrby R metaKey ''entity_count'' d s3 = (None, s4)" "count_ok (v s4)"
proof -
  have "hash_value (hashes (v s3) metaKey ''entity_count'') = Some n" using cnt meta by simp
  then obtain s4 where s4: "r_hincrby R metaKey ''entity_count'' d s3 = (None, s4)"
    "v s4 = put_hash metaKey ((hashes (v s3) metaKey)(''entity_count'' := Some (FormatInt (n + d)))) (v s3)"
    using redis_hincrby[OF R _ new(2)] by blast
  then have "entities (v s4) = ents" using ents by simp
  with s4(2) new have "count_ok (v s4)" by (simp add: count_ok_def entity_count_def)
  with s4(1) that show thesis by blast
qed

lemma upsert_counts:
  assumes R: "redis_ok R v" and c: "index_ok R (v s)" and e: "eid_ok eid" and m: "mappings_ok R m"
    and n: "count_ok (v s)" and room: "int (card (dom (entities (v s)))) + 1 < 2 ^ 63"
  shows "fst (upsertScript R key m eid s) = LuaInt (if entities (v s) eid = Some m then 0 else 1)"
    and "count_ok (v (snd (upsertScript R key m eid s)))"
proof -
  have "fst (upsertScript R key m eid s) = LuaInt (if entities (v s) eid = Some m then 0 else 1) \<and>
    count_ok (v (snd (upsertScript R key m eid s)))"
  proof (cases "entities (v s) eid = Some m")
    case True
    with R n show ?thesis by (simp add: upsert_unchanged)
  next
    case False
    obtain s2 where
      f: "same_but_index (put_hash entitiesKey ((entities (v s))(eid := Some m)) (v s)) (v s2)"
      and run: "upsertScript R key m eid s =
         (let s3 = r_xadd R key (change_fields eid m) s2 in
          if entities (v s) eid = None
          then (case r_hincrby R metaKey ''entity_count'' 1 s3 of
                  (Some err, s4) \<Rightarrow> (LuaError err, s4)
                | (None, s4) \<Rightarrow> (LuaInt 1, s4))
          else (LuaInt 1, s3))"
      using upsert_run[OF R c e m False] .
    note s3 = entities_after[OF R f, of key "change_fields eid m"]
    show ?thesis
    proof (cases "entities (v s) eid")
      case None
      then have card: "card (dom ((entities (v s))(eid := Some m))) = Suc (card (dom (entities (v s))))"
        using count_okD(1)[OF n] by (auto simp: domIff)
      then have new: "int (card (dom ((entities (v s))(eid := Some m)))) = int (card (dom (entities (v s)))) + 1"
        "int64 (int (card (dom (entities (v s)))) + 1)" "finite (dom ((entities (v s))(eid := Some m)))"
        using room count_okD(1)[OF n] by (simp_all add: int64_def del: fun_upd_apply)
      obtain s4 where
        "r_hincrby R metaKey ''entity_count'' 1 (r_xadd R key (change_fields eid m) s2) = (None, s4)"
        "count_ok (v s4)"
        by (rule counter_step[OF R count_okD(2)[OF n] s3(2,1) new])
      with run None False show ?thesis by (simp add: Let_def)
    next
      case (Some om)
      then have "dom ((entities (v s))(eid := Some m)) = dom (entities (v s))" by auto
      with s3 n have "count_ok (v (r_xadd R key (change_fields eid m) s2))"
        by (simp add: count_ok_def entity_count_def)
      with run Some False show ?thesis by (simp add: Let_def)
    qed
  qed
  then show "fst (upsertScript R key m eid s) = LuaInt (if entities (v s) eid = Some m then 0 else 1)"
    "count_ok (v (snd (upsertScript R key m eid s)))" by blast+
qed

lemma delete_counts:
  assumes R: "redis_ok R v" and c: "index_ok R (v s)" and n: "count_ok (v s)"
  shows "fst (deleteScript R key eid s) = LuaInt (if entities (v s) eid = None then 0 else 1)"
    and "count_ok (v (snd (deleteScript R key eid s)))"
proof -
  have "fst (deleteScript R key eid s) = LuaInt (if entities (v s) eid = None then 0 else 1) \<and>
    count_ok (v (snd (deleteScript R key eid s)))"
  proof (cases "entities (v s) eid")
    case None
    with R n show ?thesis by (simp add: delete_absent)
  next
    case (Some m)
    obtain s2 where
      f: "same_but_index (put_hash entitiesKey ((entities (v s))(eid := None)) (v s)) (v s2)"
      and run: "deleteScript R key eid s =
         (let s3 = r_xadd R key (change_fields eid []) s2 in
          (case r_hincrby R metaKey ''entity_count'' (- 1) s3 of
             (Some err, s4) \<Rightarrow> (LuaError err, s4)
           | (None, s4) \<Rightarrow> (LuaInt 1, s4)))"
      using delete_run[OF R c Some] .
    note s3 = entities_after[OF R f, of key "change_fields eid []"]
    have fin: "finite (dom (entities (v s)))" by (rule count_okD(1)[OF n])
    have eid: "eid \<in> dom (entities (v s))" using Some by blast
    have "dom ((entities (v s))(eid := None)) = dom (entities (v s)) - {eid}" by auto
    then have "card (dom (entities (v s))) = Suc (card (dom ((entities (v s))(eid := None))))"
      using card_Suc_Diff1[OF fin eid] by (simp only:)
    then have new: "int (card (dom ((entities (v s))(eid := None)))) = int (card (dom (entities (v s)))) + - 1"
      "int64 (int (card (dom (entities (v s)))) + - 1)" "finite (dom ((entities (v s))(eid := None)))"
      using n fin by (auto simp: count_ok_def int64_def)
    obtain s4 where
      "r_hincrby R metaKey ''entity_count'' (- 1) (r_xadd R key (change_fields eid []) s2) = (None, s4)"
      "count_ok (v s4)"
      by (rule counter_step[OF R count_okD(2)[OF n] s3(2,1) new])
    with run Some show ?thesis by (simp add: Let_def)
  qed
  then show "fst (deleteScript R key eid s) = LuaInt (if entities (v s) eid = None then 0 else 1)"
    "count_ok (v (snd (deleteScript R key eid s)))" by blast+
qed

end
