(* ===== verification/Json.thy ===== *)
theory Json
  imports GoStd
begin

text \<open>
  The JSON text of a list of strings: Go's \<open>json.Marshal\<close> of a \<open>[]string\<close>, byte for byte
  (\<open>encoding/json\<close> escapes the quote, the backslash, control characters, \<open>< > &\<close>, the two
  Unicode line separators, and replaces bytes that are not UTF-8), and a decoder for such texts.
  The program stores the encoder's output and compares it as a string; the server's decoder is a
  parameter of the model, for which the decoder here is one instance. The result is that decoding
  undoes encoding for lists of UTF-8 strings, so that encoding is injective.
\<close>

section \<open>UTF-8\<close>

definition byte_at :: "string \<Rightarrow> nat \<Rightarrow> nat" where
  "byte_at s i = (if i < length s then of_char (s ! i) else 0)"

definition cont_byte :: "nat \<Rightarrow> bool" where
  "cont_byte b \<longleftrightarrow> 128 \<le> b \<and> b \<le> 191"

text \<open>The length of the encoding at the start of a text, 0 if there is none (\<open>DecodeRuneInString\<close>).\<close>

definition rune_len :: "string \<Rightarrow> nat" where
  "rune_len s =
     (let a = byte_at s 0; b = byte_at s 1; c = byte_at s 2; d = byte_at s 3 in
      if s = [] then 0
      else if a < 128 then 1
      else if 194 \<le> a \<and> a \<le> 223 \<and> cont_byte b then 2
      else if a = 224 \<and> 160 \<le> b \<and> b \<le> 191 \<and> cont_byte c then 3
      else if 225 \<le> a \<and> a \<le> 239 \<and> a \<noteq> 237 \<and> cont_byte b \<and> cont_byte c then 3
      else if a = 237 \<and> 128 \<le> b \<and> b \<le> 159 \<and> cont_byte c then 3
      else if a = 240 \<and> 144 \<le> b \<and> b \<le> 191 \<and> cont_byte c \<and> cont_byte d then 4
      else if 241 \<le> a \<and> a \<le> 243 \<and> cont_byte b \<and> cont_byte c \<and> cont_byte d then 4
      else if a = 244 \<and> 128 \<le> b \<and> b \<le> 143 \<and> cont_byte c \<and> cont_byte d then 4
      else 0)"

function utf8_ok :: "string \<Rightarrow> bool" where
  "utf8_ok s =
     (if s = [] then True
      else if rune_len s = 0 then False
      else utf8_ok (drop (rune_len s) s))"
  by pat_completeness auto
termination
  by (relation "measure length") auto

declare utf8_ok.simps [simp del]

definition ascii :: "string \<Rightarrow> bool" where
  "ascii s \<longleftrightarrow> list_all (\<lambda>c. (of_char c :: nat) < 128) s"

lemma utf8_ok_ascii: "ascii s \<Longrightarrow> utf8_ok s"
proof (induction s)
  case Nil
  then show ?case by (simp add: utf8_ok.simps)
next
  case (Cons c s)
  then have "rune_len (c # s) = 1" by (simp add: ascii_def rune_len_def byte_at_def Let_def)
  with Cons show ?case by (simp add: utf8_ok.simps[of "c # s"] ascii_def)
qed

section \<open>Encoding\<close>

definition hex_digit :: "nat \<Rightarrow> char" where
  "hex_digit d = (if d < 10 then char_of (48 + d) else char_of (87 + d))"

definition escape_ascii :: "char \<Rightarrow> string" where
  "escape_ascii c =
     (let k = of_char c :: nat in
      if c = CHR 0x22 \<or> c = CHR 0x5C then [CHR 0x5C, c]
      else if k = 8 then [CHR 0x5C, CHR ''b'']
      else if k = 12 then [CHR 0x5C, CHR ''f'']
      else if k = 10 then [CHR 0x5C, CHR ''n'']
      else if k = 13 then [CHR 0x5C, CHR ''r'']
      else if k = 9 then [CHR 0x5C, CHR ''t'']
      else if k < 32 \<or> c = CHR ''<'' \<or> c = CHR ''>'' \<or> c = CHR ''&''
      then [CHR 0x5C, CHR ''u'', CHR ''0'', CHR ''0'', hex_digit (k div 16), hex_digit (k mod 16)]
      else [c])"

text \<open>One step of \<open>appendString\<close>: what is written for the start of a text, and how much it covers.\<close>

definition escape_step :: "string \<Rightarrow> string \<times> nat" where
  "escape_step s =
     (if byte_at s 0 < 128 then (escape_ascii (hd s), 1)
      else let n = rune_len s in
        if n = 0 then (CHR 0x5C # ''ufffd'', 1)
        else if take n s = [CHR 0xE2, CHR 0x80, CHR 0xA8] then (CHR 0x5C # ''u2028'', n)
        else if take n s = [CHR 0xE2, CHR 0x80, CHR 0xA9] then (CHR 0x5C # ''u2029'', n)
        else (take n s, n))"

lemma escape_step_pos: "0 < snd (escape_step s)"
  by (simp add: escape_step_def Let_def)

function json_escape :: "string \<Rightarrow> string" where
  "json_escape s =
     (if s = [] then []
      else fst (escape_step s) @ json_escape (drop (snd (escape_step s)) s))"
  by pat_completeness auto
termination
  by (relation "measure length") (auto simp: escape_step_pos)

declare json_escape.simps [simp del]

definition json_string :: "string \<Rightarrow> string" where
  "json_string s = CHR 0x22 # json_escape s @ [CHR 0x22]"

text \<open>\<open>json.Marshal\<close> of a slice of strings that is not nil.\<close>

definition json_strings :: "string list \<Rightarrow> string" where
  "json_strings xs = ''['' @ Join (map json_string xs) '','' @ '']''"

section \<open>Decoding\<close>

definition hex_val :: "char \<Rightarrow> nat option" where
  "hex_val c =
     (let k = of_char c :: nat in
      if 48 \<le> k \<and> k \<le> 57 then Some (k - 48)
      else if 97 \<le> k \<and> k \<le> 102 then Some (k - 87)
      else if 65 \<le> k \<and> k \<le> 70 then Some (k - 55)
      else None)"

definition utf8_encode :: "nat \<Rightarrow> string" where
  "utf8_encode k =
     (if k < 128 then [char_of k]
      else if k < 2048 then [char_of (192 + k div 64), char_of (128 + k mod 64)]
      else [char_of (224 + k div 4096), char_of (128 + k div 64 mod 64), char_of (128 + k mod 64)])"

definition unescape_char :: "char \<Rightarrow> char option" where
  "unescape_char c =
     (if c = CHR 0x22 \<or> c = CHR 0x5C \<or> c = CHR ''/'' then Some c
      else if c = CHR ''b'' then Some (char_of (8::nat))
      else if c = CHR ''f'' then Some (char_of (12::nat))
      else if c = CHR ''n'' then Some (char_of (10::nat))
      else if c = CHR ''r'' then Some (char_of (13::nat))
      else if c = CHR ''t'' then Some (char_of (9::nat))
      else None)"

definition hex4 :: "string \<Rightarrow> nat option" where
  "hex4 s = (case map hex_val s of
     [Some a, Some b, Some c, Some d] \<Rightarrow> Some (4096 * a + 256 * b + 16 * c + d)
   | _ \<Rightarrow> None)"

text \<open>Reads a string up to its closing quote; surrogate escapes are not needed here.\<close>

definition put_front :: "string \<Rightarrow> (string \<times> string) option \<Rightarrow> (string \<times> string) option" where
  "put_front a r = map_option (\<lambda>(x, rest). (a @ x, rest)) r"

function dec_string :: "string \<Rightarrow> (string \<times> string) option" where
  "dec_string s =
     (if s = [] then None
      else if hd s = CHR 0x22 then Some ([], tl s)
      else if hd s = CHR 0x5C then
        (if take 1 (drop 1 s) = ''u'' then
           (case hex4 (take 4 (drop 2 s)) of
              None \<Rightarrow> None
            | Some k \<Rightarrow> put_front (utf8_encode k) (dec_string (drop 6 s)))
         else
           (case drop 1 s of
              [] \<Rightarrow> None
            | c # _ \<Rightarrow>
                (case unescape_char c of
                   None \<Rightarrow> None
                 | Some x \<Rightarrow> put_front [x] (dec_string (drop 2 s)))))
      else if (of_char (hd s) :: nat) < 32 then None
      else put_front [hd s] (dec_string (tl s)))"
  by pat_completeness auto
termination
  by (relation "measure length") auto

declare dec_string.simps [simp del]

fun dec_items :: "nat \<Rightarrow> string \<Rightarrow> string list option" where
  "dec_items 0 s = None"
| "dec_items (Suc n) s =
     (if take 1 s \<noteq> [CHR 0x22] then None
      else (case dec_string (drop 1 s) of
              None \<Rightarrow> None
            | Some (x, rest) \<Rightarrow>
                if rest = '']'' then Some [x]
                else if take 1 rest = '','' then map_option (\<lambda>xs. x # xs) (dec_items n (drop 1 rest))
                else None))"

definition dec_strings :: "string \<Rightarrow> string list option" where
  "dec_strings s =
     (if s = ''[]'' then Some []
      else if take 1 s = ''['' then dec_items (length s) (drop 1 s)
      else None)"

section \<open>Round trip\<close>

lemma put_front_Some [simp]: "put_front a (Some (x, r)) = Some (a @ x, r)"
  by (simp add: put_front_def)

definition plain_char :: "char \<Rightarrow> bool" where
  "plain_char c \<longleftrightarrow> c \<noteq> CHR 0x22 \<and> c \<noteq> CHR 0x5C \<and> \<not> (of_char c :: nat) < 32"

lemma dec_plain: "plain_char c \<Longrightarrow> dec_string (c # s) = put_front [c] (dec_string s)"
  by (subst dec_string.simps) (simp add: plain_char_def)

lemma dec_plains:
  "\<forall>c \<in> set a. plain_char c \<Longrightarrow> dec_string s = Some (x, r) \<Longrightarrow> dec_string (a @ s) = Some (a @ x, r)"
  by (induction a) (auto simp: dec_plain)

lemma dec_quote [simp]: "dec_string (CHR 0x22 # s) = Some ([], s)"
  by (subst dec_string.simps) simp

lemma dec_escape:
  assumes "c \<noteq> CHR ''u''" "unescape_char c = Some y"
  shows "dec_string (CHR 0x5C # c # s) = put_front [y] (dec_string s)"
  using assms by (subst dec_string.simps) simp

lemma dec_unicode:
  assumes "hex4 [a, b, c, d] = Some k"
  shows "dec_string (CHR 0x5C # CHR ''u'' # a # b # c # d # s) = put_front (utf8_encode k) (dec_string s)"
  using assms by (subst dec_string.simps) (simp add: numeral_eq_Suc)

lemma hex_val_digit: "d < 16 \<Longrightarrow> hex_val (hex_digit d) = Some d"
  by (auto simp: hex_val_def hex_digit_def Let_def)

lemma dec_escape_ascii:
  assumes "dec_string s = Some (x, r)" and "(of_char c :: nat) < 128"
  shows "dec_string (escape_ascii c @ s) = Some (c # x, r)"
proof -
  let ?k = "of_char c :: nat"
  have c: "char_of ?k = c" by simp
  have div: "?k div 16 < 16" using assms(2) by simp
  have h: "hex4 [CHR ''0'', CHR ''0'', hex_digit (?k div 16), hex_digit (?k mod 16)] = Some ?k"
  proof -
    have "hex_val CHR ''0'' = Some 0" by (simp add: hex_val_def)
    moreover have "16 * (?k div 16) + ?k mod 16 = ?k" by simp
    ultimately show ?thesis using div by (simp add: hex4_def hex_val_digit)
  qed
  have u: "utf8_encode ?k = [c]" using assms(2) c by (simp add: utf8_encode_def)
  consider (quoted) "c = CHR 0x22 \<or> c = CHR 0x5C" | (b) "?k = 8" | (f) "?k = 12" | (n) "?k = 10"
    | (r) "?k = 13" | (t) "?k = 9"
    | (hex) "escape_ascii c = [CHR 0x5C, CHR ''u'', CHR ''0'', CHR ''0'', hex_digit (?k div 16), hex_digit (?k mod 16)]"
    | (plain) "escape_ascii c = [c]" "plain_char c"
    unfolding escape_ascii_def plain_char_def Let_def
    by (cases "c = CHR 0x22 \<or> c = CHR 0x5C"; cases "?k = 8 \<or> ?k = 12 \<or> ?k = 10 \<or> ?k = 13 \<or> ?k = 9";
        cases "?k < 32 \<or> c = CHR ''<'' \<or> c = CHR ''>'' \<or> c = CHR ''&''") auto
  then show ?thesis
  proof cases
    case quoted
    then show ?thesis using assms(1) by (auto simp: escape_ascii_def Let_def dec_escape unescape_char_def)
  next
    case hex
    then show ?thesis using assms(1) dec_unicode[OF h, of s] u by simp
  next
    case plain
    then show ?thesis using assms(1) by (simp add: dec_plain)
  next
    case b
    then have e: "escape_ascii c = [CHR 0x5C, CHR ''b'']" by (auto simp: escape_ascii_def Let_def)
    have "char_of (8::nat) = c" using b c by metis
    then have "unescape_char CHR ''b'' = Some c" by (simp add: unescape_char_def)
    with assms(1) show ?thesis unfolding e by (simp add: dec_escape)
  next
    case f
    then have e: "escape_ascii c = [CHR 0x5C, CHR ''f'']" by (auto simp: escape_ascii_def Let_def)
    have "char_of (12::nat) = c" using f c by metis
    then have "unescape_char CHR ''f'' = Some c" by (simp add: unescape_char_def)
    with assms(1) show ?thesis unfolding e by (simp add: dec_escape)
  next
    case n
    then have e: "escape_ascii c = [CHR 0x5C, CHR ''n'']" by (auto simp: escape_ascii_def Let_def)
    have "char_of (10::nat) = c" using n c by metis
    then have "unescape_char CHR ''n'' = Some c" by (simp add: unescape_char_def)
    with assms(1) show ?thesis unfolding e by (simp add: dec_escape)
  next
    case r
    then have e: "escape_ascii c = [CHR 0x5C, CHR ''r'']" by (auto simp: escape_ascii_def Let_def)
    have "char_of (13::nat) = c" using r c by metis
    then have "unescape_char CHR ''r'' = Some c" by (simp add: unescape_char_def)
    with assms(1) show ?thesis unfolding e by (simp add: dec_escape)
  next
    case t
    then have e: "escape_ascii c = [CHR 0x5C, CHR ''t'']" by (auto simp: escape_ascii_def Let_def)
    have "char_of (9::nat) = c" using t c by metis
    then have "unescape_char CHR ''t'' = Some c" by (simp add: unescape_char_def)
    with assms(1) show ?thesis unfolding e by (simp add: dec_escape)
  qed
qed

lemma rune_bytes:
  assumes "rune_len s = n" "\<not> byte_at s 0 < 128" "n \<noteq> 0" "c \<in> set (take n s)"
  shows "128 \<le> (of_char c :: nat)"
proof -
  obtain i where i: "i < n" "i < length s" "c = s ! i"
    using assms(4) by (auto simp: in_set_conv_nth)
  have "128 \<le> byte_at s i"
  proof -
    have "n = 2 \<and> cont_byte (byte_at s 1) \<or>
      n = 3 \<and> 128 \<le> byte_at s 1 \<and> cont_byte (byte_at s 2) \<or>
      n = 4 \<and> 128 \<le> byte_at s 1 \<and> cont_byte (byte_at s 2) \<and> cont_byte (byte_at s 3)"
      using assms(1-3) by (auto simp: rune_len_def Let_def cont_byte_def split: if_splits)
    moreover have "i = 0 \<or> i = 1 \<or> i = 2 \<or> i = 3 \<and> n = 4"
      using i(1) calculation by auto
    ultimately show ?thesis using assms(2) i(1) by (auto simp: cont_byte_def)
  qed
  with i show ?thesis by (simp add: byte_at_def)
qed

lemma rune_plain:
  assumes "rune_len s = n" "\<not> byte_at s 0 < 128" "n \<noteq> 0" "c \<in> set (take n s)"
  shows "plain_char c"
proof -
  have "128 \<le> (of_char c :: nat)" by (rule rune_bytes[OF assms])
  moreover have "(of_char CHR 0x22 :: nat) < 128" "(of_char CHR 0x5C :: nat) < 128" by simp_all
  ultimately show ?thesis by (auto simp: plain_char_def)
qed

lemma char_of_eqI: "(of_char c :: nat) = n \<Longrightarrow> char_of n = c"
  by auto

lemma utf8_encode_separators:
  "utf8_encode 8232 = [CHR 0xE2, CHR 0x80, CHR 0xA8]"
  "utf8_encode 8233 = [CHR 0xE2, CHR 0x80, CHR 0xA9]"
  by (simp_all add: utf8_encode_def char_of_eqI)

text \<open>Decoding one step's output gives the bytes the step covers.\<close>

lemma dec_escape_step:
  assumes s: "s \<noteq> []" "rune_len s \<noteq> 0" and t: "dec_string t = Some (x, r)"
  shows "dec_string (fst (escape_step s) @ t) = Some (take (snd (escape_step s)) s @ x, r)"
    and "snd (escape_step s) = rune_len s"
proof -
  have "dec_string (fst (escape_step s) @ t) = Some (take (snd (escape_step s)) s @ x, r) \<and>
    snd (escape_step s) = rune_len s"
  proof (cases "byte_at s 0 < 128")
    case True
    obtain c cs where c: "s = c # cs" using s(1) by (cases s) auto
    with True have "(of_char c :: nat) < 128" by (simp add: byte_at_def)
    with c True t show ?thesis by (simp add: escape_step_def dec_escape_ascii rune_len_def)
  next
    case False
    let ?n = "rune_len s"
    have plain: "\<forall>c \<in> set (take ?n s). plain_char c"
      using rune_plain[OF refl False s(2)] by blast
    have "hex4 ''2028'' = Some 8232" "hex4 ''2029'' = Some 8233" by (simp_all add: hex4_def hex_val_def)
    then have "dec_string ((CHR 0x5C # ''u2028'') @ t) = Some ([CHR 0xE2, CHR 0x80, CHR 0xA8] @ x, r)"
      "dec_string ((CHR 0x5C # ''u2029'') @ t) = Some ([CHR 0xE2, CHR 0x80, CHR 0xA9] @ x, r)"
      using dec_unicode[of "CHR ''2''" "CHR ''0''" "CHR ''2''" "CHR ''8''" 8232 t]
        dec_unicode[of "CHR ''2''" "CHR ''0''" "CHR ''2''" "CHR ''9''" 8233 t] t
      by (simp_all add: utf8_encode_separators)
    with False s(2) dec_plains[OF plain t] show ?thesis by (auto simp: escape_step_def Let_def)
  qed
  then show "dec_string (fst (escape_step s) @ t) = Some (take (snd (escape_step s)) s @ x, r)"
    "snd (escape_step s) = rune_len s" by blast+
qed

lemma dec_json_escape:
  "utf8_ok s \<Longrightarrow> dec_string (json_escape s @ CHR 0x22 # r) = Some (s, r)"
proof (induction s rule: json_escape.induct)
  case (1 s)
  show ?case
  proof (cases "s = []")
    case True
    then show ?thesis by (simp add: json_escape.simps)
  next
    case False
    with 1(2) have u: "rune_len s \<noteq> 0" "utf8_ok (drop (rune_len s) s)"
      by (simp_all add: utf8_ok.simps[of s] split: if_splits)
    have n: "snd (escape_step s) = rune_len s"
      using dec_escape_step(2)[OF False u(1) dec_quote] .
    with 1(1)[OF False] u have
      "dec_string (json_escape (drop (snd (escape_step s)) s) @ CHR 0x22 # r)
        = Some (drop (snd (escape_step s)) s, r)" by simp
    from dec_escape_step(1)[OF False u(1) this] show ?thesis
      by (simp add: json_escape.simps[of s] False)
  qed
qed

lemma json_string_dec:
  "utf8_ok x \<Longrightarrow> dec_string (json_escape x @ CHR 0x22 # r) = Some (x, r)"
  by (rule dec_json_escape)

lemma dec_items_Join:
  assumes "xs \<noteq> []" "\<forall>x \<in> set xs. utf8_ok x" "length xs \<le> n"
  shows "dec_items n (Join (map json_string xs) '','' @ '']'') = Some xs"
  using assms
proof (induction xs arbitrary: n)
  case Nil
  then show ?case by simp
next
  case (Cons x xs)
  then obtain m where n: "n = Suc m" by (cases n) auto
  show ?case
  proof (cases xs)
    case Nil
    with Cons.prems n show ?thesis by (simp add: json_string_def dec_json_escape)
  next
    case (Cons y ys)
    with Cons.IH[of m] Cons.prems n have "dec_items m (Join (map json_string xs) '','' @ '']'') = Some xs"
      by simp
    moreover have "Join (map json_string (x # xs)) '','' @ '']'' =
        CHR 0x22 # json_escape x @ CHR 0x22 # CHR '','' # Join (map json_string xs) '','' @ '']''"
      using Cons by (simp add: json_string_def[of x])
    ultimately show ?thesis using Cons.prems n by (simp add: dec_json_escape)
  qed
qed

lemma length_json_string: "0 < length (json_string x)"
  by (simp add: json_string_def)

lemma length_Join: "length xs \<le> length (Join (map json_string xs) '','')"
proof (induction xs)
  case Nil
  then show ?case by simp
next
  case (Cons x xs)
  with length_json_string[of x] show ?case by (cases xs) (auto simp: Suc_le_eq)
qed

theorem dec_json_strings:
  assumes "\<forall>x \<in> set xs. utf8_ok x"
  shows "dec_strings (json_strings xs) = Some xs"
proof (cases "xs = []")
  case True
  then show ?thesis by (simp add: dec_strings_def json_strings_def)
next
  case False
  then obtain y ys where xs: "xs = y # ys" by (cases xs) auto
  have len: "length xs \<le> length (json_strings xs)"
    using length_Join[of xs] by (simp add: json_strings_def)
  have "json_strings xs \<noteq> ''[]''"
    using xs by (cases ys) (auto simp: json_strings_def json_string_def)
  with dec_items_Join[OF False assms len] show ?thesis
    by (simp add: dec_strings_def json_strings_def)
qed

lemma json_strings_nonempty [simp]: "json_strings xs \<noteq> []"
  by (simp add: json_strings_def)

end
