(* ===== verification/Pipe.thy ===== *)
theory Pipe
  imports Entities Json
begin

text \<open>
  \<open>Pipe\<close> of \<open>internal/store/writer.go\<close>: operations are queued with a sticky error and sent in
  one round trip by \<open>Exec\<close>. The server runs the queued commands one after the other, whatever
  their replies; nothing groups them into a transaction. A connection that breaks is described
  by the caller: \<open>attempts\<close> lists how many commands each broken attempt got through before
  the client sent everything again, and \<open>lost\<close> says that the last attempt broke, too.

  \<open>cmd_spec\<close> is what each command means for an abstract store (entities, changelog, sync
  state, work queue); \<open>exec_cmd\<close> implements it (\<open>exec_cmd_refines\<close>), and so does every
  \<open>Exec\<close>, broken or not.
\<close>

section \<open>Records and encodings\<close>

record EntityRecord =
  er_WikidataID :: string
  er_Mappings :: "string list"

record RawEntityRecord =
  rr_WikidataID :: string
  rr_RawMappings :: string

definition canonicalMappingsJSON :: "string list \<Rightarrow> string" where
  "canonicalMappingsJSON entries = (if entries = [] then ''[]'' else json_strings entries)"

definition failKey :: "int \<Rightarrow> string" where
  "failKey ident = ''failed:'' @ FormatInt ident"

section \<open>Queued commands\<close>

datatype cmd =
    RunUpsert string string
  | RunDelete string
  | RunRecordFailed string string string string string int
  | HSet string string string
  | HDel string "string list"
  | SAdd string "string list"
  | SRem string "string list"
  | ZRem string string
  | Del string

definition script_result :: "lua_reply \<times> 's \<Rightarrow> store_error option \<times> 's" where
  "script_result r = (case r of (LuaInt _, s) \<Rightarrow> (None, s) | (LuaError e, s) \<Rightarrow> (Some (ScriptError e), s))"

definition wrong_arity :: store_error where
  "wrong_arity = ScriptError ''ERR wrong number of arguments''"

fun exec_cmd :: "'s redis \<Rightarrow> cmd \<Rightarrow> 's \<Rightarrow> store_error option \<times> 's" where
  "exec_cmd R (RunUpsert m eid) s = script_result (upsertScript R changelogKey m eid s)"
| "exec_cmd R (RunDelete eid) s = script_result (deleteScript R changelogKey eid s)"
| "exec_cmd R (RunRecordFailed zkey fkey ident errMsg now score) s =
     script_result (recordFailedScript R zkey fkey ident errMsg now score s)"
| "exec_cmd R (HSet k f x) s = (None, r_hset R k f x s)"
| "exec_cmd R (HDel k fs) s =
     (if fs = [] then (Some wrong_arity, s) else (None, fold (r_hdel R k) fs s))"
| "exec_cmd R (SAdd k ms) s =
     (if ms = [] then (Some wrong_arity, s) else (None, fold (r_sadd R k) ms s))"
| "exec_cmd R (SRem k ms) s =
     (if ms = [] then (Some wrong_arity, s) else (None, fold (r_srem R k) ms s))"
| "exec_cmd R (ZRem k m) s = (None, r_zrem R k m s)"
| "exec_cmd R (Del k) s = (None, r_del R k s)"

fun run_cmds :: "'s redis \<Rightarrow> cmd list \<Rightarrow> 's \<Rightarrow> store_error option list \<times> 's" where
  "run_cmds R [] s = ([], s)"
| "run_cmds R (c # cs) s =
     (let (e, s1) = exec_cmd R c s; (es, s2) = run_cmds R cs s1 in (e # es, s2))"

section \<open>The writer and its pipes\<close>

record Writer =
  scriptsLoaded :: bool

record Pipe =
  p_err :: "store_error option"
  p_cmds :: "cmd list"

text \<open>\<open>loads\<close> are the outcomes of the calls that load the three scripts.\<close>

definition loadScripts :: "bool list \<Rightarrow> Writer \<Rightarrow> store_error option \<times> Writer" where
  "loadScripts loads w =
     (if scriptsLoaded w then (None, w)
      else if False \<in> set (take 3 loads) then (Some (LoadScripts ''load lua script''), w)
      else (None, w\<lparr>scriptsLoaded := True\<rparr>))"

definition NewPipe :: "bool list \<Rightarrow> Writer \<Rightarrow> Pipe \<times> Writer" where
  "NewPipe loads w =
     (case loadScripts loads w of (err, w') \<Rightarrow> (\<lparr>p_err = err, p_cmds = []\<rparr>, w'))"

definition queue :: "cmd \<Rightarrow> Pipe \<Rightarrow> Pipe" where
  "queue c p = p\<lparr>p_cmds := p_cmds p @ [c]\<rparr>"

definition fail :: "store_error \<Rightarrow> Pipe \<Rightarrow> Pipe" where
  "fail e p = p\<lparr>p_err := Some e\<rparr>"

definition UpsertRawEntity :: "RawEntityRecord \<Rightarrow> Pipe \<Rightarrow> Pipe" where
  "UpsertRawEntity rec p =
     (if p_err p \<noteq> None then p
      else (case qidToInt (rr_WikidataID rec) of
              Inl e \<Rightarrow> fail (ConvertQID (rr_WikidataID rec) e) p
            | Inr ident \<Rightarrow>
                if rr_RawMappings rec = [] then fail (RawMappingsEmpty (rr_WikidataID rec)) p
                else queue (RunUpsert (rr_RawMappings rec) (FormatInt ident)) p))"

fun check_mappings :: "string \<Rightarrow> string list \<Rightarrow> store_error option" where
  "check_mappings qid [] = None"
| "check_mappings qid (entry # es) =
     (case parseFlatMappingEntry entry of
        Inl err \<Rightarrow> Some (InvalidMapping qid entry err)
      | Inr _ \<Rightarrow> check_mappings qid es)"

definition UpsertEntity :: "EntityRecord \<Rightarrow> Pipe \<Rightarrow> Pipe" where
  "UpsertEntity rec p =
     (if p_err p \<noteq> None then p
      else (case qidToInt (er_WikidataID rec) of
              Inl e \<Rightarrow> fail (ConvertQID (er_WikidataID rec) e) p
            | Inr ident \<Rightarrow>
                (case check_mappings (er_WikidataID rec) (er_Mappings rec) of
                   Some e \<Rightarrow> fail e p
                 | None \<Rightarrow>
                     queue (RunUpsert (canonicalMappingsJSON (er_Mappings rec)) (FormatInt ident)) p)))"

definition DeleteEntity :: "string \<Rightarrow> Pipe \<Rightarrow> Pipe" where
  "DeleteEntity qid p =
     (if p_err p \<noteq> None then p
      else (case qidToInt qid of
              Inl e \<Rightarrow> fail e p
            | Inr ident \<Rightarrow> queue (RunDelete (FormatInt ident)) p))"

definition SetSyncState :: "string \<Rightarrow> string \<Rightarrow> Pipe \<Rightarrow> Pipe" where
  "SetSyncState key val p = (if p_err p \<noteq> None then p else queue (HSet metaKey key val) p)"

definition DelSyncStates :: "string list \<Rightarrow> Pipe \<Rightarrow> Pipe" where
  "DelSyncStates keys p = (if p_err p \<noteq> None then p else queue (HDel metaKey keys) p)"

fun qid_members :: "string list \<Rightarrow> store_error + string list" where
  "qid_members [] = Inr []"
| "qid_members (qid # qids) =
     (case qidToInt qid of
        Inl e \<Rightarrow> Inl e
      | Inr ident \<Rightarrow>
          (case qid_members qids of
             Inl e \<Rightarrow> Inl e
           | Inr ms \<Rightarrow> Inr (FormatInt ident # ms)))"

definition EnqueueEntities :: "string list \<Rightarrow> Pipe \<Rightarrow> Pipe" where
  "EnqueueEntities qids p =
     (if p_err p \<noteq> None then p
      else if qids = [] then p
      else (case qid_members qids of
              Inl e \<Rightarrow> fail e p
            | Inr ms \<Rightarrow> queue (SAdd pendingKey ms) p))"

definition AckProcessedEntities :: "string list \<Rightarrow> Pipe \<Rightarrow> Pipe" where
  "AckProcessedEntities qids p =
     (if p_err p \<noteq> None then p
      else if qids = [] then p
      else (case qid_members qids of
              Inl e \<Rightarrow> fail e p
            | Inr ms \<Rightarrow> queue (SRem processingKey ms) p))"

definition RecordFailedEntity :: "string \<Rightarrow> int \<Rightarrow> string \<Rightarrow> string \<Rightarrow> Pipe \<Rightarrow> Pipe" where
  "RecordFailedEntity now micros wikidataID errMsg p =
     (if p_err p \<noteq> None then p
      else (case qidToInt wikidataID of
              Inl e \<Rightarrow> fail e p
            | Inr ident \<Rightarrow>
                queue (RunRecordFailed failedZsetKey (failKey ident) (FormatInt ident) errMsg now micros) p))"

definition DeleteFailedEntity :: "string \<Rightarrow> Pipe \<Rightarrow> Pipe" where
  "DeleteFailedEntity wikidataID p =
     (if p_err p \<noteq> None then p
      else (case qidToInt wikidataID of
              Inl e \<Rightarrow> fail e p
            | Inr ident \<Rightarrow>
                queue (Del (failKey ident)) (queue (ZRem failedZsetKey (FormatInt ident)) p)))"

fun first_error :: "store_error option list \<Rightarrow> store_error option" where
  "first_error [] = None"
| "first_error (Some e # es) = Some e"
| "first_error (None # es) = first_error es"

definition broken_attempts :: "'s redis \<Rightarrow> nat list \<Rightarrow> cmd list \<Rightarrow> 's \<Rightarrow> 's" where
  "broken_attempts R attempts cs = fold (\<lambda>n s. snd (run_cmds R (take n cs) s)) attempts"

definition Exec :: "'s redis \<Rightarrow> nat list \<Rightarrow> bool \<Rightarrow> Pipe \<Rightarrow> 's \<Rightarrow> store_error option \<times> 's" where
  "Exec R attempts lost p s =
     (case p_err p of
        Some e \<Rightarrow> (Some e, s)
      | None \<Rightarrow>
          if p_cmds p = [] then (None, s)
          else let s1 = broken_attempts R attempts (p_cmds p) s in
            if lost then (Some (ConnError ''connection lost''), s1)
            else (case run_cmds R (p_cmds p) s1 of (es, s2) \<Rightarrow> (first_error es, s2)))"

section \<open>One pipe from start to end\<close>

text \<open>What happens to one use of a pipe: the script loads, the broken attempts, the last attempt.\<close>

record fate =
  f_loads :: "bool list"
  f_attempts :: "nat list"
  f_lost :: bool

definition good_fate :: fate where
  "good_fate = \<lparr>f_loads = [True, True, True], f_attempts = [], f_lost = False\<rparr>"

fun next_fate :: "fate list \<Rightarrow> fate \<times> fate list" where
  "next_fate [] = (good_fate, [])"
| "next_fate (f # fs) = (f, fs)"

definition run_pipe ::
  "'s redis \<Rightarrow> fate \<Rightarrow> (Pipe \<Rightarrow> Pipe) \<Rightarrow> Writer \<times> 's \<Rightarrow> store_error option \<times> Writer \<times> 's" where
  "run_pipe R f build ws =
     (let (p, w) = NewPipe (f_loads f) (fst ws);
          (err, s) = Exec R (f_attempts f) (f_lost f) (build p) (snd ws)
      in (err, w, s))"

end
