(* ===== verification/Store.thy ===== *)
theory Store
  imports Pipe
begin

text \<open>
  The abstract store that the writer implements: a map of entities, the changelog as a list of
  changes, the sync state and the two sets of the work queue. \<open>abstract\<close> reads it off the database;
  \<open>cmd_spec\<close> is the meaning of each queued command; \<open>exec_cmd_refines\<close> is the refinement. What
  a whole pipe does, with or without a broken connection, follows by induction.
\<close>

section \<open>The abstract store\<close>

record astore =
  a_entities :: "string \<Rightarrow> string option"
  a_log :: "(string \<times> string) list"
  a_sync :: "string \<Rightarrow> string option"
  a_pending :: "string set"
  a_processing :: "string set"

definition abstract :: "content \<Rightarrow> astore" where
  "abstract c = \<lparr>a_entities = entities c,
     a_log = map entry_change (streams c changelogKey),
     a_sync = (hashes c metaKey)(''entity_count'' := None),
     a_pending = rsets c pendingKey,
     a_processing = rsets c processingKey\<rparr>"

lemma abstract_sel [simp]:
  "a_entities (abstract c) = entities c"
  "a_log (abstract c) = map entry_change (streams c changelogKey)"
  "a_sync (abstract c) f = (if f = ''entity_count'' then None else hashes c metaKey f)"
  "a_pending (abstract c) = rsets c pendingKey"
  "a_processing (abstract c) = rsets c processingKey"
  by (simp_all add: abstract_def)

text \<open>A change to an entity: no change at all if the entity has this value already.\<close>

definition change_entity :: "string \<Rightarrow> string option \<Rightarrow> astore \<Rightarrow> astore" where
  "change_entity eid x a =
     (if a_entities a eid = x then a
      else a\<lparr>a_entities := (a_entities a)(eid := x),
             a_log := a_log a @ [(eid, case x of None \<Rightarrow> [] | Some m \<Rightarrow> m)]\<rparr>)"

fun cmd_spec :: "cmd \<Rightarrow> astore \<Rightarrow> astore" where
  "cmd_spec (RunUpsert m eid) a = change_entity eid (Some m) a"
| "cmd_spec (RunDelete eid) a = change_entity eid None a"
| "cmd_spec (HSet k f x) a =
     (if f = ''entity_count'' then a else a\<lparr>a_sync := (a_sync a)(f := Some x)\<rparr>)"
| "cmd_spec (HDel k fs) a = a\<lparr>a_sync := (\<lambda>f. if f \<in> set fs then None else a_sync a f)\<rparr>"
| "cmd_spec (SAdd k ms) a = a\<lparr>a_pending := a_pending a \<union> set ms\<rparr>"
| "cmd_spec (SRem k ms) a = a\<lparr>a_processing := a_processing a - set ms\<rparr>"
| "cmd_spec (RunRecordFailed _ _ _ _ _ _) a = a"
| "cmd_spec (ZRem _ _) a = a"
| "cmd_spec (Del _) a = a"

text \<open>Entities are stored under the decimal text of a 64-bit number.\<close>

definition canonical_eid :: "string \<Rightarrow> bool" where
  "canonical_eid eid \<longleftrightarrow> (\<exists>n. int64 n \<and> eid = FormatInt n)"

lemma canonical_eid_ok: "canonical_eid eid \<Longrightarrow> eid_ok eid"
  by (auto simp: canonical_eid_def intro: index_intros)

lemma canonical_eid_FormatInt [simp]: "int64 n \<Longrightarrow> canonical_eid (FormatInt n)"
  by (auto simp: canonical_eid_def)

text \<open>The commands the operations of a pipe queue.\<close>

fun cmd_ok :: "'s redis \<Rightarrow> cmd \<Rightarrow> bool" where
  "cmd_ok R (RunUpsert m eid) \<longleftrightarrow> canonical_eid eid \<and> mappings_ok R m"
| "cmd_ok R (RunDelete eid) \<longleftrightarrow> canonical_eid eid"
| "cmd_ok R (RunRecordFailed zkey fkey _ _ _ _) \<longleftrightarrow> zkey = failedZsetKey \<and> HasPrefix fkey ''failed:''"
| "cmd_ok R (HSet k f x) \<longleftrightarrow> k = metaKey"
| "cmd_ok R (HDel k fs) \<longleftrightarrow> k = metaKey"
| "cmd_ok R (SAdd k ms) \<longleftrightarrow> k = pendingKey"
| "cmd_ok R (SRem k ms) \<longleftrightarrow> k = processingKey"
| "cmd_ok R (ZRem k m) \<longleftrightarrow> k = failedZsetKey"
| "cmd_ok R (Del k) \<longleftrightarrow> HasPrefix k ''failed:''"

section \<open>Frames\<close>

lemma failed_key_frame [simp]:
  "HasPrefix k ''failed:'' \<Longrightarrow> k \<noteq> entitiesKey" "HasPrefix k ''failed:'' \<Longrightarrow> k \<noteq> metaKey"
  "HasPrefix k ''failed:'' \<Longrightarrow> \<not> HasPrefix k ''p:''" "HasPrefix k ''failed:'' \<Longrightarrow> k \<noteq> changelogKey"
  "HasPrefix k ''failed:'' \<Longrightarrow> k \<noteq> pendingKey" "HasPrefix k ''failed:'' \<Longrightarrow> k \<noteq> processingKey"
  by (cases k; auto simp: HasPrefix_def key_defs)+

definition same_store :: "content \<Rightarrow> content \<Rightarrow> bool" where
  "same_store c c' \<longleftrightarrow>
     (\<forall>k. \<not> HasPrefix k ''failed:'' \<longrightarrow> hashes c' k = hashes c k \<and> rsets c' k = rsets c k \<and>
        streams c' k = streams c k)"

lemma same_storeI:
  assumes "\<And>k. \<not> HasPrefix k ''failed:'' \<Longrightarrow> hashes c' k = hashes c k"
    and "\<And>k. \<not> HasPrefix k ''failed:'' \<Longrightarrow> rsets c' k = rsets c k"
    and "\<And>k. \<not> HasPrefix k ''failed:'' \<Longrightarrow> streams c' k = streams c k"
  shows "same_store c c'"
  using assms by (simp add: same_store_def)

lemma not_failed [simp]:
  "\<not> HasPrefix entitiesKey ''failed:''" "\<not> HasPrefix metaKey ''failed:''"
  "\<not> HasPrefix changelogKey ''failed:''" "\<not> HasPrefix pendingKey ''failed:''"
  "\<not> HasPrefix processingKey ''failed:''"
  using failed_key_frame by blast+

lemma same_store:
  assumes "same_store c c'"
  shows "abstract c' = abstract c" and "index_ok R c' = index_ok R c" and "count_ok c' = count_ok c"
proof -
  show "abstract c' = abstract c" using assms by (simp add: abstract_def same_store_def)
  show "index_ok R c' = index_ok R c"
  proof (rule index_ok_cong)
    fix k
    assume "HasPrefix k ''p:'' \<or> k = entitiesKey"
    then have "\<not> HasPrefix k ''failed:''" by auto
    with assms show "hashes c' k = hashes c k" by (simp add: same_store_def)
  qed
  show "count_ok c' = count_ok c"
    using assms by (simp add: count_ok_def entity_count_def same_store_def)
qed

lemma put_again [simp]:
  "put_hash k h (put_hash k h' c) = put_hash k h c" "put_set k a (put_set k a' c) = put_set k a c"
  by (simp_all add: put_hash_def put_set_def)

lemma view_fold_hdel:
  assumes R: "redis_ok R v"
  shows "v (fold (r_hdel R k) fs s) =
     put_hash k (\<lambda>f. if f \<in> set fs then None else hashes (v s) k f) (v s)"
proof (induction fs arbitrary: s)
  case Nil
  then show ?case by (simp add: put_hash_def)
next
  case (Cons f fs)
  have step: "v (r_hdel R k f s) = put_hash k ((hashes (v s) k)(f := None)) (v s)"
    by (rule redis_hash(3)[OF R])
  then have get: "hashes (v (r_hdel R k f s)) k = (hashes (v s) k)(f := None)" by simp
  have "(\<lambda>g. if g \<in> set fs then None else ((hashes (v s) k)(f := None)) g) =
      (\<lambda>g. if g \<in> set (f # fs) then None else hashes (v s) k g)" by auto
  with Cons.IH[of "r_hdel R k f s", unfolded get, unfolded step put_again] show ?case by simp
qed

lemma view_fold_sadd:
  assumes R: "redis_ok R v"
  shows "v (fold (r_sadd R k) ms s) = put_set k (rsets (v s) k \<union> set ms) (v s)"
proof (induction ms arbitrary: s)
  case Nil
  then show ?case by (simp add: put_set_def)
next
  case (Cons m ms)
  then show ?case by (simp add: redis_set(1)[OF R])
qed

lemma view_fold_srem:
  assumes R: "redis_ok R v"
  shows "v (fold (r_srem R k) ms s) = put_set k (rsets (v s) k - set ms) (v s)"
proof (induction ms arbitrary: s)
  case Nil
  then show ?case by (simp add: put_set_def)
next
  case (Cons m ms)
  have "rsets (v s) k - {m} - set ms = rsets (v s) k - set (m # ms)" by auto
  with Cons show ?case by (simp add: redis_set(2)[OF R])
qed

lemma script_result_snd [simp]: "snd (script_result r) = snd r"
  by (simp add: script_result_def split: prod.splits lua_reply.splits)

lemma record_failed_frame:
  assumes R: "redis_ok R v" and f: "HasPrefix fkey ''failed:''"
  shows "same_store (v s) (v (snd (recordFailedScript R zkey fkey ident errMsg now score s)))"
proof (cases "r_exists R fkey s")
  case False
  with R f show ?thesis by (auto simp: recordFailedScript_def redis_laws Let_def intro!: same_storeI)
next
  case True
  let ?s1 = "r_hset R fkey ''last_failed'' now (r_hset R fkey ''error'' errMsg s)"
  show ?thesis
  proof (cases rule: redis_hincrby_cases[OF R, of fkey "''attempts''" 1 ?s1], goal_cases)
    case (1 i s')
    with True R f show ?thesis
      by (auto simp: recordFailedScript_def redis_laws intro!: same_storeI)
  next
    case (2 e s')
    with True R f show ?thesis
      by (auto simp: recordFailedScript_def redis_laws intro!: same_storeI)
  qed
qed

section \<open>Refinement\<close>

lemma stored_refines:
  assumes st: "stored c changelogKey eid x i c'" and new: "entities c eid \<noteq> x"
  shows "abstract c' = change_entity eid x (abstract c)"
proof -
  have "(hashes c' metaKey)(''entity_count'' := None) = (hashes c metaKey)(''entity_count'' := None)"
    using st by (auto simp: stored_def)
  with st new show ?thesis
    by (simp add: stored_def abstract_def change_entity_def)
qed

lemma upsert_refines:
  assumes R: "redis_ok R v" and c: "index_ok R (v s)" and e: "eid_ok eid" "mappings_ok R m"
  shows "abstract (v (snd (upsertScript R changelogKey m eid s))) = change_entity eid (Some m) (abstract (v s))"
    and "index_ok R (v (snd (upsertScript R changelogKey m eid s)))"
proof -
  have "abstract (v (snd (upsertScript R changelogKey m eid s))) = change_entity eid (Some m) (abstract (v s)) \<and>
    index_ok R (v (snd (upsertScript R changelogKey m eid s)))"
  proof (cases "entities (v s) eid = Some m")
    case True
    with R c show ?thesis by (simp add: upsert_unchanged change_entity_def)
  next
    case False
    from upsert_changed[OF R c e this, of changelogKey] False show ?thesis
      by (metis stored_refines)
  qed
  then show "abstract (v (snd (upsertScript R changelogKey m eid s))) = change_entity eid (Some m) (abstract (v s))"
    "index_ok R (v (snd (upsertScript R changelogKey m eid s)))" by blast+
qed

lemma delete_refines:
  assumes R: "redis_ok R v" and c: "index_ok R (v s)"
  shows "abstract (v (snd (deleteScript R changelogKey eid s))) = change_entity eid None (abstract (v s))"
    and "index_ok R (v (snd (deleteScript R changelogKey eid s)))"
proof -
  have "abstract (v (snd (deleteScript R changelogKey eid s))) = change_entity eid None (abstract (v s)) \<and>
    index_ok R (v (snd (deleteScript R changelogKey eid s)))"
  proof (cases "entities (v s) eid")
    case None
    with R c show ?thesis by (simp add: delete_absent change_entity_def)
  next
    case (Some m)
    then have "entities (v s) eid \<noteq> None" by simp
    with delete_present[OF R c Some, of changelogKey] show ?thesis
      by (metis stored_refines)
  qed
  then show "abstract (v (snd (deleteScript R changelogKey eid s))) = change_entity eid None (abstract (v s))"
    "index_ok R (v (snd (deleteScript R changelogKey eid s)))" by blast+
qed

lemma meta_frame:
  assumes "c' = put_hash metaKey h c"
  shows "index_ok R c' = index_ok R c"
    and "abstract c' = (abstract c)\<lparr>a_sync := h(''entity_count'' := None)\<rparr>"
proof -
  show "index_ok R c' = index_ok R c" unfolding assms by (rule index_ok_cong) auto
  show "abstract c' = (abstract c)\<lparr>a_sync := h(''entity_count'' := None)\<rparr>" by (simp add: assms abstract_def)
qed

lemma set_frame: "index_ok R (put_set k a c) = index_ok R c"
  by (rule index_ok_cong) simp

text \<open>Every command of a pipe does to the abstract store what \<open>cmd_spec\<close> says.\<close>

lemma exec_cmd_refines:
  assumes R: "redis_ok R v" and c: "index_ok R (v s)" and ok: "cmd_ok R k"
  shows "abstract (v (snd (exec_cmd R k s))) = cmd_spec k (abstract (v s)) \<and> index_ok R (v (snd (exec_cmd R k s)))"
proof (cases k)
  case (RunUpsert m eid)
  with upsert_refines[OF R c, of eid m] ok show ?thesis by (simp add: canonical_eid_ok)
next
  case (RunDelete eid)
  with delete_refines[OF R c, of eid] show ?thesis by simp
next
  case (RunRecordFailed z f i e n x)
  with ok have "same_store (v s) (v (snd (exec_cmd R k s)))" using record_failed_frame[OF R] by simp
  from same_store(1)[OF this] same_store(2)[OF this, where R = R] c RunRecordFailed show ?thesis by simp
next
  case (HSet key f x)
  with ok have "v (snd (exec_cmd R k s)) = put_hash metaKey ((hashes (v s) metaKey)(f := Some x)) (v s)"
    using R by (simp add: redis_laws)
  from meta_frame(1)[OF this, of R] meta_frame(2)[OF this] c HSet show ?thesis by (auto simp: abstract_def fun_upd_twist)
next
  case (HDel key fs)
  show ?thesis
  proof (cases "fs = []")
    case True
    with HDel c show ?thesis by (simp add: abstract_def fun_upd_def)
  next
    case False
    with ok HDel have "v (snd (exec_cmd R k s)) =
        put_hash metaKey (\<lambda>f. if f \<in> set fs then None else hashes (v s) metaKey f) (v s)"
      using R by (simp add: view_fold_hdel)
    from meta_frame(1)[OF this, of R] meta_frame(2)[OF this] c HDel show ?thesis by (auto simp: abstract_def fun_eq_iff)
  qed
next
  case (SAdd key ms)
  with ok R c show ?thesis by (auto simp: view_fold_sadd set_frame abstract_def)
next
  case (SRem key ms)
  with ok R c show ?thesis by (auto simp: view_fold_srem set_frame abstract_def)
next
  case (ZRem key m)
  have "same_store (v s) (v (r_zrem R key m s))" using R by (auto simp: redis_laws intro: same_storeI)
  from same_store(1)[OF this] same_store(2)[OF this, where R = R] c ZRem show ?thesis by simp
next
  case (Del key)
  have "same_store (v s) (v (r_del R key s))"
    using ok Del by (auto simp: redis_hash(4)[OF R] same_store_def)
  from same_store(1)[OF this] same_store(2)[OF this, where R = R] c Del show ?thesis by simp
qed

lemma run_cmds_snd [simp]:
  "snd (run_cmds R [] s) = s"
  "snd (run_cmds R (k # cs) s) = snd (run_cmds R cs (snd (exec_cmd R k s)))"
  by (simp_all add: Let_def split: prod.splits)

lemma run_cmds_refines:
  assumes R: "redis_ok R v" and "index_ok R (v s)" and "\<forall>k \<in> set cs. cmd_ok R k"
  shows "abstract (v (snd (run_cmds R cs s))) = fold cmd_spec cs (abstract (v s)) \<and>
    index_ok R (v (snd (run_cmds R cs s)))"
  using assms(2,3)
proof (induction cs arbitrary: s)
  case Nil
  then show ?case by simp
next
  case (Cons k cs)
  with exec_cmd_refines[OF R Cons.prems(1), of k] show ?case by (simp del: run_cmds.simps)
qed

text \<open>What a pipe may have done by the time \<open>Exec\<close> returns: some prefixes of it, one after the other.\<close>

definition prefixes_spec :: "cmd list list \<Rightarrow> astore \<Rightarrow> astore" where
  "prefixes_spec ps = fold (\<lambda>cs. fold cmd_spec cs) ps"

lemma broken_attempts_refines:
  assumes R: "redis_ok R v" and "index_ok R (v s)" and "\<forall>k \<in> set cs. cmd_ok R k"
  shows "abstract (v (broken_attempts R attempts cs s)) =
      prefixes_spec (map (\<lambda>n. take n cs) attempts) (abstract (v s)) \<and>
    index_ok R (v (broken_attempts R attempts cs s))"
  using assms(2)
proof (induction attempts arbitrary: s)
  case Nil
  then show ?case by (simp add: broken_attempts_def prefixes_spec_def)
next
  case (Cons n ns)
  have "\<forall>k \<in> set (take n cs). cmd_ok R k" using assms(3) by (meson in_set_takeD)
  with Cons run_cmds_refines[OF R Cons.prems, of "take n cs"] show ?case
    by (simp add: broken_attempts_def prefixes_spec_def)
qed

definition exec_prefixes :: "nat list \<Rightarrow> bool \<Rightarrow> Pipe \<Rightarrow> cmd list list" where
  "exec_prefixes attempts lost p =
     (if p_err p \<noteq> None then []
      else map (\<lambda>n. take n (p_cmds p)) attempts @ (if lost then [] else [p_cmds p]))"

lemma Exec_refines:
  assumes R: "redis_ok R v" and c: "index_ok R (v s)" and ok: "\<forall>k \<in> set (p_cmds p). cmd_ok R k"
  shows "abstract (v (snd (Exec R attempts lost p s))) = prefixes_spec (exec_prefixes attempts lost p) (abstract (v s))"
    and "index_ok R (v (snd (Exec R attempts lost p s)))"
proof -
  let ?s1 = "broken_attempts R attempts (p_cmds p) s"
  have b: "abstract (v ?s1) = prefixes_spec (map (\<lambda>n. take n (p_cmds p)) attempts) (abstract (v s))"
    "index_ok R (v ?s1)"
    using broken_attempts_refines[OF R c ok, of attempts] by blast+
  have r: "abstract (v (snd (run_cmds R (p_cmds p) ?s1))) = fold cmd_spec (p_cmds p) (abstract (v ?s1))"
    "index_ok R (v (snd (run_cmds R (p_cmds p) ?s1)))"
    using run_cmds_refines[OF R b(2) ok] by blast+
  have nil: "prefixes_spec (map (\<lambda>n. []) xs) a = a" for xs :: "nat list" and a
    by (induction xs) (simp_all add: prefixes_spec_def)
  have "abstract (v (snd (Exec R attempts lost p s))) = prefixes_spec (exec_prefixes attempts lost p) (abstract (v s)) \<and>
      index_ok R (v (snd (Exec R attempts lost p s)))"
  proof (cases "p_err p")
    case (Some e)
    with c show ?thesis by (simp add: Exec_def exec_prefixes_def prefixes_spec_def)
  next
    case None
    show ?thesis
    proof (cases "p_cmds p = []")
      case True
      with None c nil show ?thesis
        by (simp add: Exec_def exec_prefixes_def prefixes_spec_def)
    next
      case False
      with None b r show ?thesis
        by (cases lost) (simp_all add: Exec_def exec_prefixes_def prefixes_spec_def Let_def split_beta)
    qed
  qed
  then show "abstract (v (snd (Exec R attempts lost p s))) = prefixes_spec (exec_prefixes attempts lost p) (abstract (v s))"
    "index_ok R (v (snd (Exec R attempts lost p s)))" by blast+
qed

end
