(* ===== verification/MemRedis.thy ===== *)
theory MemRedis
  imports Redis Json
begin

text \<open>
  A small in-memory server whose state is the content itself. It satisfies \<open>redis_ok\<close>, so the
  hypotheses about the database can be met, and it is the server on which the properties with
  such a hypothesis are applied to concrete inputs. It is not part of the model of the program.
\<close>

definition next_id :: "stream_entry list \<Rightarrow> string" where
  "next_id es = (if es = [] then sid_str (1, 0) else sid_str (Suc (fst (sid_of (fst (last es)))), 0))"

definition mem_hincrby :: "string \<Rightarrow> string \<Rightarrow> int \<Rightarrow> content \<Rightarrow> (string, content) outcome" where
  "mem_hincrby k f n c =
     (case hash_value (hashes c k f) of
        None \<Rightarrow> (Some ''ERR hash value is not an integer'', c)
      | Some i \<Rightarrow>
          if int64 (i + n) then (None, put_hash k ((hashes c k)(f := Some (FormatInt (i + n)))) c)
          else (Some ''ERR increment or decrement would overflow'', c))"

definition mem_spop :: "string \<Rightarrow> nat \<Rightarrow> content \<Rightarrow> string list \<times> content" where
  "mem_spop k n c =
     (let ms = take n (sorted_list_of_set (rsets c k)) in (ms, put_set k (rsets c k - set ms) c))"

definition mem_redis :: "content redis" where
  "mem_redis = \<lparr>
     r_hget = (\<lambda>k f c. hashes c k f),
     r_hset = (\<lambda>k f x c. put_hash k ((hashes c k)(f := Some x)) c),
     r_hdel = (\<lambda>k f c. put_hash k ((hashes c k)(f := None)) c),
     r_hincrby = mem_hincrby,
     r_exists = (\<lambda>k c. \<exists>f. hashes c k f \<noteq> None),
     r_del = drop_key,
     r_sadd = (\<lambda>k m c. put_set k (insert m (rsets c k)) c),
     r_srem = (\<lambda>k m c. put_set k (rsets c k - {m}) c),
     r_spop = mem_spop,
     r_sunionstore = (\<lambda>k a b c. put_set k (rsets c a \<union> rsets c b) c),
     r_scard = (\<lambda>k c. card (rsets c k)),
     r_zadd = (\<lambda>k x m c. put_zset k ((zsets c k)(m := Some x)) c),
     r_zrem = (\<lambda>k m c. put_zset k ((zsets c k)(m := None)) c),
     r_zrange = (\<lambda>k n c. take n (sorted_list_of_set (dom (zsets c k)))),
     r_zcard = (\<lambda>k c. card (dom (zsets c k))),
     r_xadd = (\<lambda>k fs c. put_stream k (streams c k @ [(next_id (streams c k), fs)]) c),
     r_xread = (\<lambda>k i n c. take n (filter (\<lambda>e. sid_less (sid_of i) (sid_of (fst e))) (streams c k))),
     r_xrange_before = (\<lambda>k i n c. take n (filter (\<lambda>e. sid_less (sid_of (fst e)) (sid_of i)) (streams c k))),
     r_xrange = (\<lambda>k n c. take n (streams c k)),
     r_xrevrange = (\<lambda>k n c. take n (rev (streams c k))),
     r_xtrim_minid = (\<lambda>k i c.
       (length (filter (\<lambda>e. sid_less (sid_of (fst e)) (sid_of i)) (streams c k)),
        put_stream k (filter (\<lambda>e. \<not> sid_less (sid_of (fst e)) (sid_of i)) (streams c k)) c)),
     r_xinfo = (\<lambda>k c. if streams c k = [] then None
       else Some (fst (hd (streams c k)), fst (last (streams c k)), length (streams c k))),
     r_flushdb = (\<lambda>c. no_content),
     r_cjson = dec_strings\<rparr>"

lemma mem_redis_sel [simp]:
  "r_hget mem_redis = (\<lambda>k f c. hashes c k f)"
  "r_cjson mem_redis = dec_strings"
  "r_spop mem_redis = mem_spop"
  "r_hincrby mem_redis = mem_hincrby"
  by (simp_all add: mem_redis_def)

lemma mem_spop_ok: "spop_ok mem_redis id"
  unfolding spop_ok_def
proof (intro allI impI)
  fix k :: string and n :: nat and s :: content
  assume "finite (rsets (id s) k)"
  then have fin: "finite (rsets s k)" by simp
  let ?l = "sorted_list_of_set (rsets s k)"
  have "distinct (take n ?l)" "length (take n ?l) = min n (card (rsets s k))"
    by (simp_all add: min.commute)
  moreover have "set (take n ?l) \<subseteq> rsets s k"
    using set_take_subset[of n ?l] fin by simp
  ultimately show "case r_spop mem_redis k n s of (ms, s') \<Rightarrow>
      distinct ms \<and> set ms \<subseteq> rsets (id s) k \<and> length ms = min n (card (rsets (id s) k)) \<and>
      id s' = put_set k (rsets (id s) k - set ms) (id s)"
    by (simp add: mem_spop_def Let_def)
qed

lemma mem_zset_ok: "zset_ok mem_redis id"
proof -
  have "set (take n (sorted_list_of_set (dom (zsets s k)))) \<subseteq> dom (zsets s k)" for n s k
  proof (cases "finite (dom (zsets s k))")
    case True
    then show ?thesis using set_take_subset[of n "sorted_list_of_set (dom (zsets s k))"] by simp
  next
    case False
    then show ?thesis by simp
  qed
  note sub = this
  show ?thesis unfolding zset_ok_def by (intro conjI allI) (simp_all add: mem_redis_def sub)
qed

lemma mem_stream_ok: "xadd_ok mem_redis id" "xrange_ok mem_redis id" "xtrim_ok mem_redis id" "xinfo_ok mem_redis id"
proof -
  show "xadd_ok mem_redis id" by (auto simp: xadd_ok_def mem_redis_def)
  show "xrange_ok mem_redis id" by (simp add: xrange_ok_def mem_redis_def)
  show "xtrim_ok mem_redis id" by (simp add: xtrim_ok_def mem_redis_def)
  show "xinfo_ok mem_redis id" by (simp add: xinfo_ok_def mem_redis_def)
qed

theorem mem_redis_ok: "redis_ok mem_redis id"
proof -
  have "hash_ok mem_redis id" by (auto simp: hash_ok_def mem_redis_def)
  moreover have "hincrby_ok mem_redis id"
    by (auto simp: hincrby_ok_def mem_hincrby_def split: option.splits)
  moreover have "set_ok mem_redis id" by (simp add: set_ok_def mem_redis_def)
  ultimately show ?thesis
    using mem_spop_ok mem_zset_ok mem_stream_ok by (simp add: redis_ok_def)
qed

end
