(* ===== verification/Changes.thy ===== *)
theory Changes
  imports Store MemRedis
begin

text \<open>
  What every pipe keeps, whichever operations are queued in it and wherever its connection
  breaks: the reverse index, the entity counter, and the changelog as a record of the changes
  that replays to the entities. The operations of \<open>Pipe\<close> only queue commands for which these
  results hold (\<open>pipe_ok\<close>).
\<close>

section \<open>The commands a pipe queues\<close>

definition pipe_ok :: "'s redis \<Rightarrow> Pipe \<Rightarrow> bool" where
  "pipe_ok R p \<longleftrightarrow> (\<forall>k \<in> set (p_cmds p). cmd_ok R k)"

text \<open>The server's JSON decoder undoes Go's encoder on lists of UTF-8 strings.\<close>

definition cjson_ok :: "'s redis \<Rightarrow> bool" where
  "cjson_ok R \<longleftrightarrow> (\<forall>xs. (\<forall>x \<in> set xs. utf8_ok x) \<longrightarrow> r_cjson R (json_strings xs) = Some xs)"

lemma mem_cjson_ok: "cjson_ok mem_redis"
  by (simp add: cjson_ok_def dec_json_strings)

lemma pipe_ok_queue [simp]: "pipe_ok R (queue c p) \<longleftrightarrow> pipe_ok R p \<and> cmd_ok R c"
  by (auto simp: pipe_ok_def queue_def)

lemma pipe_ok_fail [simp]: "pipe_ok R (fail e p) = pipe_ok R p"
  by (simp add: pipe_ok_def fail_def)

lemma pipe_ok_new: "pipe_ok R (fst (NewPipe loads w))"
  by (simp add: pipe_ok_def NewPipe_def split: prod.splits)

lemma check_mappings_None:
  "check_mappings qid es = None \<longleftrightarrow> (\<forall>e \<in> set es. \<exists>r. parseFlatMappingEntry e = Inr r)"
  by (induction es) (auto split: sum.splits)

lemma canonical_mappings_ok:
  assumes "cjson_ok R" and "check_mappings qid es = None" and "\<forall>e \<in> set es. utf8_ok e"
  shows "mappings_ok R (canonicalMappingsJSON es)"
    and "r_cjson R (canonicalMappingsJSON es) = Some es"
proof -
  have canon: "canonicalMappingsJSON es = json_strings es"
    by (simp add: canonicalMappingsJSON_def json_strings_def)
  with assms(1,3) show d: "r_cjson R (canonicalMappingsJSON es) = Some es"
    by (simp add: cjson_ok_def)
  have "\<forall>e \<in> set es. entry_ok e"
    using assms(2) by (auto simp: check_mappings_None intro: index_intros)
  with d canon show "mappings_ok R (canonicalMappingsJSON es)" by (simp add: mappings_ok_def)
qed

lemma pipe_ok_upsert_raw:
  "pipe_ok R p \<Longrightarrow> mappings_ok R (rr_RawMappings rec) \<Longrightarrow> pipe_ok R (UpsertRawEntity rec p)"
  by (auto simp: UpsertRawEntity_def dest: qidToInt_int64 split: sum.splits)

lemma pipe_ok_upsert:
  assumes "pipe_ok R p" "cjson_ok R" "\<forall>e \<in> set (er_Mappings rec). utf8_ok e"
  shows "pipe_ok R (UpsertEntity rec p)"
  using assms canonical_mappings_ok(1)[OF assms(2) _ assms(3)]
  by (auto simp: UpsertEntity_def dest: qidToInt_int64 split: sum.splits option.splits)

lemma failKey_prefix [simp]: "HasPrefix (failKey n) ''failed:''"
  by (simp add: failKey_def HasPrefix_def)

lemma pipe_ok_ops:
  assumes "pipe_ok R p"
  shows "pipe_ok R (DeleteEntity qid p)" "pipe_ok R (SetSyncState key val p)"
    "pipe_ok R (DelSyncStates keys p)" "pipe_ok R (EnqueueEntities qids p)"
    "pipe_ok R (AckProcessedEntities qids p)" "pipe_ok R (RecordFailedEntity now micros qid msg p)"
    "pipe_ok R (DeleteFailedEntity qid p)"
  using assms
  by (auto simp: DeleteEntity_def SetSyncState_def DelSyncStates_def EnqueueEntities_def
      AckProcessedEntities_def RecordFailedEntity_def DeleteFailedEntity_def dest: qidToInt_int64
      split: sum.splits)

section \<open>The changelog replays to the entities\<close>

definition replays :: "astore \<Rightarrow> astore \<Rightarrow> bool" where
  "replays a b \<longleftrightarrow> (\<exists>l. a_log b = a_log a @ l \<and> a_entities b = fold apply_change l (a_entities a))"

lemma replays_refl [simp]: "replays a a"
  unfolding replays_def by (intro exI[of _ "[]"]) simp

lemma replays_trans: "replays a b \<Longrightarrow> replays b c \<Longrightarrow> replays a c"
  unfolding replays_def by (metis append.assoc comp_apply fold_append)

lemma replays_change:
  "x \<noteq> Some [] \<Longrightarrow> replays a (change_entity eid x a)"
  unfolding replays_def change_entity_def
  by (auto simp: apply_change_def split: option.splits intro: exI[of _ "[]"])

lemma replays_same: "a_log b = a_log a \<Longrightarrow> a_entities b = a_entities a \<Longrightarrow> replays a b"
  unfolding replays_def by (intro exI[of _ "[]"]) simp

lemma replays_cmd: "cmd_ok R k \<Longrightarrow> replays a (cmd_spec k a)"
  by (cases k) (auto simp: mappings_ok_def intro: replays_change replays_same)

lemma replays_fold: "\<forall>k \<in> set cs. cmd_ok R k \<Longrightarrow> replays a (fold cmd_spec cs a)"
proof (induction cs arbitrary: a)
  case Nil
  then show ?case by simp
next
  case (Cons k cs)
  then have "replays (cmd_spec k a) (fold cmd_spec cs (cmd_spec k a))" by simp
  with Cons.prems replays_cmd[of R k a] show ?case by (auto intro: replays_trans)
qed

lemma replays_prefixes:
  "\<forall>cs \<in> set ps. \<forall>k \<in> set cs. cmd_ok R k \<Longrightarrow> replays a (prefixes_spec ps a)"
proof (induction ps arbitrary: a)
  case Nil
  then show ?case by (simp add: prefixes_spec_def)
next
  case (Cons cs ps)
  then have "replays (fold cmd_spec cs a) (prefixes_spec ps (fold cmd_spec cs a))" by simp
  moreover have "replays a (fold cmd_spec cs a)" using Cons.prems replays_fold[of cs R a] by simp
  ultimately show ?case by (auto simp: prefixes_spec_def intro: replays_trans)
qed

definition eids_ok :: "(string \<Rightarrow> string option) \<Rightarrow> bool" where
  "eids_ok ents \<longleftrightarrow> (\<forall>eid \<in> dom ents. canonical_eid eid)"

lemma eids_cmd: "cmd_ok R k \<Longrightarrow> eids_ok (a_entities a) \<Longrightarrow> eids_ok (a_entities (cmd_spec k a))"
  by (cases k) (auto simp: change_entity_def eids_ok_def split: if_splits)

lemma eids_fold:
  "\<forall>k \<in> set cs. cmd_ok R k \<Longrightarrow> eids_ok (a_entities a) \<Longrightarrow> eids_ok (a_entities (fold cmd_spec cs a))"
proof (induction cs arbitrary: a)
  case Nil
  then show ?case by simp
next
  case (Cons k cs)
  with eids_cmd[of R k a] show ?case by simp
qed

lemma eids_prefixes:
  "\<forall>cs \<in> set ps. \<forall>k \<in> set cs. cmd_ok R k \<Longrightarrow> eids_ok (a_entities a) \<Longrightarrow>
   eids_ok (a_entities (prefixes_spec ps a))"
proof (induction ps arbitrary: a)
  case Nil
  then show ?case by (simp add: prefixes_spec_def)
next
  case (Cons cs ps)
  with eids_fold[of cs R a] show ?case by (simp add: prefixes_spec_def)
qed

lemma exec_prefixes_ok:
  "pipe_ok R p \<Longrightarrow> \<forall>cs \<in> set (exec_prefixes attempts lost p). \<forall>k \<in> set cs. cmd_ok R k"
  by (auto simp: exec_prefixes_def pipe_ok_def dest: in_set_takeD)

section \<open>The entity counter\<close>

fun counts_alone :: "cmd \<Rightarrow> bool" where
  "counts_alone (HSet k f x) \<longleftrightarrow> f \<noteq> ''entity_count''"
| "counts_alone (HDel k fs) \<longleftrightarrow> ''entity_count'' \<notin> set fs"
| "counts_alone _ \<longleftrightarrow> True"

lemma count_ok_cong:
  assumes "hashes c' entitiesKey = hashes c entitiesKey"
    and "hashes c' metaKey ''entity_count'' = hashes c metaKey ''entity_count''"
  shows "count_ok c' = count_ok c"
  using assms by (simp add: count_ok_def entity_count_def)

definition entity_total :: "content \<Rightarrow> int" where
  "entity_total c = int (card (dom (entities c)))"

lemma change_total:
  assumes "entities c' = (a_entities (change_entity eid x (abstract c)))" "finite (dom (entities c))"
  shows "entity_total c' \<le> entity_total c + 1"
proof -
  have "dom (entities c') \<subseteq> insert eid (dom (entities c))"
    using assms(1) by (auto simp: change_entity_def split: if_splits)
  then have "card (dom (entities c')) \<le> card (insert eid (dom (entities c)))"
    using assms(2) by (intro card_mono) auto
  also have "\<dots> \<le> Suc (card (dom (entities c)))" using assms(2) by (simp add: card_insert_if)
  finally show ?thesis by (simp add: entity_total_def)
qed

lemma exec_cmd_counts:
  assumes R: "redis_ok R v" and c: "index_ok R (v s)" and ok: "cmd_ok R k" "counts_alone k"
    and n: "count_ok (v s)" and room: "entity_total (v s) + 1 < 2 ^ 63"
  shows "count_ok (v (snd (exec_cmd R k s))) \<and> entity_total (v (snd (exec_cmd R k s))) \<le> entity_total (v s) + 1"
proof -
  have ref: "abstract (v (snd (exec_cmd R k s))) = cmd_spec k (abstract (v s))"
    using exec_cmd_refines[OF R c ok(1)] by blast
  then have ents: "entities (v (snd (exec_cmd R k s))) = a_entities (cmd_spec k (abstract (v s)))"
    by (metis abstract_sel(1))
  have fin: "finite (dom (entities (v s)))" by (rule count_okD(1)[OF n])
  have total: "entity_total (v (snd (exec_cmd R k s))) \<le> entity_total (v s) + 1"
  proof (cases k)
    case (RunUpsert m eid)
    with ents change_total[OF _ fin] show ?thesis by simp
  next
    case (RunDelete eid)
    with ents change_total[OF _ fin] show ?thesis by simp
  qed (use ents in \<open>auto simp: entity_total_def\<close>)
  have meta: "count_ok (v (snd (exec_cmd R k s))) = count_ok (v s)"
    if "hashes (v (snd (exec_cmd R k s))) metaKey ''entity_count'' = hashes (v s) metaKey ''entity_count''"
      "entities (v (snd (exec_cmd R k s))) = entities (v s)"
    by (rule count_ok_cong) (use that in auto)
  have "count_ok (v (snd (exec_cmd R k s)))"
  proof (cases k)
    case (RunUpsert m eid)
    with upsert_counts(2)[OF R c, of eid m] ok n room show ?thesis
      by (simp add: entity_total_def canonical_eid_ok)
  next
    case (RunDelete eid)
    with delete_counts(2)[OF R c n] show ?thesis by simp
  next
    case (RunRecordFailed z f i e t x)
    with ok have "same_store (v s) (v (snd (exec_cmd R k s)))" using record_failed_frame[OF R] by simp
    from same_store(3)[OF this] n show ?thesis by simp
  next
    case (HSet key f x)
    with meta ents ok n show ?thesis by (simp add: redis_hash(2)[OF R])
  next
    case (HDel key fs)
    with ok have "k = HDel metaKey fs" by simp
    with meta ents ok n show ?thesis by (cases "fs = []") (simp_all add: view_fold_hdel[OF R])
  next
    case (SAdd key ms)
    with meta ents n show ?thesis by (cases "ms = []") (simp_all add: view_fold_sadd[OF R])
  next
    case (SRem key ms)
    with meta ents n show ?thesis by (cases "ms = []") (simp_all add: view_fold_srem[OF R])
  next
    case (ZRem key m)
    with meta ents n show ?thesis by (simp add: redis_zset(2)[OF R])
  next
    case (Del key)
    have "same_store (v s) (v (r_del R key s))"
      using ok Del by (auto simp: redis_hash(4)[OF R] same_store_def)
    from same_store(3)[OF this] n Del show ?thesis by simp
  qed
  with total show ?thesis by blast
qed

lemma run_cmds_counts:
  assumes R: "redis_ok R v" and "index_ok R (v s)" "\<forall>k \<in> set cs. cmd_ok R k \<and> counts_alone k"
    and "count_ok (v s)" "entity_total (v s) + int (length cs) < 2 ^ 63"
  shows "count_ok (v (snd (run_cmds R cs s))) \<and>
    entity_total (v (snd (run_cmds R cs s))) \<le> entity_total (v s) + int (length cs)"
  using assms(2-)
proof (induction cs arbitrary: s)
  case Nil
  then show ?case by simp
next
  case (Cons k cs)
  let ?s' = "snd (exec_cmd R k s)"
  have ok: "cmd_ok R k" "counts_alone k" using Cons.prems by simp_all
  have "entity_total (v s) + 1 < 2 ^ 63" using Cons.prems(4) by simp
  from exec_cmd_counts[OF R Cons.prems(1) ok Cons.prems(3) this]
  have step: "count_ok (v ?s')" "entity_total (v ?s') \<le> entity_total (v s) + 1" by blast+
  have "index_ok R (v ?s')" using exec_cmd_refines[OF R Cons.prems(1) ok(1)] by blast
  from Cons.IH[OF this _ step(1)] step(2) Cons.prems show ?case by (simp del: run_cmds.simps)
qed

section \<open>The scripts, whole\<close>

lemma stored_replay:
  assumes "stored c key eid x i c'" and "x \<noteq> Some []"
  shows "streams c' key = streams c key @ [(i, change_fields eid (case x of None \<Rightarrow> [] | Some m \<Rightarrow> m))]"
    and "apply_log (drop (length (streams c key)) (streams c' key)) (entities c) = entities c'"
  using assms by (auto simp: stored_def apply_change_def split: option.splits)

text \<open>
  Claim C1: \<open>upsertScript\<close> with well-formed mappings stores them, keeps the reverse index exact and
  the entity counter equal to the number of entities, replies 0 for mappings that are stored
  already (and then changes nothing) and 1 otherwise, and what it appends to the changelog
  replays to what it did to the entities.
\<close>

theorem upsertScript_correct:
  assumes R: "redis_ok R v" and c: "index_ok R (v s)" and n: "count_ok (v s)"
    and room: "entity_total (v s) + 1 < 2 ^ 63" and e: "eid_ok eid" and m: "mappings_ok R m"
    and run: "upsertScript R changelogKey m eid s = (reply, s')"
  shows "entities (v s') = (entities (v s))(eid := Some m) \<and> index_ok R (v s') \<and> count_ok (v s') \<and>
    reply = LuaInt (if entities (v s) eid = Some m then 0 else 1) \<and>
    (entities (v s) eid = Some m \<longrightarrow> s' = s) \<and>
    apply_log (drop (length (streams (v s) changelogKey)) (streams (v s') changelogKey)) (entities (v s))
      = entities (v s')"
proof -
  have out: "s' = snd (upsertScript R changelogKey m eid s)" "reply = fst (upsertScript R changelogKey m eid s)"
    using run by simp_all
  have cnt: "reply = LuaInt (if entities (v s) eid = Some m then 0 else 1)" "count_ok (v s')"
    using upsert_counts[OF R c e m n] room by (simp_all add: out entity_total_def)
  show ?thesis
  proof (cases "entities (v s) eid = Some m")
    case True
    then have "s' = s" using upsert_unchanged[OF R] by (simp add: out)
    with True c cnt show ?thesis by (simp add: fun_upd_idem)
  next
    case False
    obtain i where st: "stored (v s) changelogKey eid (Some m) i (v s')" and "index_ok R (v s')"
      using upsert_changed[OF R c e m False, of changelogKey] unfolding out by metis
    moreover have "m \<noteq> []" using m by (simp add: mappings_ok_def)
    ultimately show ?thesis using stored_replay(2)[OF st] cnt False by (simp add: stored_def)
  qed
qed

text \<open>
  Claim C2: \<open>deleteScript\<close> removes the entity and all its index members, moves the counter, replies 1 if
  the entity was there and otherwise 0 without changing anything, and its changelog entry replays.
\<close>

theorem deleteScript_correct:
  assumes R: "redis_ok R v" and c: "index_ok R (v s)" and n: "count_ok (v s)"
    and run: "deleteScript R changelogKey eid s = (reply, s')"
  shows "entities (v s') = (entities (v s))(eid := None) \<and> index_ok R (v s') \<and> count_ok (v s') \<and>
    (\<forall>k. key_ok k \<longrightarrow> eid \<notin> members (v s') k) \<and>
    reply = LuaInt (if entities (v s) eid = None then 0 else 1) \<and>
    (entities (v s) eid = None \<longrightarrow> s' = s) \<and>
    apply_log (drop (length (streams (v s) changelogKey)) (streams (v s') changelogKey)) (entities (v s))
      = entities (v s')"
proof -
  have out: "s' = snd (deleteScript R changelogKey eid s)" "reply = fst (deleteScript R changelogKey eid s)"
    using run by simp_all
  have cnt: "reply = LuaInt (if entities (v s) eid = None then 0 else 1)" "count_ok (v s')"
    using delete_counts[OF R c n] by (simp_all add: out)
  have gone: "\<forall>k. key_ok k \<longrightarrow> eid \<notin> members (v s') k"
    if "index_ok R (v s')" "entities (v s') eid = None"
    using index_okD(4)[OF that(1)] that(2) by simp
  show ?thesis
  proof (cases "entities (v s) eid")
    case None
    then have "s' = s" using delete_absent[OF R] by (simp add: out)
    with None c cnt gone show ?thesis by (simp add: fun_upd_idem)
  next
    case (Some m)
    obtain i where st: "stored (v s) changelogKey eid None i (v s')" and idx: "index_ok R (v s')"
      using delete_present[OF R c Some, of changelogKey] unfolding out by metis
    then have "entities (v s') = (entities (v s))(eid := None)" by (simp add: stored_def)
    with gone idx stored_replay(2)[OF st] cnt Some show ?thesis by simp
  qed
qed

section \<open>Whole pipes\<close>

text \<open>
  Claim C3: if all that a pipe has queued is well formed (\<open>pipe_ok\<close>), then wherever its connection breaks,
  \<open>Exec\<close> leaves the reverse index exact and the entities under 64-bit numbers, and the entries it
  appends to the changelog replay to the entities it leaves. \<open>UpsertEntity\<close> and \<open>DeleteEntity\<close> check what
  they queue; \<open>UpsertRawEntity\<close> does not, and mappings that are not a JSON list of entries would break
  the index.
\<close>

theorem Exec_keeps_store:
  assumes R: "redis_ok R v" and c: "index_ok R (v s)" and p: "pipe_ok R p"
    and run: "Exec R attempts lost p s = (err, s')"
  shows "index_ok R (v s') \<and> replays (abstract (v s)) (abstract (v s')) \<and>
    (eids_ok (entities (v s)) \<longrightarrow> eids_ok (entities (v s')))"
proof -
  have s': "s' = snd (Exec R attempts lost p s)" using run by simp
  have ok: "\<forall>k \<in> set (p_cmds p). cmd_ok R k" using p by (simp add: pipe_ok_def)
  show ?thesis
    using Exec_refines[OF R c ok, of attempts lost, folded s']
      replays_prefixes[OF exec_prefixes_ok[OF p], of "abstract (v s)" attempts lost]
      eids_prefixes[OF exec_prefixes_ok[OF p], of "abstract (v s)" attempts lost]
    by (metis abstract_sel(1))
qed

lemma broken_attempts_counts:
  assumes R: "redis_ok R v" and ok: "\<forall>k \<in> set cs. cmd_ok R k \<and> counts_alone k"
  shows "index_ok R (v s) \<Longrightarrow> count_ok (v s) \<Longrightarrow> entity_total (v s) + int (length attempts * length cs) < 2 ^ 63 \<Longrightarrow>
    index_ok R (v (broken_attempts R attempts cs s)) \<and> count_ok (v (broken_attempts R attempts cs s)) \<and>
    entity_total (v (broken_attempts R attempts cs s)) \<le> entity_total (v s) + int (length attempts * length cs)"
proof (induction attempts arbitrary: s)
  case Nil
  then show ?case by (simp add: broken_attempts_def)
next
  case (Cons n attempts)
  let ?s' = "snd (run_cmds R (take n cs) s)"
  have part: "\<forall>k \<in> set (take n cs). cmd_ok R k \<and> counts_alone k" using ok by (meson in_set_takeD)
  have len: "int (length (take n cs)) \<le> int (length cs)" by simp
  have "entity_total (v s) + int (length (take n cs)) < 2 ^ 63"
  proof -
    have "int (length (n # attempts) * length cs) = int (length cs) + int (length attempts * length cs)" by simp
    with Cons.prems(3) len show ?thesis by linarith
  qed
  from run_cmds_counts[OF R Cons.prems(1) part Cons.prems(2) this]
  have c: "count_ok (v ?s')" "entity_total (v ?s') \<le> entity_total (v s) + int (length cs)" using len by linarith+
  have "\<forall>k \<in> set (take n cs). cmd_ok R k" using part by blast
  from run_cmds_refines[OF R Cons.prems(1) this] have "index_ok R (v ?s')" by blast
  moreover have "entity_total (v ?s') + int (length attempts * length cs) < 2 ^ 63" using c(2) Cons.prems(3) by simp
  moreover have "broken_attempts R (n # attempts) cs s = broken_attempts R attempts cs ?s'" by (simp add: broken_attempts_def)
  ultimately show ?case using Cons.IH[of ?s'] c by simp
qed

text \<open>
  Claim C4: a pipe of well-formed operations that does not write the counter itself keeps it equal to the
  number of entities, wherever its connection breaks and however often it is sent again, when the
  counter has room for the commands of all attempts. (The last pipe of a snapshot, \<open>done_pipe\<close>, is
  the only one of the program that does write it.)
\<close>

theorem Exec_counts:
  assumes R: "redis_ok R v" and c: "index_ok R (v s)" and p: "pipe_ok R p"
    and alone: "\<forall>k \<in> set (p_cmds p). counts_alone k"
    and n: "count_ok (v s)" and room: "entity_total (v s) + int (Suc (length attempts) * length (p_cmds p)) < 2 ^ 63"
    and run: "Exec R attempts lost p s = (err, s')"
  shows "count_ok (v s') \<and> entity_total (v s') \<le> entity_total (v s) + int (Suc (length attempts) * length (p_cmds p))"
proof (cases "p_err p = None \<and> p_cmds p \<noteq> []")
  case True
  let ?s1 = "broken_attempts R attempts (p_cmds p) s"
  have s': "s' = (if lost then ?s1 else snd (run_cmds R (p_cmds p) ?s1))"
    using True run by (auto simp: Exec_def Let_def split: prod.splits if_splits)
  have ok: "\<forall>k \<in> set (p_cmds p). cmd_ok R k \<and> counts_alone k"
    using p alone by (simp add: pipe_ok_def)
  have "entity_total (v s) + int (length attempts * length (p_cmds p)) < 2 ^ 63" using room by simp
  from broken_attempts_counts[OF R ok c n this]
  have b: "index_ok R (v ?s1)" "count_ok (v ?s1)" "entity_total (v ?s1) \<le> entity_total (v s) + int (length attempts * length (p_cmds p))"
    by blast+
  have "entity_total (v ?s1) + int (length (p_cmds p)) < 2 ^ 63" using b(3) room by simp
  from run_cmds_counts[OF R b(1) ok b(2) this] b(2,3) show ?thesis by (simp add: s')
next
  case False
  then have "s' = s" using run by (auto simp: Exec_def split: option.splits)
  with n show ?thesis by simp
qed

section \<open>Witnesses\<close>

lemma index_ok_empty: "index_ok R no_content"
  by (simp add: index_ok_def entities_ok_def lists_ok_def members_def index_entry_ids_def
      index_entry_ok_def entity_keys_def)

lemma example_index: "index_ok mem_redis no_content"
  by (rule index_ok_empty)

lemma count_ok_empty: "count_ok no_content"
  by (simp add: count_ok_def entity_count_def hash_value_def int64_def)

abbreviation example_mappings :: "string list" where
  "example_mappings \<equiv> [''P345:nm0010930'', ''P646:/m/0282x'']"

abbreviation example_pipe :: Pipe where
  "example_pipe \<equiv>
     UpsertEntity \<lparr>er_WikidataID = ''Q42'', er_Mappings = example_mappings\<rparr> \<lparr>p_err = None, p_cmds = []\<rparr>"

lemma example_utf8: "\<forall>e \<in> set example_mappings. utf8_ok e"
  by (simp add: utf8_ok_ascii ascii_def)

lemma example_checks: "check_mappings ''Q42'' example_mappings = None"
  by (simp add: parseFlatMappingEntry_def HasPrefix_def ParseInt_def ParseUint_def digit_val_def Let_def)

lemmas example_canonical = canonical_mappings_ok[OF mem_cjson_ok example_checks example_utf8]

lemma example_pipe_ok: "pipe_ok mem_redis example_pipe"
  by (rule pipe_ok_upsert[OF _ mem_cjson_ok]) (simp_all add: pipe_ok_def utf8_ok_ascii ascii_def)

lemma example_qid: "qidToInt ''Q42'' = Inr 42"
  by (simp add: qidToInt_def ParseInt_def ParseUint_def digit_val_def Let_def)

lemma example_pipe_cmds:
  "p_cmds example_pipe = [RunUpsert (canonicalMappingsJSON example_mappings) (FormatInt 42)]"
  unfolding UpsertEntity_def by (simp add: example_qid example_checks queue_def del: check_mappings.simps)

text \<open>The database after the example pipe.\<close>

definition example_db :: content where
  "example_db = snd (Exec mem_redis [] False example_pipe no_content)"

lemma example_db:
  "index_ok mem_redis example_db"
  "entities example_db = [FormatInt 42 \<mapsto> canonicalMappingsJSON example_mappings]"
proof -
  have ok: "\<forall>k \<in> set (p_cmds example_pipe). cmd_ok mem_redis k"
    using example_pipe_ok by (simp add: pipe_ok_def)
  have idx: "index_ok mem_redis (id no_content)" by (simp add: example_index)
  have err: "p_err example_pipe = None"
    unfolding UpsertEntity_def by (simp add: example_qid example_checks queue_def del: check_mappings.simps)
  note ref = Exec_refines[OF mem_redis_ok idx ok, of "[]" False]
  show "index_ok mem_redis example_db" using ref(2) by (simp add: example_db_def)
  have "abstract example_db = cmd_spec (RunUpsert (canonicalMappingsJSON example_mappings) (FormatInt 42)) (abstract no_content)"
    using ref(1) unfolding example_db_def exec_prefixes_def err example_pipe_cmds by (simp add: prefixes_spec_def)
  then have "a_entities (abstract example_db) = [FormatInt 42 \<mapsto> canonicalMappingsJSON example_mappings]"
    by (simp add: change_entity_def)
  then show "entities example_db = [FormatInt 42 \<mapsto> canonicalMappingsJSON example_mappings]" by simp
qed

theorem upsertScript_correct_witness:
  "entities (snd (upsertScript mem_redis changelogKey (canonicalMappingsJSON example_mappings) (FormatInt 42) no_content))
     = [FormatInt 42 \<mapsto> canonicalMappingsJSON example_mappings]"
proof -
  obtain reply s' where run: "upsertScript mem_redis changelogKey (canonicalMappingsJSON example_mappings)
      (FormatInt 42) no_content = (reply, s')" by fastforce
  have "entities (id s') = (entities (id no_content))(FormatInt 42 := Some (canonicalMappingsJSON example_mappings))"
    using upsertScript_correct[OF mem_redis_ok _ _ _ _ example_canonical(1) run] example_index count_ok_empty
      eid_ok_FormatInt[of 42] by (simp add: entity_total_def)
  with run show ?thesis by simp
qed

theorem deleteScript_correct_witness:
  "fst (deleteScript mem_redis changelogKey (FormatInt 42) no_content) = LuaInt 0"
proof -
  obtain reply s' where run: "deleteScript mem_redis changelogKey (FormatInt 42) no_content = (reply, s')"
    by fastforce
  have "reply = LuaInt 0"
    using deleteScript_correct[OF mem_redis_ok _ _ run] example_index count_ok_empty by simp
  with run show ?thesis by simp
qed

theorem Exec_keeps_store_witness:
  "index_ok mem_redis (snd (Exec mem_redis [1, 0] False example_pipe no_content))"
proof -
  obtain err s' where run: "Exec mem_redis [1, 0] False example_pipe no_content = (err, s')" by fastforce
  have "index_ok mem_redis s'"
    using Exec_keeps_store[OF mem_redis_ok _ example_pipe_ok run] example_index by simp
  with run show ?thesis by simp
qed

theorem Exec_counts_witness:
  "count_ok (snd (Exec mem_redis [1, 0] False example_pipe no_content))"
proof -
  obtain err s' where run: "Exec mem_redis [1, 0] False example_pipe no_content = (err, s')" by fastforce
  have "\<forall>k \<in> set (p_cmds example_pipe). counts_alone k" "length (p_cmds example_pipe) = 1"
    unfolding example_pipe_cmds by simp_all
  then have "count_ok s'"
    using Exec_counts[OF mem_redis_ok _ example_pipe_ok _ _ _ run] example_index count_ok_empty
    by (simp add: entity_total_def)
  with run show ?thesis by simp
qed

end
