(* ===== verification/Admin.thy ===== *)
theory Admin
  imports Changes
begin

text \<open>
  The writer's operations that do not go through a pipe (\<open>internal/store/writer.go\<close>): flushing,
  schema migration, and the changelog trimmer. Each call to the database may be refused, or
  carried out with its reply lost; the callers' arguments of type \<open>call\<close> say which.

  The trimmer's cycle is characterised exactly, and a number of cycles that is enough to drain
  a backlog is given.
\<close>

section \<open>Single calls\<close>

datatype call = Answered | Refused | ReplyLost

definition send :: "call \<Rightarrow> ('s \<Rightarrow> 's) \<Rightarrow> 's \<Rightarrow> bool \<times> 's" where
  "send c f s = (case c of Answered \<Rightarrow> (True, f s) | Refused \<Rightarrow> (False, s) | ReplyLost \<Rightarrow> (False, f s))"

lemma send_simps [simp]:
  "send Answered f s = (True, f s)" "send Refused f s = (False, s)" "send ReplyLost f s = (False, f s)"
  by (simp_all add: send_def)

definition conn_error :: "string \<Rightarrow> store_error" where
  "conn_error what = StoreOp what (ConnError ''connection lost'')"

section \<open>Flush and migration\<close>

definition SchemaVersion :: string where
  "SchemaVersion = ''v12-many-to-many-props''"

definition FlushDataContext :: "'s redis \<Rightarrow> call \<Rightarrow> call \<Rightarrow> 's \<Rightarrow> store_error option \<times> 's" where
  "FlushDataContext R c1 c2 s =
     (case send c1 (r_flushdb R) s of
        (False, s1) \<Rightarrow> (Some (conn_error ''flush database''), s1)
      | (True, s1) \<Rightarrow>
          (case send c2 (r_hset R metaKey ''schema_version'' SchemaVersion) s1 of
             (False, s2) \<Rightarrow> (Some (conn_error ''hset''), s2)
           | (True, s2) \<Rightarrow> (None, s2)))"

definition MigrateSchema :: "'s redis \<Rightarrow> call \<Rightarrow> call \<Rightarrow> call \<Rightarrow> 's \<Rightarrow> store_error option \<times> 's" where
  "MigrateSchema R c0 c1 c2 s =
     (if c0 \<noteq> Answered then (Some (conn_error ''read schema version''), s)
      else if r_hget R metaKey ''schema_version'' s = Some SchemaVersion then (None, s)
      else
        (case send c1 (r_flushdb R) s of
           (False, s1) \<Rightarrow> (Some (conn_error ''flush database''), s1)
         | (True, s1) \<Rightarrow>
             (case send c2 (r_hset R metaKey ''schema_version'' SchemaVersion) s1 of
                (False, s2) \<Rightarrow> (Some (conn_error ''hset''), s2)
              | (True, s2) \<Rightarrow> (None, s2))))"

text \<open>A fresh database holds the schema version and nothing else.\<close>

definition fresh_content :: content where
  "fresh_content = put_hash metaKey [''schema_version'' \<mapsto> SchemaVersion] no_content"

lemma view_flush:
  assumes R: "redis_ok R v"
  shows "v (r_hset R metaKey ''schema_version'' SchemaVersion (r_flushdb R s)) = fresh_content"
  by (simp add: redis_hash(2)[OF R] redis_hash(5)[OF R] fresh_content_def)

lemma fresh_store [simp]:
  "index_ok R fresh_content" "count_ok fresh_content" "entities fresh_content = (\<lambda>_. None)"
  "streams fresh_content = (\<lambda>_. [])" "rsets fresh_content = (\<lambda>_. {})"
  "hashes fresh_content metaKey = [''schema_version'' \<mapsto> SchemaVersion]"
proof -
  have "index_ok R fresh_content = index_ok R no_content"
    by (rule index_ok_cong) (auto simp: fresh_content_def)
  then show "index_ok R fresh_content" by (simp add: index_ok_empty)
  show "count_ok fresh_content"
    by (simp add: count_ok_def entity_count_def hash_value_def int64_def fresh_content_def)
qed (simp_all add: fresh_content_def no_content_def)

text \<open>
  \<open>MigrateSchema\<close> leaves a database of this schema untouched; a database of another schema,
  or of none, ends up with the schema version alone, unless a call fails, and then a later
  migration that gets through still ends there.
\<close>

theorem MigrateSchema_correct:
  assumes R: "redis_ok R v" and run: "MigrateSchema R c0 c1 c2 s = (err, s')"
  shows "(hashes (v s) metaKey ''schema_version'' = Some SchemaVersion \<longrightarrow> s' = s) \<and>
    (hashes (v s) metaKey ''schema_version'' \<noteq> Some SchemaVersion \<longrightarrow> err = None \<longrightarrow> v s' = fresh_content) \<and>
    (err \<noteq> None \<longrightarrow> v s' \<in> {v s, no_content, fresh_content} \<and>
      (hashes (v s) metaKey ''schema_version'' \<noteq> Some SchemaVersion \<longrightarrow>
        v (snd (MigrateSchema R Answered Answered Answered s')) = fresh_content))"
proof -
  have "v (snd (MigrateSchema R Answered Answered Answered s')) = fresh_content"
    if "v s' \<in> {v s, no_content, fresh_content}" "hashes (v s) metaKey ''schema_version'' \<noteq> Some SchemaVersion"
    using that by (auto simp: MigrateSchema_def redis_hash(1)[OF R] view_flush[OF R])
  moreover have "v s' \<in> {v s, no_content, fresh_content}"
    using run by (cases c1; cases c2)
      (auto simp: MigrateSchema_def redis_hash(5)[OF R] view_flush[OF R] split: if_splits)
  ultimately show ?thesis
    using run by (cases c1; cases c2)
      (auto simp: MigrateSchema_def redis_hash(1)[OF R] view_flush[OF R] split: if_splits)
qed

section \<open>The changelog trimmer\<close>

definition trimBatchSize :: nat where "trimBatchSize = 10000"

text \<open>
  \<open>StreamTrimOlderThan\<close>: a bounded \<open>XRANGE\<close> for the old entries, then \<open>XTRIM MINID\<close> up to the
  last of them.
\<close>

definition StreamTrimOlderThan ::
  "'s redis \<Rightarrow> call \<Rightarrow> call \<Rightarrow> string \<Rightarrow> nat \<Rightarrow> 's \<Rightarrow> (store_error + nat) \<times> 's" where
  "StreamTrimOlderThan R c1 c2 minID limit s =
     (if c1 \<noteq> Answered then (Inl (conn_error ''xrange''), s)
      else
        let old = r_xrange_before R changelogKey minID (limit + 1) s in
        if old = [] then (Inr 0, s)
        else
          let trimID = fst (last old) in
          (case c2 of
             Answered \<Rightarrow> (case r_xtrim_minid R changelogKey trimID s of (n, s') \<Rightarrow> (Inr n, s'))
           | Refused \<Rightarrow> (Inl (conn_error ''xtrim''), s)
           | ReplyLost \<Rightarrow> (Inl (conn_error ''xtrim''), snd (r_xtrim_minid R changelogKey trimID s))))"

definition TrimChangelog :: "'s redis \<Rightarrow> call \<Rightarrow> 's \<Rightarrow> store_error option \<times> 's" where
  "TrimChangelog R c s =
     (case send c (r_del R changelogKey) s of
        (True, s') \<Rightarrow> (None, s')
      | (False, s') \<Rightarrow> (Some (conn_error ''del''), s'))"

text \<open>
  One turn of \<open>RunChangelogTrimmer\<close>: trim with the cutoff of this moment (times in milliseconds)
  and choose the delay to the next turn.
\<close>

datatype trim_delay = TrimInterval | TrimBacklogDelay | TrimErrorDelay

definition trimmer_turn ::
  "'s redis \<Rightarrow> call \<Rightarrow> call \<Rightarrow> int \<Rightarrow> int \<Rightarrow> 's \<Rightarrow> trim_delay \<times> 's" where
  "trimmer_turn R c1 c2 retention now s =
     (let minID = FormatInt (now - retention) @ ''-0'' in
      (case StreamTrimOlderThan R c1 c2 minID trimBatchSize s of
         (Inl _, s') \<Rightarrow> (TrimErrorDelay, s')
       | (Inr n, s') \<Rightarrow> (if trimBatchSize \<le> n then TrimBacklogDelay else TrimInterval, s')))"

text \<open>Stream IDs as the server makes them: well formed and growing.\<close>

definition ids_ok :: "stream_entry list \<Rightarrow> bool" where
  "ids_ok es \<longleftrightarrow> ids_increasing es \<and> (\<forall>e \<in> set es. \<exists>t. sid64 t \<and> fst e = sid_str t)"

definition older :: "sid \<Rightarrow> stream_entry list \<Rightarrow> stream_entry list" where
  "older t es = filter (\<lambda>e. sid_less (sid_of (fst e)) t) es"

lemma ids_ok_Cons:
  "ids_ok (e # es) \<Longrightarrow> ids_ok es \<and> (\<forall>x \<in> set es. sid_less (sid_of (fst e)) (sid_of (fst x)))"
  by (simp add: ids_ok_def ids_increasing_def)

lemma ids_okD:
  "ids_ok es \<Longrightarrow> e \<in> set es \<Longrightarrow> sid64 (sid_of (fst e)) \<and> fst e = sid_str (sid_of (fst e))"
  unfolding ids_ok_def by (metis sid_of_sid_str)

lemma ids_ok_append: "ids_ok (xs @ ys) \<Longrightarrow> ids_ok xs \<and> ids_ok ys"
  by (simp add: ids_ok_def ids_increasing_def sorted_wrt_append)

lemma ids_ok_drop: "ids_ok es \<Longrightarrow> ids_ok (drop n es)"
  using ids_ok_append[of "take n es" "drop n es"] by simp

lemma older_take:
  assumes "ids_ok es"
  shows "older t es = take (length (older t es)) es"
  using assms
proof (induction es)
  case Nil
  then show ?case by (simp add: older_def)
next
  case (Cons e es)
  show ?case
  proof (cases "sid_less (sid_of (fst e)) t")
    case True
    with Cons ids_ok_Cons[OF Cons.prems] show ?thesis by (simp add: older_def)
  next
    case False
    have "\<not> sid_less (sid_of (fst x)) t" if "x \<in> set es" for x
      using ids_ok_Cons[OF Cons.prems] that False sid_less_trans by blast
    then have "older t (e # es) = []" using False by (simp add: older_def)
    then show ?thesis by simp
  qed
qed

text \<open>Cutting at the ID of the entry at position \<open>n\<close> removes the \<open>n\<close> entries before it.\<close>

lemma older_nth:
  assumes "ids_ok es" "n < length es"
  shows "older (sid_of (fst (es ! n))) es = take n es"
    and "filter (\<lambda>e. \<not> sid_less (sid_of (fst e)) (sid_of (fst (es ! n)))) es = drop n es"
proof -
  have inc: "sorted_wrt (\<lambda>a b. sid_less (sid_of (fst a)) (sid_of (fst b))) es"
    using assms(1) by (simp add: ids_ok_def ids_increasing_def)
  have lt: "sid_less (sid_of (fst e)) (sid_of (fst (es ! n)))" if "e \<in> set (take n es)" for e
  proof -
    from that obtain i where "i < n" "e = es ! i" "i < length es"
      using assms(2) by (auto simp: in_set_conv_nth)
    then show ?thesis using sorted_wrt_nth_less[OF inc] assms(2) by blast
  qed
  have ge: "\<not> sid_less (sid_of (fst e)) (sid_of (fst (es ! n)))" if "e \<in> set (drop n es)" for e
  proof -
    from that obtain j where "j < length (drop n es)" "e = drop n es ! j"
      by (auto simp: in_set_conv_nth)
    then have j: "n + j < length es" "e = es ! (n + j)" by auto
    show ?thesis
    proof (cases "j = 0")
      case True
      with j show ?thesis by simp
    next
      case False
      then have "sid_less (sid_of (fst (es ! n))) (sid_of (fst e))"
        using sorted_wrt_nth_less[OF inc, of n "n + j"] j by simp
      then show ?thesis using sid_less_trans sid_less_irrefl by blast
    qed
  qed
  have split: "es = take n es @ drop n es" by simp
  have f: "filter (\<lambda>e. sid_less (sid_of (fst e)) (sid_of (fst (es ! n)))) (take n es) = take n es"
    "filter (\<lambda>e. sid_less (sid_of (fst e)) (sid_of (fst (es ! n)))) (drop n es) = []"
    using lt ge by (auto simp: filter_id_conv filter_empty_conv)
  have g: "filter (\<lambda>e. \<not> sid_less (sid_of (fst e)) (sid_of (fst (es ! n)))) (take n es) = []"
    "filter (\<lambda>e. \<not> sid_less (sid_of (fst e)) (sid_of (fst (es ! n)))) (drop n es) = drop n es"
    using lt ge by (auto simp: filter_id_conv filter_empty_conv)
  show "older (sid_of (fst (es ! n))) es = take n es"
    unfolding older_def by (subst split, subst filter_append) (simp only: f append_Nil2)
  show "filter (\<lambda>e. \<not> sid_less (sid_of (fst e)) (sid_of (fst (es ! n)))) es = drop n es"
    by (subst (2) split, subst filter_append) (simp only: g append_Nil)
qed

lemma last_take_nth: "0 < m \<Longrightarrow> m \<le> length xs \<Longrightarrow> last (take m xs) = xs ! (m - 1)"
  by (subst last_conv_nth) auto

lemma take_older:
  assumes "ids_ok es" "n \<le> length (older t es)"
  shows "take n es = take n (older t es)"
proof -
  have "take n es = take n (take (length (older t es)) es)" using assms(2) by (simp add: min_absorb1)
  then show ?thesis using older_take[OF assms(1), of t] by simp
qed

text \<open>What one trim removes, whether or not its reply arrives.\<close>

lemma trim_cut:
  assumes R: "redis_ok R v" and ids: "ids_ok (streams (v s) changelogKey)" and t: "sid64 t"
    and old: "old = r_xrange_before R changelogKey (sid_str t) (limit + 1) s" "old \<noteq> []"
    and x: "r_xtrim_minid R changelogKey (fst (last old)) s = (n, s')"
  shows "n = min limit (length (older t (streams (v s) changelogKey)) - 1)"
    and "v s' = put_stream changelogKey (drop n (streams (v s) changelogKey)) (v s)"
proof -
  let ?es = "streams (v s) changelogKey"
  let ?m = "min (limit + 1) (length (older t ?es))"
  have "old = take (limit + 1) (older t ?es)"
    using redis_range(4)[OF R t] by (simp add: old(1) older_def)
  also have "\<dots> = take (limit + 1) (take (length (older t ?es)) ?es)"
    using older_take[OF ids, of t] by (rule arg_cong)
  finally have old': "old = take ?m ?es" by (simp add: min.commute)
  have len: "length (older t ?es) \<le> length ?es" by (simp add: older_def)
  with old(2) old' have m: "0 < ?m" "?m \<le> length ?es" by auto
  have "last old = ?es ! (?m - 1)" unfolding old' by (rule last_take_nth[OF m])
  moreover have at: "?m - 1 < length ?es" using m by linarith
  ultimately have id: "fst (last old) = sid_str (sid_of (fst (?es ! (?m - 1))))"
    "sid64 (sid_of (fst (?es ! (?m - 1))))"
    using ids_okD[OF ids nth_mem[OF at]] by simp_all
  note cut = redis_xtrim[OF R id(2) x[unfolded id(1)]]
  from cut(1) older_nth(1)[OF ids at] have n: "n = ?m - 1"
    using at by (simp add: older_def[symmetric])
  moreover have "min (limit + 1) l - 1 = min limit (l - 1)" for l :: nat by (auto simp: min_def)
  ultimately show "n = min limit (length (older t ?es) - 1)" by simp
  show "v s' = put_stream changelogKey (drop n ?es) (v s)"
    using cut(2) older_nth(2)[OF ids at] n by simp
qed

lemma trim_exact:
  assumes R: "redis_ok R v" and ids: "ids_ok (streams (v s) changelogKey)" and t: "sid64 t"
    and run: "StreamTrimOlderThan R Answered Answered (sid_str t) limit s = (out, s')"
  shows "out = Inr (min limit (length (older t (streams (v s) changelogKey)) - 1))"
    and "v s' = put_stream changelogKey
      (drop (min limit (length (older t (streams (v s) changelogKey)) - 1)) (streams (v s) changelogKey)) (v s)"
proof -
  let ?es = "streams (v s) changelogKey"
  let ?old = "r_xrange_before R changelogKey (sid_str t) (limit + 1) s"
  have old: "?old = take (limit + 1) (older t ?es)"
    using redis_range(4)[OF R t] by (simp add: older_def)
  have "out = Inr (min limit (length (older t ?es) - 1)) \<and>
    v s' = put_stream changelogKey (drop (min limit (length (older t ?es) - 1)) ?es) (v s)"
  proof (cases "?old = []")
    case True
    then have "older t ?es = []" using old by simp
    moreover have "out = Inr 0" "s' = s" using run True by (simp_all add: StreamTrimOlderThan_def)
    ultimately show ?thesis by (simp add: put_stream_def)
  next
    case False
    obtain n s2 where x: "r_xtrim_minid R changelogKey (fst (last ?old)) s = (n, s2)" by fastforce
    with False run have "out = Inr n" "s' = s2"
      by (simp_all add: StreamTrimOlderThan_def Let_def)
    with trim_cut[OF R ids t refl False x] show ?thesis by simp
  qed
  then show "out = Inr (min limit (length (older t ?es) - 1))"
    "v s' = put_stream changelogKey (drop (min limit (length (older t ?es) - 1)) ?es) (v s)" by blast+
qed

text \<open>
  A trim removes at most \<open>limit\<close> entries, all from the head of the changelog and all older than
  the cutoff, reports their exact number, and never removes the newest of the old entries, so
  that a changelog that has entries keeps one; nothing else in the database changes. A trim
  whose calls fail removes the same entries or none.
\<close>

theorem StreamTrimOlderThan_correct:
  assumes R: "redis_ok R v" and ids: "ids_ok es" and t: "sid64 t"
    and es: "es = streams (v s) changelogKey" and n: "n = min limit (length (older t es) - 1)"
    and run: "StreamTrimOlderThan R c1 c2 (sid_str t) limit s = (out, s')"
  shows "(v s' = put_stream changelogKey (drop n es) (v s) \<or> (c1, c2) \<noteq> (Answered, Answered) \<and> s' = s) \<and>
    ((c1, c2) = (Answered, Answered) \<longrightarrow> out = Inr n) \<and>
    take n es = take n (older t es) \<and> n \<le> limit \<and> (es \<noteq> [] \<longrightarrow> drop n es \<noteq> [])"
proof (intro conjI)
  have len: "length (older t es) \<le> length es" by (simp add: older_def)
  show "take n es = take n (older t es)" by (rule take_older[OF ids]) (simp add: n)
  show "es \<noteq> [] \<longrightarrow> drop n es \<noteq> []" using len by (cases es) (auto simp: n)
  show "n \<le> limit" by (simp add: n)
  note ids' = ids[unfolded es]
  show "(c1, c2) = (Answered, Answered) \<longrightarrow> out = Inr n"
    using trim_exact(1)[OF R ids' t] run by (auto simp: n es)
  let ?old = "r_xrange_before R changelogKey (sid_str t) (limit + 1) s"
  show "v s' = put_stream changelogKey (drop n es) (v s) \<or> (c1, c2) \<noteq> (Answered, Answered) \<and> s' = s"
  proof (cases "c1 = Answered \<and> c2 = Answered")
    case True
    with run trim_exact(2)[OF R ids' t] show ?thesis by (simp add: n es)
  next
    case failed: False
    show ?thesis
    proof (cases "c1 = Answered \<and> c2 = ReplyLost \<and> ?old \<noteq> []")
      case True
      obtain k s2 where x: "r_xtrim_minid R changelogKey (fst (last ?old)) s = (k, s2)" by fastforce
      with run True have "s' = s2" by (simp add: StreamTrimOlderThan_def Let_def)
      with trim_cut[OF R ids' t refl _ x] True show ?thesis by (simp add: n es)
    next
      case False
      with run failed show ?thesis
        by (cases c1; cases c2) (auto simp: StreamTrimOlderThan_def Let_def split: if_splits)
    qed
  qed
qed

section \<open>Draining a backlog\<close>

fun trim_turns :: "'s redis \<Rightarrow> string \<Rightarrow> nat \<Rightarrow> nat \<Rightarrow> 's \<Rightarrow> 's" where
  "trim_turns R minID limit 0 s = s"
| "trim_turns R minID limit (Suc k) s =
     trim_turns R minID limit k (snd (StreamTrimOlderThan R Answered Answered minID limit s))"

lemma older_drop:
  assumes "ids_ok es" "n \<le> length (older t es)"
  shows "older t (drop n es) = drop n (older t es)"
proof -
  have n: "take n es = take n (older t es)" by (rule take_older[OF assms])
  have "\<forall>x \<in> set (take n (older t es)). sid_less (sid_of (fst x)) t"
  proof
    fix x
    assume "x \<in> set (take n (older t es))"
    then have "x \<in> set (older t es)" by (rule in_set_takeD)
    then show "sid_less (sid_of (fst x)) t" by (simp add: older_def)
  qed
  then have "older t (take n (older t es)) = take n (older t es)"
    unfolding older_def[of t "take n (older t es)"] by (rule filter_True)
  then have a: "older t (take n es) = take n (older t es)" by (subst n)
  have b: "older t es = older t (take n es) @ older t (drop n es)"
    unfolding older_def filter_append[symmetric] by simp
  have "take n (older t es) @ drop n (older t es) = take n (older t es) @ older t (drop n es)"
    by (rule trans[OF append_take_drop_id b[unfolded a]])
  then show ?thesis by (simp only: same_append_eq)
qed

text \<open>
  Claim C40: with a positive batch size, a number of turns that covers the old entries leaves at most one
  entry older than the cutoff, whatever the backlog was, and everything that is not older.
\<close>

theorem trim_turns_drain:
  assumes R: "redis_ok R v" and ids: "ids_ok (streams (v s) changelogKey)" and t: "sid64 t"
    and k: "length (older t (streams (v s) changelogKey)) \<le> k * limit + 1"
    and s': "s' = trim_turns R (sid_str t) limit k s"
  shows "streams (v s') changelogKey
      = drop (length (older t (streams (v s) changelogKey)) - 1) (streams (v s) changelogKey) \<and>
    length (older t (streams (v s') changelogKey)) \<le> 1"
proof -
  have "streams (v (trim_turns R (sid_str t) limit k s)) changelogKey
      = drop (length (older t (streams (v s) changelogKey)) - 1) (streams (v s) changelogKey)"
    using ids k
  proof (induction k arbitrary: s)
    case 0
    then show ?case by simp
  next
    case (Suc k)
    define es where "es = streams (v s) changelogKey"
    define l where "l = length (older t es)"
    define n where "n = min limit (l - 1)"
    obtain out s1 where run: "StreamTrimOlderThan R Answered Answered (sid_str t) limit s = (out, s1)"
      by fastforce
    have ids': "ids_ok es" using Suc.prems(1) by (simp add: es_def)
    have es1: "streams (v s1) changelogKey = drop n es"
      using trim_exact(2)[OF R Suc.prems(1) t run] by (simp add: n_def l_def es_def)
    have "n \<le> length (older t es)" by (simp add: n_def l_def)
    from older_drop[OF ids' this]
    have len1: "length (older t (streams (v s1) changelogKey)) = l - n"
      unfolding es1 by (simp add: l_def)
    have "l \<le> Suc k * limit + 1" using Suc.prems(2) by (simp add: l_def es_def)
    then have "length (older t (streams (v s1) changelogKey)) \<le> k * limit + 1"
      unfolding len1 by (auto simp: n_def min_def)
    moreover have "ids_ok (streams (v s1) changelogKey)" unfolding es1 by (rule ids_ok_drop[OF ids'])
    ultimately have "streams (v (trim_turns R (sid_str t) limit k s1)) changelogKey
      = drop (l - n - 1) (drop n es)"
      using Suc.IH[of s1] len1 es1 by simp
    moreover have "l - n - 1 + n = l - 1" by (auto simp: n_def min_def)
    ultimately show ?case using run by (simp add: l_def[symmetric] es_def[symmetric])
  qed
  with older_drop[OF ids, of "length (older t (streams (v s) changelogKey)) - 1" t]
  show ?thesis unfolding s' by simp
qed

section \<open>Witnesses\<close>

definition example_stream :: "stream_entry list" where
  "example_stream = [(sid_str (1, 0), []), (sid_str (2, 0), []), (sid_str (3, 0), [])]"

abbreviation example_log :: content where
  "example_log \<equiv> put_stream changelogKey example_stream no_content"

lemma example_ids [simp]: "ids_ok example_stream"
proof -
  have "sid64 (1, 0)" "sid64 (2, 0)" "sid64 (3, 0)" by (simp_all add: sid64_def)
  then have "\<forall>e \<in> set example_stream. \<exists>t. sid64 t \<and> fst e = sid_str t"
    unfolding example_stream_def by (metis fst_conv list.set_cases set_ConsD emptyE list.set(1))
  then show ?thesis
    by (simp add: ids_ok_def ids_increasing_def example_stream_def sid64_def sid_less_def)
qed

lemma example_older: "older (3, 0) example_stream = take 2 example_stream"
  by (simp add: older_def example_stream_def sid64_def sid_less_def)

theorem MigrateSchema_correct_witness:
  "snd (MigrateSchema mem_redis Answered Answered Answered no_content) = fresh_content"
proof -
  obtain err s' where run: "MigrateSchema mem_redis Answered Answered Answered no_content = (err, s')" by fastforce
  have "err = None" using run by (simp add: MigrateSchema_def)
  with MigrateSchema_correct[OF mem_redis_ok run] have "s' = fresh_content" by simp
  with run show ?thesis by simp
qed

theorem StreamTrimOlderThan_correct_witness:
  "fst (StreamTrimOlderThan mem_redis Answered Answered (sid_str (3, 0)) 10 example_log) = Inr 1"
proof -
  obtain out s' where run:
    "StreamTrimOlderThan mem_redis Answered Answered (sid_str (3, 0)) 10 example_log = (out, s')" by fastforce
  have "length example_stream = 3" by (simp add: example_stream_def)
  then have "1 = min 10 (length (older (3, 0) example_stream) - 1)" by (simp add: example_older)
  from StreamTrimOlderThan_correct[OF mem_redis_ok example_ids _ _ this run]
  have "out = Inr 1" by (simp add: sid64_def)
  with run show ?thesis by simp
qed

theorem trim_turns_drain_witness:
  "streams (trim_turns mem_redis (sid_str (3, 0)) 1 1 example_log) changelogKey = drop 1 example_stream"
proof -
  have l: "length (older (3, 0) example_stream) = 2"
    unfolding example_older by (simp add: example_stream_def)
  have "sid64 (3, 0)" by (simp add: sid64_def)
  from trim_turns_drain[OF mem_redis_ok _ this _ refl, of example_log 1 1] l show ?thesis by simp
qed

end
