(* ===== verification/WorkQueue.thy ===== *)
theory WorkQueue
  imports Admin
begin

text \<open>
  The work queue of entities: a pending and a processing set in the database. The locale
  \<open>work_queue\<close> is the contract between the writer (\<open>claimScript\<close>, \<open>ClaimPendingBatch\<close>,
  \<open>RecoverProcessing\<close> and the pipe's enqueue and ack) and the watcher that drives it: members
  move between the sets and leave them only by an acknowledgement. The writer's definitions
  interpret it.
\<close>

section \<open>Operations\<close>

text \<open>Members that are no numbers are skipped; the others come back as QIDs.\<close>

fun parse_members :: "string list \<Rightarrow> string list" where
  "parse_members [] = []"
| "parse_members (m # ms) =
     (case ParseInt m of
        (ident, None) \<Rightarrow> intToQid ident # parse_members ms
      | (_, Some _) \<Rightarrow> parse_members ms)"

definition ClaimPendingBatch :: "'s redis \<Rightarrow> call \<Rightarrow> nat \<Rightarrow> 's \<Rightarrow> (store_error + string list) \<times> 's" where
  "ClaimPendingBatch R c limit s =
     (case c of
        Answered \<Rightarrow>
          (case claimScript R pendingKey processingKey limit s of
             (result, s') \<Rightarrow> (Inr (parse_members result), s'))
      | Refused \<Rightarrow> (Inl (conn_error ''claim''), s)
      | ReplyLost \<Rightarrow> (Inl (conn_error ''claim''), snd (claimScript R pendingKey processingKey limit s)))"

definition RecoverProcessing :: "'s redis \<Rightarrow> call \<Rightarrow> call \<Rightarrow> 's \<Rightarrow> store_error option \<times> 's" where
  "RecoverProcessing R c1 c2 s =
     (case send c1 (r_sunionstore R pendingKey pendingKey processingKey) s of
        (False, s1) \<Rightarrow> (Some (conn_error ''recover processing set''), s1)
      | (True, s1) \<Rightarrow>
          (case send c2 (r_del R processingKey) s1 of
             (False, s2) \<Rightarrow> (Some (conn_error ''del''), s2)
           | (True, s2) \<Rightarrow> (None, s2)))"

section \<open>The contract\<close>

locale work_queue =
  fixes pend :: "'s \<Rightarrow> 'i set"
    and proc :: "'s \<Rightarrow> 'i set"
    and enq :: "'i list \<Rightarrow> 's \<Rightarrow> 's"
    and ack :: "'i list \<Rightarrow> 's \<Rightarrow> 's"
    and claim :: "nat \<Rightarrow> 's \<Rightarrow> 'i list \<times> 's"
    and recover :: "'s \<Rightarrow> 's"
    and inv :: "'s \<Rightarrow> bool"
  assumes fin: "inv s \<Longrightarrow> finite (pend s)"
    and enq: "inv s \<Longrightarrow> inv (enq xs s) \<and> pend (enq xs s) = pend s \<union> set xs \<and> proc (enq xs s) = proc s"
    and ack: "inv s \<Longrightarrow> inv (ack xs s) \<and> pend (ack xs s) = pend s \<and> proc (ack xs s) = proc s - set xs"
    and claim: "inv s \<Longrightarrow> claim n s = (xs, s') \<Longrightarrow>
      inv s' \<and> distinct xs \<and> set xs \<subseteq> pend s \<and> length xs = min n (card (pend s)) \<and>
      pend s' = pend s - set xs \<and> proc s' = proc s \<union> set xs"
    and recover: "inv s \<Longrightarrow> inv (recover s) \<and> pend (recover s) = pend s \<union> proc s \<and> proc (recover s) = {}"
begin

definition held :: "'s \<Rightarrow> 'i set" where
  "held s = pend s \<union> proc s"

lemma held_enq: "inv s \<Longrightarrow> held (enq xs s) = held s \<union> set xs"
  using enq[of s xs] by (auto simp: held_def)

lemma held_claim: "inv s \<Longrightarrow> claim n s = (xs, s') \<Longrightarrow> held s' = held s"
  using claim[of s n xs s'] by (auto simp: held_def)

lemma held_recover: "inv s \<Longrightarrow> held (recover s) = held s"
  using recover[of s] by (auto simp: held_def)

text \<open>Enqueueing before acknowledging never lets go of anything.\<close>

lemma requeue:
  assumes "inv s"
  shows "inv (ack xs (enq xs s))" "held s \<union> set xs = held (ack xs (enq xs s))"
    "set xs \<subseteq> pend (ack xs (enq xs s))" "set xs \<inter> proc (ack xs (enq xs s)) = {}"
  using enq[OF assms, of xs] ack[of "enq xs s" xs] by (auto simp: held_def)

fun claims :: "nat \<Rightarrow> nat \<Rightarrow> 's \<Rightarrow> 'i list list \<times> 's" where
  "claims n 0 s = ([], s)"
| "claims n (Suc k) s =
     (case claim n s of (xs, s1) \<Rightarrow> (case claims n k s1 of (xss, s2) \<Rightarrow> (xs # xss, s2)))"

text \<open>Enough claims empty the pending set; every member is claimed exactly once.\<close>

lemma claims_exhaust:
  assumes "inv s" "card (pend s) \<le> k * n"
  shows "inv (snd (claims n k s)) \<and> pend (snd (claims n k s)) = {} \<and>
    distinct (concat (fst (claims n k s))) \<and> set (concat (fst (claims n k s))) = pend s \<and>
    proc (snd (claims n k s)) = proc s \<union> pend s"
  using assms
proof (induction k arbitrary: s)
  case 0
  then have "pend s = {}" using fin by simp
  with 0 show ?case by simp
next
  case (Suc k)
  obtain xs s1 where c: "claim n s = (xs, s1)" by fastforce
  obtain xss s2 where cs: "claims n k s1 = (xss, s2)" by fastforce
  note law = claim[OF Suc.prems(1) c]
  have "card (pend s1) = card (pend s) - length xs"
    using law fin[OF Suc.prems(1)] by (simp add: card_Diff_subset distinct_card)
  then have "card (pend s1) \<le> k * n" using law Suc.prems(2) by (simp add: min_def split: if_splits)
  from Suc.IH[OF _ this] law cs have "inv s2 \<and> pend s2 = {} \<and> distinct (concat xss) \<and>
    set (concat xss) = pend s1 \<and> proc s2 = proc s1 \<union> pend s1" by simp
  with law show ?case by (auto simp: c cs)
qed

end

section \<open>The writer provides it\<close>

definition queue_inv :: "'s redis \<Rightarrow> ('s \<Rightarrow> content) \<Rightarrow> 's \<Rightarrow> bool" where
  "queue_inv R v s \<longleftrightarrow> redis_ok R v \<and> finite (rsets (v s) pendingKey) \<and> finite (rsets (v s) processingKey)"

definition enq_ids :: "'s redis \<Rightarrow> string list \<Rightarrow> 's \<Rightarrow> 's" where
  "enq_ids R ms = fold (r_sadd R pendingKey) ms"

definition ack_ids :: "'s redis \<Rightarrow> string list \<Rightarrow> 's \<Rightarrow> 's" where
  "ack_ids R ms = fold (r_srem R processingKey) ms"

definition recover_ids :: "'s redis \<Rightarrow> 's \<Rightarrow> 's" where
  "recover_ids R s = snd (RecoverProcessing R Answered Answered s)"

lemma queue_claim:
  assumes "queue_inv R v s" and run: "claimScript R pendingKey processingKey n s = (xs, s')"
  shows "queue_inv R v s' \<and> distinct xs \<and> set xs \<subseteq> rsets (v s) pendingKey \<and>
    length xs = min n (card (rsets (v s) pendingKey)) \<and>
    rsets (v s') pendingKey = rsets (v s) pendingKey - set xs \<and>
    rsets (v s') processingKey = rsets (v s) processingKey \<union> set xs"
proof -
  have R: "redis_ok R v" and fin: "finite (rsets (v s) pendingKey)" "finite (rsets (v s) processingKey)"
    using assms(1) by (simp_all add: queue_inv_def)
  obtain ms s1 where pop: "r_spop R pendingKey n s = (ms, s1)" by fastforce
  note law = redis_spop[OF R fin(1) pop]
  have "xs = ms" "s' = fold (r_sadd R processingKey) ms s1"
    using run pop by (auto simp: claimScript_def split: if_splits)
  then have v': "v s' = put_set processingKey (rsets (v s) processingKey \<union> set xs)
      (put_set pendingKey (rsets (v s) pendingKey - set xs) (v s))"
    by (simp add: view_fold_sadd[OF R] law(4))
  show ?thesis unfolding queue_inv_def v' using R fin law(1-3) \<open>xs = ms\<close> by simp
qed

interpretation wq: work_queue
  "\<lambda>s. rsets (v s) pendingKey" "\<lambda>s. rsets (v s) processingKey" "enq_ids R" "ack_ids R"
  "claimScript R pendingKey processingKey" "recover_ids R" "queue_inv R v" for R v
proof (unfold_locales, goal_cases)
  case (1 s)
  then show ?case by (simp add: queue_inv_def)
next
  case (2 s xs)
  then have R: "redis_ok R v" by (simp add: queue_inv_def)
  from 2 show ?case by (simp add: queue_inv_def enq_ids_def view_fold_sadd[OF R])
next
  case (3 s xs)
  then have R: "redis_ok R v" by (simp add: queue_inv_def)
  from 3 show ?case by (simp add: queue_inv_def ack_ids_def view_fold_srem[OF R])
next
  case (4 s n xs s')
  then show ?case by (rule queue_claim)
next
  case (5 s)
  then have R: "redis_ok R v" by (simp add: queue_inv_def)
  from 5 show ?case
    by (simp add: queue_inv_def recover_ids_def RecoverProcessing_def redis_set(3)[OF R] redis_hash(4)[OF R])
qed

section \<open>What the watcher relies on\<close>

definition queue_ids_ok :: "content \<Rightarrow> bool" where
  "queue_ids_ok c \<longleftrightarrow> (\<forall>m \<in> rsets c pendingKey. \<exists>n. int64 n \<and> m = FormatInt n)"

lemma parse_members_ids:
  assumes "\<forall>m \<in> set ms. \<exists>n. int64 n \<and> m = FormatInt n"
  shows "\<exists>ids. parse_members ms = map intToQid ids \<and> ms = map FormatInt ids \<and> (\<forall>n \<in> set ids. int64 n)"
  using assms
proof (induction ms)
  case Nil
  then show ?case by simp
next
  case (Cons m ms)
  then obtain ids where ids: "parse_members ms = map intToQid ids" "ms = map FormatInt ids" "\<forall>n \<in> set ids. int64 n"
    by auto
  from Cons.prems obtain n where "int64 n" "m = FormatInt n" by auto
  with ids show ?case by (intro exI[of _ "n # ids"]) simp
qed

lemma claim_batch:
  assumes q: "queue_inv R v s" and ids: "queue_ids_ok (v s)"
    and run: "ClaimPendingBatch R c limit s = (out, s')"
  shows "rsets (v s') pendingKey \<union> rsets (v s') processingKey = rsets (v s) pendingKey \<union> rsets (v s) processingKey \<and>
    (c = Answered \<longrightarrow> (\<exists>ns. out = Inr (map intToQid ns) \<and> distinct (map FormatInt ns) \<and>
       length ns = min limit (card (rsets (v s) pendingKey)) \<and>
       rsets (v s') pendingKey = rsets (v s) pendingKey - FormatInt ` set ns \<and>
       rsets (v s') processingKey = rsets (v s) processingKey \<union> FormatInt ` set ns))"
proof -
  obtain xs s1 where c: "claimScript R pendingKey processingKey limit s = (xs, s1)" by fastforce
  note law = queue_claim[OF q c]
  have "\<forall>m \<in> set xs. \<exists>n. int64 n \<and> m = FormatInt n" using law ids by (auto simp: queue_ids_ok_def)
  from parse_members_ids[OF this] obtain ns where ns: "parse_members xs = map intToQid ns" "xs = map FormatInt ns"
    by blast
  have s': "s' = (if c = Refused then s else s1)" "c = Answered \<Longrightarrow> out = Inr (map intToQid ns)"
    using run c ns by (cases c; simp add: ClaimPendingBatch_def)+
  have "rsets (v s1) pendingKey \<union> rsets (v s1) processingKey = rsets (v s) pendingKey \<union> rsets (v s) processingKey"
    using law by auto
  with law ns s' show ?thesis by (cases c) auto
qed

text \<open>
  \<open>ClaimPendingBatch\<close> moves as many entities as it may from pending to processing and returns
  exactly those, each once, as QIDs; if the call fails, they are still in one of the two sets.
\<close>

theorem ClaimPendingBatch_correct:
  assumes q: "queue_inv R v s" and ids: "queue_ids_ok (v s)"
    and run: "ClaimPendingBatch R c limit s = (out, s')"
  shows "rsets (v s') pendingKey \<union> rsets (v s') processingKey = rsets (v s) pendingKey \<union> rsets (v s) processingKey \<and>
    (c = Answered \<longrightarrow> (\<exists>ns. out = Inr (map intToQid ns) \<and> distinct (map FormatInt ns) \<and>
       length ns = min limit (card (rsets (v s) pendingKey)) \<and>
       rsets (v s') pendingKey = rsets (v s) pendingKey - FormatInt ` set ns \<and>
       rsets (v s') processingKey = rsets (v s) processingKey \<union> FormatInt ` set ns))"
  by (rule claim_batch[OF assms])

text \<open>
  \<open>RecoverProcessing\<close> loses no entity, whichever of its calls fails, and when it succeeds every
  entity that was being processed is pending again.
\<close>

theorem RecoverProcessing_correct:
  assumes R: "redis_ok R v" and run: "RecoverProcessing R c1 c2 s = (err, s')"
  shows "rsets (v s') pendingKey \<union> rsets (v s') processingKey = rsets (v s) pendingKey \<union> rsets (v s) processingKey \<and>
    rsets (v s) pendingKey \<subseteq> rsets (v s') pendingKey \<and>
    (err = None \<longrightarrow> rsets (v s') processingKey = {} \<and> entities (v s') = entities (v s))"
  using run
  by (cases c1; cases c2)
    (auto simp: RecoverProcessing_def redis_set(3)[OF R] redis_hash(4)[OF R] key_defs split: if_splits)

definition example_queue :: content where
  "example_queue = put_set pendingKey {FormatInt 42} no_content"

lemma example_queue_inv: "queue_inv mem_redis id example_queue" "queue_ids_ok example_queue"
  by (auto simp: queue_inv_def queue_ids_ok_def mem_redis_ok example_queue_def int64_def
      intro!: exI[of _ "42 :: int"])

theorem ClaimPendingBatch_correct_witness:
  "rsets (snd (ClaimPendingBatch mem_redis Answered 50 example_queue)) pendingKey = {}"
proof -
  obtain out s' where run: "ClaimPendingBatch mem_redis Answered 50 example_queue = (out, s')" by fastforce
  have card: "card (rsets example_queue pendingKey) = 1" by (simp add: example_queue_def)
  obtain ns where ns: "distinct (map FormatInt ns)" "length ns = min 50 (card (rsets example_queue pendingKey))"
    "rsets s' pendingKey = rsets example_queue pendingKey - FormatInt ` set ns"
    "rsets s' pendingKey \<union> rsets s' processingKey = rsets example_queue pendingKey \<union> rsets example_queue processingKey"
    "rsets s' processingKey = rsets example_queue processingKey \<union> FormatInt ` set ns"
    using ClaimPendingBatch_correct[OF example_queue_inv(1) _ run] example_queue_inv(2) by auto
  from ns(2) card obtain n where "ns = [n]" by (auto simp: length_Suc_conv)
  with ns(3-5) have "FormatInt n \<in> {FormatInt 42}" by (auto simp: example_queue_def)
  with ns(3) \<open>ns = [n]\<close> have "rsets s' pendingKey = {}" by (simp add: example_queue_def)
  with run show ?thesis by simp
qed

theorem RecoverProcessing_correct_witness:
  "FormatInt 42 \<in> rsets (snd (RecoverProcessing mem_redis Answered Answered (put_set processingKey {FormatInt 42} no_content))) pendingKey"
proof -
  let ?s = "put_set processingKey {FormatInt 42} no_content"
  obtain err s' where run: "RecoverProcessing mem_redis Answered Answered ?s = (err, s')" by fastforce
  then have "err = None" by (simp add: RecoverProcessing_def)
  with RecoverProcessing_correct[OF mem_redis_ok run] have "FormatInt 42 \<in> rsets s' pendingKey" by auto
  with run show ?thesis by simp
qed

end
