(* ===== verification/Reader.thy ===== *)
theory Reader
  imports WorkQueue
begin

text \<open>
  \<open>Reader\<close> of \<open>internal/store/reader.go\<close>: lookups, sync state, statistics, the scan used for
  snapshots and the changelog reads. A reading call fails or is answered; times are milliseconds
  since the epoch, and Go's zero time is \<open>None\<close>.

  The main result is that a lookup by property and value returns exactly the entities that are
  stored with that mapping.
\<close>

section \<open>Results\<close>

record LookupResult =
  lr_WikidataID :: int
  lr_RawMappings :: string

record ChangeEvent =
  ce_ID :: string
  ce_QID :: int
  ce_RawMappings :: string

record SnapshotEntity =
  se_QID :: int
  se_RawMappings :: string

record Reader =
  schemaOK :: bool

definition NewReader :: "'s redis \<Rightarrow> bool \<Rightarrow> 's \<Rightarrow> Reader" where
  "NewReader R answered s =
     \<lparr>schemaOK = (answered \<and> r_hget R metaKey ''schema_version'' s = Some SchemaVersion)\<rparr>"

section \<open>Lookups\<close>

text \<open>The script's loop over the ids of an index list; its reply is a flat list, or nil.\<close>

fun lookup_pairs :: "'s redis \<Rightarrow> string list \<Rightarrow> 's \<Rightarrow> string list" where
  "lookup_pairs R [] s = []"
| "lookup_pairs R (eid # eids) s =
     (case r_hget R entitiesKey eid s of
        None \<Rightarrow> lookup_pairs R eids s
      | Some m \<Rightarrow> eid # m # lookup_pairs R eids s)"

definition lookupByPropertyScript :: "'s redis \<Rightarrow> string \<Rightarrow> string \<Rightarrow> 's \<Rightarrow> string list option" where
  "lookupByPropertyScript R key val s =
     (case r_hget R key val s of
        None \<Rightarrow> None
      | Some raw \<Rightarrow>
          (let result = lookup_pairs R (csv_parts raw) s in
           if result = [] then None else Some result))"

fun collect_results :: "string list \<Rightarrow> store_error + LookupResult list" where
  "collect_results (q # raw # rest) =
     (case ParseInt q of
        (_, Some _) \<Rightarrow> Inl (ParseScriptQID q)
      | (qid, None) \<Rightarrow>
          if raw = '''' \<or> raw = ''[]'' then collect_results rest
          else (case collect_results rest of
                  Inl e \<Rightarrow> Inl e
                | Inr rs \<Rightarrow> Inr (\<lparr>lr_WikidataID = qid, lr_RawMappings = raw\<rparr> # rs)))"
| "collect_results _ = Inr []"

definition LookupByPropertyContext ::
  "'s redis \<Rightarrow> Reader \<Rightarrow> bool \<Rightarrow> int \<Rightarrow> string \<Rightarrow> 's \<Rightarrow> store_error + LookupResult list" where
  "LookupByPropertyContext R rd answered property val s =
     (if \<not> schemaOK rd then Inl SchemaMismatch
      else if \<not> answered then Inl (conn_error ''lookup by property'')
      else (case lookupByPropertyScript R (propKey property) val s of
              None \<Rightarrow> Inr []
            | Some res \<Rightarrow> if length res < 2 then Inr [] else collect_results res))"

definition lookupEntity :: "'s redis \<Rightarrow> bool \<Rightarrow> int \<Rightarrow> 's \<Rightarrow> store_error + LookupResult option" where
  "lookupEntity R answered qid s =
     (if \<not> answered then Inl (conn_error ''get entity'')
      else (case r_hget R entitiesKey (FormatInt qid) s of
              None \<Rightarrow> Inr None
            | Some m \<Rightarrow>
                if m = '''' \<or> m = ''[]'' then Inr None
                else Inr (Some \<lparr>lr_WikidataID = qid, lr_RawMappings = m\<rparr>)))"

definition LookupByWikidataIDContext ::
  "'s redis \<Rightarrow> Reader \<Rightarrow> bool \<Rightarrow> int \<Rightarrow> 's \<Rightarrow> store_error + LookupResult option" where
  "LookupByWikidataIDContext R rd answered qid s =
     (if \<not> schemaOK rd then Inl SchemaMismatch else lookupEntity R answered qid s)"

section \<open>Sync state and counts\<close>

definition GetSyncState :: "'s redis \<Rightarrow> bool \<Rightarrow> string \<Rightarrow> 's \<Rightarrow> store_error + string" where
  "GetSyncState R answered key s =
     (if \<not> answered then Inl (conn_error ''hget'')
      else (case r_hget R metaKey key s of None \<Rightarrow> Inr [] | Some val \<Rightarrow> Inr val))"

text \<open>Reading a key that is missing from the resulting map gives the empty string.\<close>

definition GetSyncStates :: "'s redis \<Rightarrow> bool \<Rightarrow> string list \<Rightarrow> 's \<Rightarrow> store_error + (string \<Rightarrow> string)" where
  "GetSyncStates R answered keys s =
     (if \<not> answered then Inl (conn_error ''hmget'')
      else Inr (\<lambda>key. if key \<in> set keys
                        then (case r_hget R metaKey key s of None \<Rightarrow> [] | Some val \<Rightarrow> val) else []))"

definition PendingCount :: "'s redis \<Rightarrow> bool \<Rightarrow> 's \<Rightarrow> store_error + nat" where
  "PendingCount R answered s =
     (if \<not> answered then Inl (conn_error ''scard'') else Inr (r_scard R pendingKey s))"

definition LastFailedEntities :: "'s redis \<Rightarrow> bool \<Rightarrow> nat \<Rightarrow> 's \<Rightarrow> store_error + string list" where
  "LastFailedEntities R answered limit s =
     (if \<not> answered then Inl (conn_error ''zrange'')
      else Inr (parse_members (r_zrange R failedZsetKey limit s)))"

section \<open>The scan of the entities\<close>

text \<open>
  \<open>hscan cursor count s\<close> stands for \<open>HSCAN\<close> on the entities: field-value pairs and the next cursor.
\<close>

fun scan_entities :: "(string \<times> string) list \<Rightarrow> SnapshotEntity list" where
  "scan_entities [] = []"
| "scan_entities ((f, m) # fs) =
     (case ParseInt f of
        (qid, None) \<Rightarrow> \<lparr>se_QID = qid, se_RawMappings = m\<rparr> # scan_entities fs
      | (_, Some _) \<Rightarrow> scan_entities fs)"

definition ScanEntities ::
  "(nat \<Rightarrow> nat \<Rightarrow> 's \<Rightarrow> (string \<times> string) list \<times> nat) \<Rightarrow> bool \<Rightarrow> nat \<Rightarrow> nat \<Rightarrow> 's \<Rightarrow>
   store_error + SnapshotEntity list \<times> nat" where
  "ScanEntities hscan answered cursor count s =
     (if \<not> answered then Inl (conn_error ''scan entities'')
      else (case hscan cursor count s of (fvs, next) \<Rightarrow> Inr (scan_entities fvs, next)))"

section \<open>The changelog\<close>

text \<open>The fields of an entry: the last \<open>q\<close> and the last \<open>m\<close> count, parse errors are ignored.\<close>

fun event_fields :: "fields \<Rightarrow> ChangeEvent \<Rightarrow> ChangeEvent" where
  "event_fields [] ev = ev"
| "event_fields ((k, x) # kvs) ev =
     event_fields kvs
       (if k = ''q'' then ev\<lparr>ce_QID := fst (ParseInt x)\<rparr>
        else if k = ''m'' then ev\<lparr>ce_RawMappings := x\<rparr>
        else ev)"

definition entry_event :: "stream_entry \<Rightarrow> ChangeEvent" where
  "entry_event e = event_fields (snd e) \<lparr>ce_ID = fst e, ce_QID = 0, ce_RawMappings = []\<rparr>"

definition StreamRead :: "'s redis \<Rightarrow> bool \<Rightarrow> string \<Rightarrow> nat \<Rightarrow> 's \<Rightarrow> store_error + ChangeEvent list" where
  "StreamRead R answered since count s =
     (if \<not> answered then Inl (conn_error ''xread'')
      else Inr (map entry_event (r_xread R changelogKey since count s)))"

text \<open>
  \<open>StreamInfo\<close>: \<open>XINFO\<close> with the first and last entry looked up if the reply leaves them out;
  \<open>a1\<close> to \<open>a3\<close> say which of the three calls are answered.
\<close>

definition StreamInfo ::
  "'s redis \<Rightarrow> bool \<Rightarrow> bool \<Rightarrow> bool \<Rightarrow> 's \<Rightarrow> store_error + string \<times> string \<times> nat" where
  "StreamInfo R a1 a2 a3 s =
     (if \<not> a1 then Inl (conn_error ''xinfo stream'')
      else (case r_xinfo R changelogKey s of
              None \<Rightarrow> Inr ([], [], 0)
            | Some (f, l, n) \<Rightarrow>
                if 0 < n \<and> f = [] \<and> \<not> a2 then Inl (conn_error ''xrange first entry'')
                else
                  let first = (if 0 < n \<and> f = []
                    then (case r_xrange R changelogKey 1 s of [] \<Rightarrow> f | e # _ \<Rightarrow> fst e) else f)
                  in if 0 < n \<and> l = [] \<and> \<not> a3 then Inl (conn_error ''xrevrange last entry'')
                     else
                       let lst = (if 0 < n \<and> l = []
                         then (case r_xrevrange R changelogKey 1 s of [] \<Rightarrow> l | e # _ \<Rightarrow> fst e) else l)
                       in Inr (first, lst, n)))"

section \<open>Times and sizes\<close>

text \<open>The earliest positive timestamp; the argument is the decoded event ID, \<open>None\<close> for bad JSON.\<close>

fun min_timestamp :: "int option list \<Rightarrow> int \<Rightarrow> int" where
  "min_timestamp [] minTS = minTS"
| "min_timestamp (None # os) minTS = min_timestamp os minTS"
| "min_timestamp (Some ts # os) minTS =
     (if ts \<le> 0 then min_timestamp os minTS
      else if minTS = 0 \<or> ts < minTS then min_timestamp os ts
      else min_timestamp os minTS)"

definition eventIDToTime :: "(string \<Rightarrow> int option list option) \<Rightarrow> string \<Rightarrow> int option" where
  "eventIDToTime decode eventID =
     (case decode eventID of
        None \<Rightarrow> None
      | Some offsets \<Rightarrow>
          let minTS = min_timestamp offsets 0 in if minTS = 0 then None else Some minTS)"

definition streamIDToTime :: "string \<Rightarrow> int option" where
  "streamIDToTime streamID =
     (case SplitN2 streamID CHR ''-'' of
        [] \<Rightarrow> None
      | p # _ \<Rightarrow>
          if p = [] then None
          else (case ParseInt p of
                  (_, Some _) \<Rightarrow> None
                | (ms, None) \<Rightarrow> if ms \<le> 0 then None else Some ms))"

fun trim_cr :: "string \<Rightarrow> string" where
  "trim_cr s = (if s \<noteq> [] \<and> last s = CHR 0x0D then trim_cr (butlast s) else s)"

declare trim_cr.simps [simp del]

fun find_db_size :: "string list \<Rightarrow> int" where
  "find_db_size [] = 0"
| "find_db_size (line # lines) =
     (let l = trim_cr line in
      if HasPrefix l ''used_db_size:'' then fst (ParseInt (drop (length ''used_db_size:'') l))
      else find_db_size lines)"

definition parseInfoDBSize :: "string \<Rightarrow> int" where
  "parseInfoDBSize info = find_db_size (Split info newline)"

section \<open>Health and statistics\<close>

record HealthInfo =
  hi_DatabaseSize :: int
  hi_DumpTime :: "int option"
  hi_LastEventID :: string
  hi_LastEventSync :: "int option"
  hi_State :: string
  hi_SchemaMatch :: bool

record DBStats =
  st_Health :: HealthInfo
  st_EntityCount :: int
  st_PendingCount :: nat
  st_ProcessingCount :: nat
  st_FailedCount :: nat
  st_StreamLength :: nat
  st_OldestEvent :: "int option"
  st_NewestEvent :: "int option"

text \<open>
  \<open>parse_time\<close> stands for \<open>time.Parse(time.RFC3339, .)\<close>, \<open>decode\<close> for the JSON decoder of event
  IDs, \<open>info\<close> for the reply to \<open>INFO keyspace\<close>, if it came.
\<close>

definition GetHealthContext ::
  "'s redis \<Rightarrow> (string \<Rightarrow> int option) \<Rightarrow> (string \<Rightarrow> int option list option) \<Rightarrow> Reader \<Rightarrow>
   string option \<Rightarrow> bool \<Rightarrow> 's \<Rightarrow> store_error + HealthInfo" where
  "GetHealthContext R parse_time decode rd info answered s =
     (if \<not> answered then Inl (conn_error ''get meta'')
      else
        let meta = (\<lambda>f. r_hget R metaKey f s);
            eid = (case meta ''last_event_id'' of None \<Rightarrow> [] | Some x \<Rightarrow> x)
        in Inr \<lparr>hi_DatabaseSize = (case info of None \<Rightarrow> 0 | Some i \<Rightarrow> parseInfoDBSize i),
                hi_DumpTime = (case meta ''dump_time'' of None \<Rightarrow> None
                                | Some dt \<Rightarrow> if dt = [] then None else parse_time dt),
                hi_LastEventID = eid,
                hi_LastEventSync = (if eid = [] then None else eventIDToTime decode eid),
                hi_State = (case meta ''state'' of None \<Rightarrow> [] | Some x \<Rightarrow> x),
                hi_SchemaMatch = schemaOK rd\<rparr>)"

text \<open>Which calls after those of the health are answered. The errors of all but the first are ignored.\<close>

record stats_calls =
  sc_meta :: bool
  sc_pending :: bool
  sc_processing :: bool
  sc_failed :: bool
  sc_stream :: "bool \<times> bool \<times> bool"

definition GetStatsContext ::
  "'s redis \<Rightarrow> (string \<Rightarrow> int option) \<Rightarrow> (string \<Rightarrow> int option list option) \<Rightarrow> Reader \<Rightarrow>
   string option \<Rightarrow> bool \<Rightarrow> stats_calls \<Rightarrow> 's \<Rightarrow> store_error + DBStats" where
  "GetStatsContext R parse_time decode rd info a1 calls s =
     (case GetHealthContext R parse_time decode rd info a1 s of
        Inl e \<Rightarrow> Inl e
      | Inr health \<Rightarrow>
          if \<not> sc_meta calls then Inl (conn_error ''get meta'')
          else
            let stream = (case sc_stream calls of (i1, i2, i3) \<Rightarrow> StreamInfo R i1 i2 i3 s) in
            Inr \<lparr>st_Health = health,
                 st_EntityCount = (case r_hget R metaKey ''entity_count'' s of None \<Rightarrow> 0 | Some ec \<Rightarrow> fst (ParseInt ec)),
                 st_PendingCount = (if sc_pending calls then r_scard R pendingKey s else 0),
                 st_ProcessingCount = (if sc_processing calls then r_scard R processingKey s else 0),
                 st_FailedCount = (if sc_failed calls then r_zcard R failedZsetKey s else 0),
                 st_StreamLength = (case stream of Inl _ \<Rightarrow> 0 | Inr (_, _, n) \<Rightarrow> n),
                 st_OldestEvent = (case stream of Inl _ \<Rightarrow> None | Inr (f, _, _) \<Rightarrow> streamIDToTime f),
                 st_NewestEvent = (case stream of Inl _ \<Rightarrow> None | Inr (_, l, _) \<Rightarrow> streamIDToTime l)\<rparr>)"

section \<open>Lookups are exact\<close>

lemma canonical_eid_parse: "canonical_eid eid \<Longrightarrow> \<exists>n. ParseInt eid = (n, None) \<and> eid = FormatInt n \<and> int64 n"
  by (auto simp: canonical_eid_def)

lemma lookup_ids:
  assumes R: "redis_ok R v"
    and ids: "\<forall>eid \<in> set ids. canonical_eid eid \<and>
      (\<exists>m. entities (v s) eid = Some m \<and> m \<noteq> [] \<and> m \<noteq> ''[]'')"
  shows "collect_results (lookup_pairs R ids s) =
      Inr (map (\<lambda>eid. \<lparr>lr_WikidataID = fst (ParseInt eid), lr_RawMappings = the (entities (v s) eid)\<rparr>) ids)"
    and "length (lookup_pairs R ids s) = 2 * length ids"
proof -
  have "collect_results (lookup_pairs R ids s) =
      Inr (map (\<lambda>eid. \<lparr>lr_WikidataID = fst (ParseInt eid), lr_RawMappings = the (entities (v s) eid)\<rparr>) ids) \<and>
    length (lookup_pairs R ids s) = 2 * length ids"
    using ids
  proof (induction ids)
    case Nil
    then show ?case by simp
  next
    case (Cons eid ids)
    then obtain m n where "entities (v s) eid = Some m" "m \<noteq> []" "m \<noteq> ''[]''" "ParseInt eid = (n, None)"
      using canonical_eid_parse[of eid] by auto
    with Cons show ?case by (simp add: redis_hash(1)[OF R])
  qed
  then show "collect_results (lookup_pairs R ids s) =
      Inr (map (\<lambda>eid. \<lparr>lr_WikidataID = fst (ParseInt eid), lr_RawMappings = the (entities (v s) eid)\<rparr>) ids)"
    "length (lookup_pairs R ids s) = 2 * length ids" by blast+
qed

lemma key_ok_propKey [simp]: "key_ok (propKey n, val)"
  by (simp add: key_ok_def)

lemma entity_keys_nonempty:
  assumes "cjson_ok R" "index_ok R c" "entities c eid = Some m" "k \<in> entity_keys R (Some m)"
  shows "m \<noteq> [] \<and> m \<noteq> ''[]''"
proof -
  have "r_cjson R (json_strings []) = Some []" using assms(1) by (simp add: cjson_ok_def)
  then have "r_cjson R ''[]'' = Some []" by (simp add: json_strings_def)
  moreover have "mappings_ok R m" using index_okD(2)[OF assms(2,3)] .
  ultimately show ?thesis using assms(4) by (auto simp: mappings_ok_def)
qed

lemma index_member:
  assumes j: "cjson_ok R" and c: "index_ok R c" and e: "eids_ok (entities c)" and eid: "eid \<in> members c (propKey property, val)"
  shows "canonical_eid eid \<and> (\<exists>m. entities c eid = Some m \<and> m \<noteq> [] \<and> m \<noteq> ''[]'' \<and>
    (propKey property, val) \<in> entity_keys R (Some m))"
proof -
  from eid obtain m where m: "entities c eid = Some m" "(propKey property, val) \<in> entity_keys R (Some m)"
    using index_okD(4)[OF c, of "(propKey property, val)"] by (cases "entities c eid") auto
  with entity_keys_nonempty[OF j c m] e show ?thesis by (auto simp: eids_ok_def)
qed

text \<open>The answer for one member of an index entry.\<close>

definition member_result :: "content \<Rightarrow> string \<Rightarrow> LookupResult" where
  "member_result c eid = \<lparr>lr_WikidataID = fst (ParseInt eid), lr_RawMappings = the (entities c eid)\<rparr>"

lemma member_results:
  assumes j: "cjson_ok R" and c: "index_ok R c" and e: "eids_ok (entities c)"
  shows "member_result c ` members c (propKey property, val) = {\<lparr>lr_WikidataID = q, lr_RawMappings = m\<rparr> | q m. int64 q \<and>
      entities c (FormatInt q) = Some m \<and> (propKey property, val) \<in> entity_keys R (Some m)}" (is "_ = ?S")
proof (intro set_eqI iffI)
  fix r
  assume "r \<in> member_result c ` members c (propKey property, val)"
  then obtain eid where eid: "eid \<in> members c (propKey property, val)" "r = member_result c eid" by blast
  obtain m n where "entities c eid = Some m" "(propKey property, val) \<in> entity_keys R (Some m)"
    "ParseInt eid = (n, None)" "eid = FormatInt n" "int64 n"
    using index_member[OF j c e eid(1)] canonical_eid_parse by blast
  with eid(2) show "r \<in> ?S" by (auto simp: member_result_def)
next
  fix r
  assume "r \<in> ?S"
  then obtain q m where q: "r = \<lparr>lr_WikidataID = q, lr_RawMappings = m\<rparr>" "int64 q"
    "entities c (FormatInt q) = Some m" "(propKey property, val) \<in> entity_keys R (Some m)" by blast
  then have "FormatInt q \<in> members c (propKey property, val)" "r = member_result c (FormatInt q)"
    using index_okD(4)[OF c, of "(propKey property, val)"] by (simp_all add: member_result_def)
  then show "r \<in> member_result c ` members c (propKey property, val)" by blast
qed

lemma canonical_inj: "\<forall>x \<in> A. canonical_eid x \<Longrightarrow> inj_on (\<lambda>x. fst (ParseInt x)) A"
proof (rule inj_onI)
  fix x y
  assume "\<forall>x \<in> A. canonical_eid x" "x \<in> A" "y \<in> A" and eq: "fst (ParseInt x) = fst (ParseInt y)"
  then obtain i j where "ParseInt x = (i, None)" "x = FormatInt i" "ParseInt y = (j, None)" "y = FormatInt j"
    using canonical_eid_parse by metis
  with eq show "x = y" by simp
qed

lemma lookup_exact:
  assumes R: "redis_ok R v" and j: "cjson_ok R" and c: "index_ok R (v s)" and e: "eids_ok (entities (v s))"
    and rd: "schemaOK rd"
  shows "\<exists>rs. LookupByPropertyContext R rd True property val s = Inr rs \<and>
    distinct (map lr_WikidataID rs) \<and>
    set rs = {\<lparr>lr_WikidataID = q, lr_RawMappings = m\<rparr> | q m. int64 q \<and> entities (v s) (FormatInt q) = Some m \<and>
      (propKey property, val) \<in> entity_keys R (Some m)}"
proof (cases "hashes (v s) (propKey property) val")
  case None
  then have "members (v s) (propKey property, val) = {}" by (simp add: members_def index_entry_ids_def)
  with None member_results[OF j c e, of property val] rd show ?thesis
    by (simp add: LookupByPropertyContext_def lookupByPropertyScript_def redis_hash(1)[OF R])
next
  case (Some raw)
  let ?ids = "csv_parts raw" and ?k = "(propKey property, val)"
  have ids: "set ?ids = members (v s) ?k" using Some by (simp add: members_def index_entry_ids_def)
  have "index_entry_ok (hashes (v s) (propKey property) val)"
    using index_okD(1)[OF c] by (simp add: lists_ok_def)
  with Some have "csv_ok raw" by (simp add: index_entry_ok_def)
  then have ne: "?ids \<noteq> []" "distinct ?ids" by (simp_all add: csv_ok_def Let_def)
  note run = lookup_ids[OF R, of ?ids s, folded member_result_def]
  have all: "\<forall>eid \<in> set ?ids. canonical_eid eid \<and> (\<exists>m. entities (v s) eid = Some m \<and> m \<noteq> [] \<and> m \<noteq> ''[]'')"
    using ids index_member[OF j c e] by blast
  have "0 < length ?ids" using ne(1) by simp
  then have two: "2 \<le> length (lookup_pairs R ?ids s)" "lookup_pairs R ?ids s \<noteq> []"
    using run(2)[OF all] by (linarith, fastforce)
  have "inj_on (\<lambda>eid. fst (ParseInt eid)) (set ?ids)" using canonical_inj all by blast
  then have "distinct (map lr_WikidataID (map (member_result (v s)) ?ids))"
    using ne(2) by (simp add: comp_def distinct_map member_result_def)
  moreover have "set (map (member_result (v s)) ?ids) = member_result (v s) ` members (v s) ?k" using ids by simp
  moreover have "LookupByPropertyContext R rd True property val s = Inr (map (member_result (v s)) ?ids)"
    using rd Some two run(1)[OF all]
    by (simp add: LookupByPropertyContext_def lookupByPropertyScript_def redis_hash(1)[OF R] Let_def member_result_def)
  ultimately show ?thesis unfolding member_results[OF j c e] by blast
qed

text \<open>
  A lookup by property and value succeeds and returns exactly the entities whose stored mappings
  have that entry, each once and with the mappings that are stored.
\<close>

theorem LookupByPropertyContext_exact:
  assumes R: "redis_ok R v" and j: "cjson_ok R" and c: "index_ok R (v s)" and e: "eids_ok (entities (v s))"
    and rd: "schemaOK rd"
  shows "\<exists>rs. LookupByPropertyContext R rd True property val s = Inr rs \<and>
    distinct (map lr_WikidataID rs) \<and>
    set rs = {\<lparr>lr_WikidataID = q, lr_RawMappings = m\<rparr> | q m. int64 q \<and> entities (v s) (FormatInt q) = Some m \<and>
      (propKey property, val) \<in> entity_keys R (Some m)}"
  by (rule lookup_exact[OF assms])

text \<open>
  Claim C27: what a pipe's \<open>UpsertEntity\<close> writes, a lookup finds: after an \<open>Exec\<close> that got through, however
  many attempts broke before, the entity is among the results for a property and a value
  exactly if its mappings have that entry, and it comes with the canonical text of its mappings.
\<close>

theorem UpsertEntity_then_lookup:
  assumes R: "redis_ok R v" and j: "cjson_ok R" and c: "index_ok R (v s)" and e: "eids_ok (entities (v s))"
    and rd: "schemaOK rd" and q: "qidToInt (er_WikidataID rec) = Inr q"
    and chk: "check_mappings (er_WikidataID rec) (er_Mappings rec) = None"
    and u: "\<forall>x \<in> set (er_Mappings rec). utf8_ok x"
    and run: "Exec R attempts False (UpsertEntity rec \<lparr>p_err = None, p_cmds = []\<rparr>) s = (err, s')"
  shows "\<exists>rs. LookupByPropertyContext R rd True property val s' = Inr rs \<and>
    (\<lparr>lr_WikidataID = q, lr_RawMappings = canonicalMappingsJSON (er_Mappings rec)\<rparr> \<in> set rs \<longleftrightarrow>
      CHR ''P'' # FormatInt property @ CHR '':'' # val \<in> set (er_Mappings rec)) \<and>
    (\<forall>r \<in> set rs. lr_WikidataID r = q \<longrightarrow> lr_RawMappings r = canonicalMappingsJSON (er_Mappings rec))"
proof -
  let ?p = "UpsertEntity rec \<lparr>p_err = None, p_cmds = []\<rparr>"
  let ?m = "canonicalMappingsJSON (er_Mappings rec)"
  let ?cmd = "RunUpsert ?m (FormatInt q)"
  have q64: "int64 q" using q by (rule qidToInt_int64)
  note m = canonical_mappings_ok[OF j chk u]
  have p: "?p = \<lparr>p_err = None, p_cmds = [?cmd]\<rparr>"
    by (simp add: UpsertEntity_def q chk queue_def)
  have ok: "\<forall>k \<in> set (p_cmds ?p). cmd_ok R k" unfolding p using q64 m by simp
  have s': "s' = snd (Exec R attempts False ?p s)" using run by simp
  note ref = Exec_refines[OF R c ok, of attempts False, folded s']
  have pre: "\<forall>cs \<in> set (exec_prefixes attempts False ?p). \<forall>k \<in> set cs. cmd_ok R k"
    using ok by (intro exec_prefixes_ok) (simp add: pipe_ok_def)
  have e': "eids_ok (entities (v s'))"
    using eids_prefixes[OF pre, of "abstract (v s)"] e ref(1) by (metis abstract_sel(1))
  have "a_entities (abstract (v s')) (FormatInt q) = Some ?m"
    unfolding ref(1) p by (simp add: exec_prefixes_def prefixes_spec_def change_entity_def)
  then have ent: "entities (v s') (FormatInt q) = Some ?m" by simp
  obtain rs where rs: "LookupByPropertyContext R rd True property val s' = Inr rs"
    "set rs = {\<lparr>lr_WikidataID = q, lr_RawMappings = m\<rparr> | q m. int64 q \<and> entities (v s') (FormatInt q) = Some m \<and>
      (propKey property, val) \<in> entity_keys R (Some m)}"
    using lookup_exact[OF R j ref(2) e' rd] by blast
  have key: "(propKey property, val) \<in> entity_keys R (Some ?m) \<longleftrightarrow>
      CHR ''P'' # FormatInt property @ CHR '':'' # val \<in> set (er_Mappings rec)"
  proof -
    have ek: "entry_key (CHR ''P'' # FormatInt property @ CHR '':'' # val) = (propKey property, val)"
      by (simp add: entry_key_def lua_parse_entry propKey_def)
    have ok': "entry_ok (CHR ''P'' # FormatInt property @ CHR '':'' # val)" by (simp add: entry_ok_def)
    have "\<forall>x \<in> set (er_Mappings rec). entry_ok x" using m by (simp add: mappings_ok_def)
    then have "x = CHR ''P'' # FormatInt property @ CHR '':'' # val"
      if "x \<in> set (er_Mappings rec)" "entry_key x = (propKey property, val)" for x
      using that entry_key_inj[OF _ ok'] ek by metis
    with ek show ?thesis unfolding entity_keys_Some(1)[OF m(2)] by force
  qed
  show ?thesis
    using rs key q64 ent by (intro exI[of _ rs]) auto
qed

section \<open>The changelog's ends\<close>

lemma sid_str_nonempty [simp]: "sid_str t \<noteq> []"
  by (simp add: sid_str_def)

lemma stream_info:
  assumes R: "redis_ok R v" and ids: "ids_ok es" and es: "es = streams (v s) changelogKey"
  shows "StreamInfo R True True True s =
      Inr (if es = [] then ([], [], 0) else (fst (hd es), fst (last es), length es)) \<and>
    (es \<noteq> [] \<longrightarrow> fst (hd es) \<noteq> [] \<and> fst (last es) \<noteq> [])"
proof -
  have ne: "es \<noteq> [] \<longrightarrow> fst (hd es) \<noteq> [] \<and> fst (last es) \<noteq> []"
    using ids by (metis ids_ok_def hd_in_set last_in_set sid_str_nonempty)
  have hd1: "r_xrange R changelogKey 1 s = take 1 es" and last1: "r_xrevrange R changelogKey 1 s = take 1 (rev es)"
    using redis_range(1,2)[OF R] by (simp_all add: es)
  show ?thesis
  proof (cases "r_xinfo R changelogKey s")
    case None
    then have "es = []" using redis_xinfo[OF R, where k = changelogKey and s = s] by (simp add: es)
    with None show ?thesis by (simp add: StreamInfo_def)
  next
    case (Some x)
    obtain f l n where x: "x = (f, l, n)" by (cases x) auto
    have law: "n = length es" "f = [] \<or> es \<noteq> [] \<and> f = fst (hd es)" "l = [] \<or> es \<noteq> [] \<and> l = fst (last es)"
      using redis_xinfo[OF R, where k = changelogKey and s = s] Some by (simp_all add: es x)
    show ?thesis
    proof (cases es rule: rev_cases)
      case Nil
      with law Some show ?thesis by (simp add: StreamInfo_def x Let_def)
    next
      case (snoc ys y)
      then have "es \<noteq> []" by simp
      then obtain z zs where z: "es = z # zs" using list.exhaust by blast
      have hz: "hd es = z" using z by simp
      have ly: "last es = y" unfolding snoc by simp
      have "take 1 es = [z]" using z by simp
      then have f1: "r_xrange R changelogKey (Suc 0) s = [z]" using hd1 by simp
      have "take 1 (rev es) = [y]" unfolding snoc by simp
      then have l1: "r_xrevrange R changelogKey (Suc 0) s = [y]" using last1 by simp
      have pos: "0 < length es" using z by simp
      have "f = [] \<or> f = fst (hd es)" "l = [] \<or> l = fst (last es)" using law by blast+
      with ne pos show ?thesis unfolding hz ly
        by (auto simp: StreamInfo_def Some x law(1) f1 l1 Let_def)
    qed
  qed
qed

text \<open>
  \<open>StreamInfo\<close> reports the first ID, the last ID and the length of the changelog also when the
  server's \<open>XINFO\<close> leaves out an end, and empty strings and 0 exactly for an empty changelog.
\<close>

theorem StreamInfo_exact:
  assumes R: "redis_ok R v" and ids: "ids_ok es" and es: "es = streams (v s) changelogKey"
  shows "StreamInfo R True True True s =
      Inr (if es = [] then ([], [], 0) else (fst (hd es), fst (last es), length es)) \<and>
    (es \<noteq> [] \<longrightarrow> fst (hd es) \<noteq> [] \<and> fst (last es) \<noteq> [])"
  by (rule stream_info[OF assms])

section \<open>Event times\<close>

definition positive_times :: "int option list \<Rightarrow> int set" where
  "positive_times os = {t. Some t \<in> set os \<and> 0 < t}"

lemma finite_positive_times [simp]: "finite (positive_times os)"
  by (rule finite_subset[of _ "the ` set os"]) (force simp: positive_times_def)+

lemma positive_times_simps [simp]:
  "positive_times [] = {}" "positive_times (None # os) = positive_times os"
  "positive_times (Some t # os) = (if 0 < t then insert t (positive_times os) else positive_times os)"
  by (auto simp: positive_times_def)

lemma min_timestamp_Min:
  "0 \<le> m \<Longrightarrow> min_timestamp os m =
     (let P = positive_times os \<union> (if m = 0 then {} else {m}) in if P = {} then 0 else Min P)"
proof (induction os m rule: min_timestamp.induct)
  case (1 m)
  then show ?case by simp
next
  case (2 os m)
  then show ?case by simp
next
  case (3 ts os m)
  show ?case
  proof (cases "ts \<le> 0")
    case True
    with 3 show ?thesis by simp
  next
    case pos: False
    show ?thesis
    proof (cases "m = 0 \<or> ts < m")
      case True
      then have P: "Min (insert ts (positive_times os) \<union> (if m = 0 then {} else {m})) = Min (insert ts (positive_times os))"
        by (cases "positive_times os = {}") (auto simp: Un_commute min_def)
      from True pos 3(2) 3(3) show ?thesis by (simp add: P del: Un_insert_left Un_insert_right) (simp add: Un_commute)
    next
      case False
      then have "Min (insert ts (positive_times os) \<union> {m}) = Min (positive_times os \<union> {m})"
        by (cases "positive_times os = {}") (auto simp: min_def)
      with False pos 3 show ?thesis by simp
    qed
  qed
qed

text \<open>
  The time of an event ID is the earliest of its positive timestamps, and the zero time exactly
  when it has none or is not decodable; the result does not depend on the order of the entries.
\<close>

theorem eventIDToTime_earliest:
  "eventIDToTime decode eid =
     (case decode eid of None \<Rightarrow> None
      | Some os \<Rightarrow> if positive_times os = {} then None else Some (Min (positive_times os)))"
proof (cases "decode eid")
  case None
  then show ?thesis by (simp add: eventIDToTime_def)
next
  case (Some os)
  show ?thesis
  proof (cases "positive_times os = {}")
    case True
    with Some show ?thesis by (simp add: eventIDToTime_def min_timestamp_Min)
  next
    case False
    have "Min (positive_times os) \<in> positive_times os" using False by simp
    then have "Min (positive_times os) \<noteq> 0" by (auto simp: positive_times_def)
    with Some False show ?thesis by (simp add: eventIDToTime_def min_timestamp_Min Let_def)
  qed
qed

section \<open>Witnesses\<close>

lemma example_eids: "eids_ok (entities example_db)"
  by (auto simp: example_db(2) eids_ok_def int64_def)

lemma example_key: "entry_key ''P345:nm0010930'' = (propKey 345, ''nm0010930'')"
proof -
  have "format_nat 345 = ''345''"
    by (simp add: format_nat.simps digit_char_def char_of_eqI)
  then show ?thesis by (simp add: entry_key_def lua_parse_def propKey_def FormatInt_def)
qed

theorem LookupByPropertyContext_exact_witness:
  "LookupByPropertyContext mem_redis \<lparr>schemaOK = True\<rparr> True 345 ''nm0010930'' example_db =
     Inr [\<lparr>lr_WikidataID = 42, lr_RawMappings = canonicalMappingsJSON example_mappings\<rparr>]"
proof -
  let ?x = "\<lparr>lr_WikidataID = 42, lr_RawMappings = canonicalMappingsJSON example_mappings\<rparr>"
  have inj: "q = 42" if "int64 q" "FormatInt q = FormatInt 42" for q
    using that ParseInt_FormatInt[of q] ParseInt_FormatInt[of 42] by (simp add: int64_def)
  have key: "(propKey 345, ''nm0010930'') \<in> entity_keys mem_redis (Some (canonicalMappingsJSON example_mappings))"
    unfolding entity_keys_Some(1)[OF example_canonical(2)] example_key[symmetric] by simp
  obtain rs where rs: "LookupByPropertyContext mem_redis \<lparr>schemaOK = True\<rparr> True 345 ''nm0010930'' example_db = Inr rs"
    "distinct (map lr_WikidataID rs)"
    "set rs = {\<lparr>lr_WikidataID = q, lr_RawMappings = m\<rparr> | q m. int64 q \<and> entities (id example_db) (FormatInt q) = Some m \<and>
      (propKey 345, ''nm0010930'') \<in> entity_keys mem_redis (Some m)}"
    using LookupByPropertyContext_exact[OF mem_redis_ok mem_cjson_ok, of example_db "\<lparr>schemaOK = True\<rparr>" 345 "''nm0010930''"]
      example_db(1) example_eids by auto
  have "set rs = {?x}"
    unfolding rs(3) using inj key by (auto simp: example_db(2) int64_def)
  moreover have "distinct rs" using rs(2) by (simp add: distinct_map)
  ultimately have "length rs = 1" using distinct_card[of rs] by simp
  then obtain y where "rs = [y]" by (auto simp: length_Suc_conv)
  with \<open>set rs = {?x}\<close> have "rs = [?x]" by simp
  with rs(1) show ?thesis by simp
qed

theorem UpsertEntity_then_lookup_witness:
  "\<exists>rs. LookupByPropertyContext mem_redis \<lparr>schemaOK = True\<rparr> True 345 ''nm0010930''
       (snd (Exec mem_redis [0] False example_pipe no_content)) = Inr rs \<and>
     \<lparr>lr_WikidataID = 42, lr_RawMappings = canonicalMappingsJSON example_mappings\<rparr> \<in> set rs"
proof -
  obtain err s' where run: "Exec mem_redis [0] False example_pipe no_content = (err, s')" by fastforce
  have f: "FormatInt 345 = ''345''"
    by (simp add: FormatInt_def format_nat.simps digit_char_def char_of_eqI)
  have e: "eids_ok (entities (id no_content))" by (simp add: eids_ok_def)
  have "\<exists>rs. LookupByPropertyContext mem_redis \<lparr>schemaOK = True\<rparr> True 345 ''nm0010930'' s' = Inr rs \<and>
    (\<lparr>lr_WikidataID = 42, lr_RawMappings = canonicalMappingsJSON example_mappings\<rparr> \<in> set rs \<longleftrightarrow>
      CHR ''P'' # FormatInt 345 @ CHR '':'' # ''nm0010930'' \<in> set example_mappings)"
    using UpsertEntity_then_lookup[OF mem_redis_ok mem_cjson_ok _ e, of "\<lparr>schemaOK = True\<rparr>"
        "\<lparr>er_WikidataID = ''Q42'', er_Mappings = example_mappings\<rparr>" 42 "[0]" err s' 345 "''nm0010930''"]
      run example_index example_qid example_checks example_utf8 by (auto simp del: check_mappings.simps)
  then show ?thesis using run f by auto
qed

theorem StreamInfo_exact_witness:
  "StreamInfo mem_redis True True True example_log = Inr (sid_str (1, 0), sid_str (3, 0), 3)"
  using StreamInfo_exact[OF mem_redis_ok example_ids, of example_log] by (simp add: example_stream_def)

end
