(* ===== verification/Protocol.thy ===== *)
theory Protocol
  imports GoStd
begin

text \<open>
  The wire formats of \<open>internal/replicate/protocol.go\<close>: snapshot lines (entities and control
  lines) and the payload of change events, with the line scanner that reads them back.

  The JSON library that encodes control lines is a parameter \<open>J\<close>; \<open>json_ok J\<close> is what the code
  relies on: decoding undoes encoding, an object starts with a brace and has no line feed. The
  locale \<open>line_codec\<close> is the contract of a line format; entity lines, change payloads and the two
  control lines interpret it.
\<close>

section \<open>Records and constants\<close>

datatype SnapshotLineType = LineInvalid | LineEntity | LineControl

record SnapshotControl =
  ctl_Type :: string
  ctl_Version :: int

record SnapshotCheckpoint =
  cp_Type :: string
  cp_Version :: int
  cp_Offset :: int
  cp_EntitiesBefore :: int

record SnapshotDone =
  dn_Type :: string
  dn_Version :: int
  dn_StreamID :: string
  dn_Entities :: int

definition SnapshotControlVersion :: int where "SnapshotControlVersion = 1"
definition SnapshotControlTypeCheckpoint :: string where "SnapshotControlTypeCheckpoint = ''checkpoint''"
definition SnapshotControlTypeDone :: string where "SnapshotControlTypeDone = ''done''"

datatype wire_error =
    InvalidSnapshotLine
  | ParseSnapshotQid num_error
  | InvalidControlLine
  | DecodeControl
  | MissingControlType
  | UnsupportedVersion int
  | UnexpectedControlType string
  | InvalidOffset int
  | InvalidEntitiesBefore int
  | MissingStreamID
  | InvalidEntities int
  | InvalidChangeEvent
  | ParseChangeQid num_error

record json_codec =
  marshal_checkpoint :: "SnapshotCheckpoint \<Rightarrow> string"
  marshal_done :: "SnapshotDone \<Rightarrow> string"
  unmarshal_control :: "string \<Rightarrow> SnapshotControl option"
  unmarshal_checkpoint :: "string \<Rightarrow> SnapshotCheckpoint option"
  unmarshal_done :: "string \<Rightarrow> SnapshotDone option"

section \<open>Encoding and decoding\<close>

definition ClassifySnapshotLine :: "string \<Rightarrow> SnapshotLineType" where
  "ClassifySnapshotLine line =
     (case line of
        [] \<Rightarrow> LineInvalid
      | first # _ \<Rightarrow>
          if first = CHR ''{'' then LineControl
          else if is_digit first then LineEntity
          else LineInvalid)"

definition AppendSnapshotCheckpointLine :: "json_codec \<Rightarrow> int \<Rightarrow> int \<Rightarrow> string" where
  "AppendSnapshotCheckpointLine J offset entitiesBefore =
     marshal_checkpoint J \<lparr>cp_Type = SnapshotControlTypeCheckpoint, cp_Version = SnapshotControlVersion,
       cp_Offset = offset, cp_EntitiesBefore = entitiesBefore\<rparr> @ [newline]"

definition AppendSnapshotDoneLine :: "json_codec \<Rightarrow> string \<Rightarrow> int \<Rightarrow> string" where
  "AppendSnapshotDoneLine J streamID ents =
     marshal_done J \<lparr>dn_Type = SnapshotControlTypeDone, dn_Version = SnapshotControlVersion,
       dn_StreamID = streamID, dn_Entities = ents\<rparr> @ [newline]"

definition AppendSnapshotEntityLine :: "int \<Rightarrow> string \<Rightarrow> string" where
  "AppendSnapshotEntityLine qid rawMappings = FormatInt qid @ '' '' @ rawMappings @ [newline]"

definition ParseSnapshotEntityLine :: "string \<Rightarrow> wire_error + int \<times> string" where
  "ParseSnapshotEntityLine line =
     (case IndexByte line CHR '' '' of
        None \<Rightarrow> Inl InvalidSnapshotLine
      | Some sep \<Rightarrow>
          if sep = 0 \<or> sep = length line - 1 then Inl InvalidSnapshotLine
          else (case ParseInt (take sep line) of
                  (_, Some e) \<Rightarrow> Inl (ParseSnapshotQid e)
                | (qid, None) \<Rightarrow> Inr (qid, drop (sep + 1) line)))"

definition ParseSnapshotControl :: "json_codec \<Rightarrow> string \<Rightarrow> wire_error + SnapshotControl" where
  "ParseSnapshotControl J line =
     (if ClassifySnapshotLine line \<noteq> LineControl then Inl InvalidControlLine
      else (case unmarshal_control J line of
              None \<Rightarrow> Inl DecodeControl
            | Some control \<Rightarrow>
                if ctl_Type control = [] then Inl MissingControlType
                else if ctl_Version control \<noteq> SnapshotControlVersion
                then Inl (UnsupportedVersion (ctl_Version control))
                else Inr control))"

definition ParseSnapshotCheckpoint :: "json_codec \<Rightarrow> string \<Rightarrow> wire_error + SnapshotCheckpoint" where
  "ParseSnapshotCheckpoint J line =
     (case ParseSnapshotControl J line of
        Inl e \<Rightarrow> Inl e
      | Inr control \<Rightarrow>
          if ctl_Type control \<noteq> SnapshotControlTypeCheckpoint
          then Inl (UnexpectedControlType (ctl_Type control))
          else (case unmarshal_checkpoint J line of
                  None \<Rightarrow> Inl DecodeControl
                | Some cp \<Rightarrow>
                    if cp_Offset cp < 0 then Inl (InvalidOffset (cp_Offset cp))
                    else if cp_EntitiesBefore cp < 0 then Inl (InvalidEntitiesBefore (cp_EntitiesBefore cp))
                    else Inr cp))"

definition ParseSnapshotDone :: "json_codec \<Rightarrow> string \<Rightarrow> wire_error + SnapshotDone" where
  "ParseSnapshotDone J line =
     (case ParseSnapshotControl J line of
        Inl e \<Rightarrow> Inl e
      | Inr control \<Rightarrow>
          if ctl_Type control \<noteq> SnapshotControlTypeDone
          then Inl (UnexpectedControlType (ctl_Type control))
          else (case unmarshal_done J line of
                  None \<Rightarrow> Inl DecodeControl
                | Some dn \<Rightarrow>
                    if dn_StreamID dn = [] then Inl MissingStreamID
                    else if dn_Entities dn < 0 then Inl (InvalidEntities (dn_Entities dn))
                    else Inr dn))"

definition FormatStreamChangeData :: "int \<Rightarrow> string \<Rightarrow> string" where
  "FormatStreamChangeData qid rawMappings =
     FormatInt qid @ (if rawMappings \<noteq> [] then CHR '' '' # rawMappings else [])"

definition ParseStreamChangeData :: "string \<Rightarrow> wire_error + int \<times> string" where
  "ParseStreamChangeData data =
     (if data = [] then Inl InvalidChangeEvent
      else
        let parse = (\<lambda>qidPart rawMappings.
          (case ParseInt qidPart of
             (_, Some e) \<Rightarrow> Inl (ParseChangeQid e)
           | (qid, None) \<Rightarrow> Inr (qid, rawMappings)))
        in (case IndexByte data CHR '' '' of
              None \<Rightarrow> parse data []
            | Some sep \<Rightarrow>
                if sep = 0 \<or> sep = length data - 1 then Inl InvalidChangeEvent
                else parse (take sep data) (drop (sep + 1) data)))"

section \<open>Reading lines\<close>

text \<open>
  \<open>bufio.Scanner\<close> with \<open>ScanLines\<close> and a buffer of \<open>limit\<close> bytes: lines end at a line feed, one
  carriage return before it is dropped, and what follows the last line feed is a line of its own
  unless it is empty, also when the input ended with an error. A line that does not fit the
  buffer stops the scan with an error.
\<close>

definition drop_cr :: "string \<Rightarrow> string" where
  "drop_cr line = (if line \<noteq> [] \<and> last line = CHR 0x0D then butlast line else line)"

fun scan_pieces :: "nat \<Rightarrow> string list \<Rightarrow> string list \<times> bool" where
  "scan_pieces limit [] = ([], False)"
| "scan_pieces limit [w] =
     (if w = [] then ([], False) else if limit \<le> length w then ([], True) else ([drop_cr w], False))"
| "scan_pieces limit (w # ws) =
     (if limit \<le> length w then ([], True)
      else (case scan_pieces limit ws of (ls, too_long) \<Rightarrow> (drop_cr w # ls, too_long)))"

definition scan_lines :: "nat \<Rightarrow> string \<Rightarrow> string list \<times> bool" where
  "scan_lines limit text = scan_pieces limit (Split text newline)"

definition line_fits :: "nat \<Rightarrow> string \<Rightarrow> bool" where
  "line_fits limit line \<longleftrightarrow> newline \<notin> set line \<and> length line < limit \<and> drop_cr line = line"

definition unlines :: "string list \<Rightarrow> string" where
  "unlines ls = concat (map (\<lambda>l. l @ [newline]) ls)"

lemma unlines_simps [simp]: "unlines [] = []" "unlines (l # ls) = l @ newline # unlines ls"
  "unlines (xs @ ys) = unlines xs @ unlines ys"
  by (simp_all add: unlines_def)

lemma Split_unlines:
  "\<forall>l \<in> set ls. newline \<notin> set l \<Longrightarrow> Split (unlines ls @ t) newline = ls @ Split t newline"
  by (induction ls) (simp_all add: Split_append)

lemma scan_pieces_append:
  assumes "\<forall>l \<in> set ls. line_fits limit l" "ws \<noteq> []"
  shows "scan_pieces limit (ls @ ws) = (ls @ fst (scan_pieces limit ws), snd (scan_pieces limit ws))"
  using assms
proof (induction ls)
  case Nil
  then show ?case by simp
next
  case (Cons l ls)
  then have "ls @ ws \<noteq> []" by simp
  then obtain u us where u: "ls @ ws = u # us" by (cases "ls @ ws") auto
  have "scan_pieces limit (u # us) = (ls @ fst (scan_pieces limit ws), snd (scan_pieces limit ws))"
    using Cons u by simp
  with Cons.prems(1) u show ?case by (simp add: line_fits_def)
qed

text \<open>Lines that fit are read back as they were written, with a truncated line after them.\<close>

lemma scan_unlines_rest:
  assumes "\<forall>l \<in> set ls. line_fits limit l"
  shows "scan_lines limit (unlines ls @ t) =
    (ls @ fst (scan_lines limit t), snd (scan_lines limit t))"
proof -
  have "\<forall>l \<in> set ls. newline \<notin> set l" using assms by (simp add: line_fits_def)
  then show ?thesis
    using scan_pieces_append[OF assms, of "Split t newline"]
    by (simp add: scan_lines_def Split_unlines)
qed

lemma scan_unlines: "\<forall>l \<in> set ls. line_fits limit l \<Longrightarrow> scan_lines limit (unlines ls) = (ls, False)"
  using scan_unlines_rest[of ls limit "[]"] by (simp add: scan_lines_def)

section \<open>Line codecs\<close>

locale line_codec =
  fixes enc :: "'a \<Rightarrow> string"
    and dec :: "string \<Rightarrow> 'e + 'a"
    and ok :: "'a \<Rightarrow> bool"
  assumes dec_enc: "ok x \<Longrightarrow> dec (enc x) = Inr x"
    and no_newline: "ok x \<Longrightarrow> newline \<notin> set (enc x)"
begin

lemma inj: "ok x \<Longrightarrow> ok y \<Longrightarrow> enc x = enc y \<Longrightarrow> x = y"
  by (metis dec_enc sum.inject(2))

lemma read_all:
  assumes "\<forall>x \<in> set xs. ok x \<and> length (enc x) < limit \<and> drop_cr (enc x) = enc x"
  shows "map dec (fst (scan_lines limit (unlines (map enc xs)))) = map Inr xs"
proof -
  have "\<forall>l \<in> set (map enc xs). line_fits limit l"
    using assms no_newline by (auto simp: line_fits_def)
  from scan_unlines[OF this] show ?thesis using assms dec_enc by simp
qed

end

section \<open>The formats are line codecs\<close>

definition raw_ok :: "string \<Rightarrow> bool" where
  "raw_ok raw \<longleftrightarrow> raw \<noteq> [] \<and> newline \<notin> set raw"

definition entity_line_ok :: "int \<times> string \<Rightarrow> bool" where
  "entity_line_ok x \<longleftrightarrow> int64 (fst x) \<and> raw_ok (snd x)"

definition change_ok :: "int \<times> string \<Rightarrow> bool" where
  "change_ok x \<longleftrightarrow> int64 (fst x) \<and> newline \<notin> set (snd x)"

definition entity_line :: "int \<times> string \<Rightarrow> string" where
  "entity_line x = butlast (AppendSnapshotEntityLine (fst x) (snd x))"

definition change_data :: "int \<times> string \<Rightarrow> string" where
  "change_data x = FormatStreamChangeData (fst x) (snd x)"

lemma entity_line: "entity_line (q, m) = FormatInt q @ CHR '' '' # m"
  "AppendSnapshotEntityLine q m = entity_line (q, m) @ [newline]"
  by (simp_all add: entity_line_def AppendSnapshotEntityLine_def butlast_append)

lemma index_space: "IndexByte (FormatInt q @ CHR '' '' # m) CHR '' '' = Some (length (FormatInt q))"
  by (simp add: IndexByte_append)

lemma parse_entity_line:
  assumes "int64 q" "m \<noteq> []"
  shows "ParseSnapshotEntityLine (FormatInt q @ CHR '' '' # m) = Inr (q, m)"
proof -
  have "length (FormatInt q) \<noteq> 0" by simp
  then show ?thesis using assms by (simp add: ParseSnapshotEntityLine_def index_space)
qed

lemma parse_change_data:
  assumes "int64 q"
  shows "ParseStreamChangeData (FormatStreamChangeData q m) = Inr (q, m)"
proof (cases "m = []")
  case True
  have "IndexByte (FormatInt q) CHR '' '' = None" by (simp add: IndexByte_None)
  with assms True show ?thesis by (simp add: ParseStreamChangeData_def FormatStreamChangeData_def)
next
  case False
  have "length (FormatInt q) \<noteq> 0" by simp
  with assms False show ?thesis
    by (simp add: ParseStreamChangeData_def FormatStreamChangeData_def index_space)
qed

interpretation entity_codec: line_codec entity_line ParseSnapshotEntityLine entity_line_ok
proof (unfold_locales, goal_cases)
  case (1 x)
  then show ?case
    by (cases x) (simp add: entity_line parse_entity_line entity_line_ok_def raw_ok_def)
next
  case (2 x)
  then show ?case by (cases x) (simp add: entity_line entity_line_ok_def raw_ok_def)
qed

interpretation change_codec: line_codec change_data ParseStreamChangeData change_ok
proof (unfold_locales, goal_cases)
  case (1 x)
  then show ?case by (cases x) (simp add: change_data_def parse_change_data change_ok_def)
next
  case (2 x)
  then show ?case by (cases x) (simp add: change_data_def FormatStreamChangeData_def change_ok_def)
qed

section \<open>Control lines\<close>

definition checkpoint_of :: "int \<times> int \<Rightarrow> SnapshotCheckpoint" where
  "checkpoint_of x = \<lparr>cp_Type = SnapshotControlTypeCheckpoint, cp_Version = SnapshotControlVersion,
     cp_Offset = fst x, cp_EntitiesBefore = snd x\<rparr>"

definition done_of :: "string \<times> int \<Rightarrow> SnapshotDone" where
  "done_of x = \<lparr>dn_Type = SnapshotControlTypeDone, dn_Version = SnapshotControlVersion,
     dn_StreamID = fst x, dn_Entities = snd x\<rparr>"

text \<open>IDs and other texts that JSON leaves as they are.\<close>

definition plain_id :: "string \<Rightarrow> bool" where
  "plain_id s \<longleftrightarrow> s \<noteq> [] \<and> (\<forall>c \<in> set s. is_digit c \<or> c = CHR ''-'')"

definition json_line :: "string \<Rightarrow> bool" where
  "json_line s \<longleftrightarrow> ClassifySnapshotLine s = LineControl \<and> newline \<notin> set s \<and> drop_cr s = s"

definition json_ok :: "json_codec \<Rightarrow> bool" where
  "json_ok J \<longleftrightarrow>
     (\<forall>o' n. int64 o' \<and> int64 n \<longrightarrow>
        (let x = checkpoint_of (o', n); s = marshal_checkpoint J x in
         json_line s \<and> unmarshal_checkpoint J s = Some x \<and>
         unmarshal_control J s = Some \<lparr>ctl_Type = cp_Type x, ctl_Version = cp_Version x\<rparr>)) \<and>
     (\<forall>i n. plain_id i \<and> int64 n \<longrightarrow>
        (let x = done_of (i, n); s = marshal_done J x in
         json_line s \<and> unmarshal_done J s = Some x \<and>
         unmarshal_control J s = Some \<lparr>ctl_Type = dn_Type x, ctl_Version = dn_Version x\<rparr>))"

definition count_pair :: "int \<times> int \<Rightarrow> bool" where
  "count_pair x \<longleftrightarrow> 0 \<le> fst x \<and> 0 \<le> snd x \<and> int64 (fst x) \<and> int64 (snd x)"

definition done_pair :: "string \<times> int \<Rightarrow> bool" where
  "done_pair x \<longleftrightarrow> plain_id (fst x) \<and> 0 \<le> snd x \<and> int64 (snd x)"

lemmas control_defs = checkpoint_of_def done_of_def SnapshotControlVersion_def
  SnapshotControlTypeCheckpoint_def SnapshotControlTypeDone_def

lemma json_ok_checkpoint:
  assumes "json_ok J" "count_pair x"
  shows "json_line (marshal_checkpoint J (checkpoint_of x))"
    and "ParseSnapshotControl J (marshal_checkpoint J (checkpoint_of x)) =
      Inr \<lparr>ctl_Type = SnapshotControlTypeCheckpoint, ctl_Version = SnapshotControlVersion\<rparr>"
    and "ParseSnapshotCheckpoint J (marshal_checkpoint J (checkpoint_of x)) = Inr (checkpoint_of x)"
proof -
  have law: "json_line (marshal_checkpoint J (checkpoint_of x))"
    "unmarshal_checkpoint J (marshal_checkpoint J (checkpoint_of x)) = Some (checkpoint_of x)"
    "unmarshal_control J (marshal_checkpoint J (checkpoint_of x)) =
      Some \<lparr>ctl_Type = SnapshotControlTypeCheckpoint, ctl_Version = SnapshotControlVersion\<rparr>"
    using assms unfolding json_ok_def count_pair_def Let_def
    by (cases x; auto simp: checkpoint_of_def)+
  show "json_line (marshal_checkpoint J (checkpoint_of x))" by (rule law)
  show c: "ParseSnapshotControl J (marshal_checkpoint J (checkpoint_of x)) =
      Inr \<lparr>ctl_Type = SnapshotControlTypeCheckpoint, ctl_Version = SnapshotControlVersion\<rparr>"
    using law by (simp add: ParseSnapshotControl_def json_line_def SnapshotControlTypeCheckpoint_def)
  have "\<not> cp_Offset (checkpoint_of x) < 0" "\<not> cp_EntitiesBefore (checkpoint_of x) < 0"
    using assms(2) by (simp_all add: count_pair_def checkpoint_of_def)
  with c law(2) show "ParseSnapshotCheckpoint J (marshal_checkpoint J (checkpoint_of x)) = Inr (checkpoint_of x)"
    by (simp add: ParseSnapshotCheckpoint_def)
qed

lemma json_ok_done:
  assumes "json_ok J" "done_pair x"
  shows "json_line (marshal_done J (done_of x))"
    and "ParseSnapshotControl J (marshal_done J (done_of x)) =
      Inr \<lparr>ctl_Type = SnapshotControlTypeDone, ctl_Version = SnapshotControlVersion\<rparr>"
    and "ParseSnapshotDone J (marshal_done J (done_of x)) = Inr (done_of x)"
proof -
  have law: "json_line (marshal_done J (done_of x))"
    "unmarshal_done J (marshal_done J (done_of x)) = Some (done_of x)"
    "unmarshal_control J (marshal_done J (done_of x)) =
      Some \<lparr>ctl_Type = SnapshotControlTypeDone, ctl_Version = SnapshotControlVersion\<rparr>"
    using assms unfolding json_ok_def done_pair_def Let_def
    by (cases x; auto simp: done_of_def)+
  show "json_line (marshal_done J (done_of x))" by (rule law)
  show c: "ParseSnapshotControl J (marshal_done J (done_of x)) =
      Inr \<lparr>ctl_Type = SnapshotControlTypeDone, ctl_Version = SnapshotControlVersion\<rparr>"
    using law by (simp add: ParseSnapshotControl_def json_line_def SnapshotControlTypeDone_def)
  have "dn_StreamID (done_of x) \<noteq> []" "\<not> dn_Entities (done_of x) < 0"
    using assms(2) by (simp_all add: done_pair_def done_of_def plain_id_def)
  with c law(2) show "ParseSnapshotDone J (marshal_done J (done_of x)) = Inr (done_of x)"
    by (simp add: ParseSnapshotDone_def)
qed

interpretation checkpoint_codec: line_codec "\<lambda>x. marshal_checkpoint J (checkpoint_of x)"
  "\<lambda>s. map_sum id (\<lambda>cp. (cp_Offset cp, cp_EntitiesBefore cp)) (ParseSnapshotCheckpoint J s)"
  "\<lambda>x. json_ok J \<and> count_pair x" for J
proof (unfold_locales, goal_cases)
  case (1 x)
  then show ?case by (simp add: json_ok_checkpoint(3)) (simp add: checkpoint_of_def)
next
  case (2 x)
  then show ?case using json_ok_checkpoint(1)[of J x] by (simp add: json_line_def)
qed

interpretation done_codec: line_codec "\<lambda>x. marshal_done J (done_of x)"
  "\<lambda>s. map_sum id (\<lambda>dn. (dn_StreamID dn, dn_Entities dn)) (ParseSnapshotDone J s)"
  "\<lambda>x. json_ok J \<and> done_pair x" for J
proof (unfold_locales, goal_cases)
  case (1 x)
  then show ?case by (simp add: json_ok_done(3)) (simp add: done_of_def)
next
  case (2 x)
  then show ?case using json_ok_done(1)[of J x] by (simp add: json_line_def)
qed

section \<open>The JSON text of control lines\<close>

text \<open>
  The library's output on the two control records, and a decoder for exactly this text: the
  hypothesis \<open>json_ok\<close> holds for it.
\<close>

definition control_text :: "string \<Rightarrow> (string \<times> string) list \<Rightarrow> string" where
  "control_text typ fs =
     ''{\"type\":\"'' @ typ @ ''\",\"v\":1'' @ concat (map (\<lambda>(k, x). '',\"'' @ k @ ''\":'' @ x) fs) @ ''}''"

definition checkpoint_text :: "SnapshotCheckpoint \<Rightarrow> string" where
  "checkpoint_text cp = control_text (cp_Type cp)
     [(''offset'', FormatInt (cp_Offset cp)), (''entities_before'', FormatInt (cp_EntitiesBefore cp))]"

definition done_text :: "SnapshotDone \<Rightarrow> string" where
  "done_text dn = control_text (dn_Type dn)
     [(''stream_id'', CHR 0x22 # dn_StreamID dn @ [CHR 0x22]), (''entities'', FormatInt (dn_Entities dn))]"

text \<open>The values after the type: between the colons and the commas.\<close>

definition control_values :: "string \<Rightarrow> string list" where
  "control_values text = map (\<lambda>f. drop 1 (dropWhile (\<lambda>c. c \<noteq> CHR '':'') f)) (Split (butlast text) CHR '','')"

definition text_codec :: json_codec where
  "text_codec = \<lparr>marshal_checkpoint = checkpoint_text, marshal_done = done_text,
     unmarshal_control = (\<lambda>s. case control_values s of
         t # v # _ \<Rightarrow> Some \<lparr>ctl_Type = butlast (drop 1 t), ctl_Version = fst (ParseInt v)\<rparr>
       | _ \<Rightarrow> None),
     unmarshal_checkpoint = (\<lambda>s. case control_values s of
         [t, v, x, y] \<Rightarrow> Some \<lparr>cp_Type = butlast (drop 1 t), cp_Version = fst (ParseInt v),
           cp_Offset = fst (ParseInt x), cp_EntitiesBefore = fst (ParseInt y)\<rparr>
       | _ \<Rightarrow> None),
     unmarshal_done = (\<lambda>s. case control_values s of
         [t, v, x, y] \<Rightarrow> Some \<lparr>dn_Type = butlast (drop 1 t), dn_Version = fst (ParseInt v),
           dn_StreamID = butlast (drop 1 x), dn_Entities = fst (ParseInt y)\<rparr>
       | _ \<Rightarrow> None)\<rparr>"

lemma control_values_text:
  assumes "CHR '','' \<notin> set typ" "CHR '','' \<notin> set x" "CHR '','' \<notin> set y"
    and "CHR '','' \<notin> set k" "CHR '','' \<notin> set l" "CHR '':'' \<notin> set k" "CHR '':'' \<notin> set l"
  shows "control_values (control_text typ [(k, x), (l, y)]) = [CHR 0x22 # typ @ [CHR 0x22], ''1'', x, y]"
proof -
  have e: "butlast (control_text typ [(k, x), (l, y)]) =
      (''{\"type\":\"'' @ typ @ ''\"'') @ CHR '','' # ''\"v\":1'' @ CHR '','' #
      (''\"'' @ k @ ''\":'' @ x) @ CHR '','' # (''\"'' @ l @ ''\":'' @ y)"
    by (simp add: control_text_def butlast_append)
  have d: "dropWhile (\<lambda>c. c \<noteq> CHR '':'') (k @ z) = dropWhile (\<lambda>c. c \<noteq> CHR '':'') z"
    "dropWhile (\<lambda>c. c \<noteq> CHR '':'') (l @ z) = dropWhile (\<lambda>c. c \<noteq> CHR '':'') z" for z
    using assms(6,7) by (auto intro!: dropWhile_append2)
  have "Split (butlast (control_text typ [(k, x), (l, y)])) CHR '','' =
      [''{\"type\":\"'' @ typ @ ''\"'', ''\"v\":1'', ''\"'' @ k @ ''\":'' @ x, ''\"'' @ l @ ''\":'' @ y]"
    unfolding e using assms by (subst Split_append, simp, subst Split_append, simp)
      (subst Split_append, simp, simp add: Split_no_sep)
  then show ?thesis by (simp add: control_values_def d)
qed

lemma control_text_line:
  assumes "newline \<notin> set typ" "newline \<notin> set x" "newline \<notin> set y" "newline \<notin> set k" "newline \<notin> set l"
  shows "json_line (control_text typ [(k, x), (l, y)])"
  using assms by (simp add: json_line_def ClassifySnapshotLine_def control_text_def drop_cr_def)

lemma plain_id_no: "plain_id s \<Longrightarrow> \<not> is_digit c \<Longrightarrow> c \<noteq> CHR ''-'' \<Longrightarrow> c \<notin> set s"
  by (auto simp: plain_id_def)

lemma ParseInt_one: "ParseInt ''1'' = (1, None)"
proof -
  have "FormatInt 1 = ''1''" by code_simp
  moreover have "ParseInt (FormatInt 1) = (1, None)" by (simp add: int64_def)
  ultimately show ?thesis by simp
qed

lemma text_codec_ok: "json_ok text_codec"
proof -
  have cp: "json_line (checkpoint_text (checkpoint_of (o', n)))"
    "control_values (checkpoint_text (checkpoint_of (o', n))) =
       [''\"checkpoint\"'', ''1'', FormatInt o', FormatInt n]" for o' n
    unfolding checkpoint_text_def
    by (rule control_text_line; simp add: control_defs)
      (subst control_values_text; simp add: control_defs)
  have dn: "json_line (done_text (done_of (i, n)))"
    "control_values (done_text (done_of (i, n))) =
       [''\"done\"'', ''1'', CHR 0x22 # i @ [CHR 0x22], FormatInt n]" if "plain_id i" for i n
    unfolding done_text_def
    by (rule control_text_line; simp add: control_defs plain_id_no[OF that])
      (subst control_values_text; simp add: control_defs plain_id_no[OF that])
  show ?thesis
    using cp dn by (simp add: json_ok_def text_codec_def Let_def ParseInt_one control_defs)
qed

end
