(* ===== verification/StreamServe.thy ===== *)
theory StreamServe
  imports Reader Protocol
begin

text \<open>
  \<open>internal/replicate/stream.go\<close>: the SSE endpoint that serves the changelog. A request is its
  parameters; what happens while it is served (the database at each read, failing reads, the
  client or the deadline ending it) is the list \<open>rounds\<close>, one element per turn of the loop.

  The results: a request's bounds are within the server's, the coverage check accepts a cursor
  only if nothing after it has been trimmed, and what is sent is a contiguous part of the
  changelog after the cursor, in order.
\<close>

section \<open>Requests\<close>

record StreamLimits =
  MaxEvents :: int
  MaxTimeout :: int

record streamRequestOptions =
  opt_limit :: int
  opt_timeout :: int

definition StreamReadCount :: int where "StreamReadCount = 100"

text \<open>Durations are nanoseconds.\<close>

definition KeepAliveInterval :: int where "KeepAliveInterval = 15 * 10 ^ 9"
definition MaxConnectionDuration :: int where "MaxConnectionDuration = 15 * 60 * 10 ^ 9"

definition DefaultStreamLimits :: StreamLimits where
  "DefaultStreamLimits = \<lparr>MaxEvents = 2 ^ 63 - 1, MaxTimeout = MaxConnectionDuration\<rparr>"

text \<open>Query and header values that are absent read as the empty string.\<close>

definition resolveStreamCursor :: "string \<Rightarrow> string \<Rightarrow> string" where
  "resolveStreamCursor since lastEventID =
     (if since \<noteq> [] then since else if lastEventID \<noteq> [] then lastEventID else ''0'')"

datatype request_error =
    MaxEventsNotPositive | MaxTimeoutNegative | InvalidLimit string | InvalidTimeout

text \<open>\<open>parse_duration\<close> stands for \<open>time.ParseDuration\<close>; \<open>timeouts\<close> are the values of a parameter that is present.\<close>

definition timeout_option ::
  "(string \<Rightarrow> int option) \<Rightarrow> StreamLimits \<Rightarrow> string list option \<Rightarrow> int \<Rightarrow> request_error + streamRequestOptions" where
  "timeout_option parse_duration limits timeouts lim =
     (case timeouts of
        None \<Rightarrow> Inr \<lparr>opt_limit = lim, opt_timeout = MaxTimeout limits\<rparr>
      | Some raw \<Rightarrow>
          if length raw \<noteq> 1 \<or> hd raw = [] then Inl InvalidTimeout
          else (case parse_duration (hd raw) of
                  None \<Rightarrow> Inl InvalidTimeout
                | Some requested \<Rightarrow>
                    if requested < 0 then Inl InvalidTimeout
                    else Inr \<lparr>opt_limit = lim,
                      opt_timeout = (if requested < MaxTimeout limits then requested else MaxTimeout limits)\<rparr>))"

definition parseStreamRequestOptions ::
  "(string \<Rightarrow> int option) \<Rightarrow> StreamLimits \<Rightarrow> string \<Rightarrow> string list option \<Rightarrow> request_error + streamRequestOptions" where
  "parseStreamRequestOptions parse_duration limits raw_limit timeouts =
     (if MaxEvents limits \<le> 0 then Inl MaxEventsNotPositive
      else if MaxTimeout limits < 0 then Inl MaxTimeoutNegative
      else if raw_limit = [] then timeout_option parse_duration limits timeouts (MaxEvents limits)
      else (case ParseInt raw_limit of
              (_, Some _) \<Rightarrow> Inl (InvalidLimit raw_limit)
            | (requested, None) \<Rightarrow>
                if requested \<le> 0 then Inl (InvalidLimit raw_limit)
                else timeout_option parse_duration limits timeouts
                  (if requested < MaxEvents limits then requested else MaxEvents limits)))"

text \<open>\<open>remaining\<close> is the time to the deadline of the request, if it has one.\<close>

definition streamReadBlock :: "int option \<Rightarrow> int \<Rightarrow> int" where
  "streamReadBlock remaining timeout =
     (if timeout = 0 then 0
      else (case remaining of
              None \<Rightarrow> KeepAliveInterval
            | Some r \<Rightarrow> if r \<le> 0 then 0 else if r < KeepAliveInterval then r else KeepAliveInterval))"

section \<open>Coverage\<close>

definition compareStreamIDs :: "string \<Rightarrow> string \<Rightarrow> int" where
  "compareStreamIDs a b =
     (let aParts = SplitN2 a CHR ''-''; bParts = SplitN2 b CHR ''-'';
          aMS = fst (ParseUint (aParts ! 0)); bMS = fst (ParseUint (bParts ! 0))
      in if aMS < bMS then -1
         else if aMS > bMS then 1
         else
           let aSeq = (if 1 < length aParts then fst (ParseUint (aParts ! 1)) else 0);
               bSeq = (if 1 < length bParts then fst (ParseUint (bParts ! 1)) else 0)
           in if aSeq < bSeq then -1 else if aSeq > bSeq then 1 else 0)"

datatype gap_error = InitialConnection | StoreUnavailable | NoRetainedEntries string | SinceTooOld string string

definition checkStreamGap :: "'s redis \<Rightarrow> bool \<Rightarrow> bool \<Rightarrow> bool \<Rightarrow> string \<Rightarrow> 's \<Rightarrow> gap_error option" where
  "checkStreamGap R a1 a2 a3 since s =
     (if since = ''0'' \<or> since = ''0-0'' then Some InitialConnection
      else (case StreamInfo R a1 a2 a3 s of
              Inl _ \<Rightarrow> Some StoreUnavailable
            | Inr (firstID, _, _) \<Rightarrow>
                if firstID = [] then Some (NoRetainedEntries since)
                else if compareStreamIDs since firstID < 0 then Some (SinceTooOld since firstID)
                else None))"

section \<open>Serving\<close>

text \<open>One turn of the loop: the context before it, the read, the database it reads, the context after it.\<close>

record 's round =
  rd_cancelled :: bool
  rd_answered :: bool
  rd_state :: 's
  rd_expired :: bool

datatype chunk = Keepalive | Changes "ChangeEvent list"

fun serve_rounds ::
  "'s redis \<Rightarrow> int \<Rightarrow> int \<Rightarrow> 's round list \<Rightarrow> string \<Rightarrow> int \<Rightarrow> chunk list" where
  "serve_rounds R limit timeout [] cursor eventsSent = []"
| "serve_rounds R limit timeout (rd # rds) cursor eventsSent =
     (if \<not> eventsSent < limit then []
      else if rd_cancelled rd then []
      else
        let count = (if limit - eventsSent < StreamReadCount then limit - eventsSent else StreamReadCount) in
        (case StreamRead R (rd_answered rd) cursor (nat count) (rd_state rd) of
           Inl _ \<Rightarrow> []
         | Inr events \<Rightarrow>
             if events = [] then
               (if timeout = 0 \<or> rd_expired rd then []
                else Keepalive # serve_rounds R limit timeout rds cursor eventsSent)
             else Changes events #
               serve_rounds R limit timeout rds (ce_ID (last events)) (eventsSent + int (length events))))"

definition crlf2 :: string where "crlf2 = [newline, newline]"

definition render_event :: "ChangeEvent \<Rightarrow> string" where
  "render_event ev = ''id: '' @ ce_ID ev @ [newline] @ ''event: change'' @ [newline] @ ''data: '' @
     FormatStreamChangeData (ce_QID ev) (ce_RawMappings ev) @ crlf2"

fun render_chunk :: "chunk \<Rightarrow> string" where
  "render_chunk Keepalive = '': keepalive'' @ crlf2"
| "render_chunk (Changes evs) = concat (map render_event evs)"

definition preamble :: string where
  "preamble = '': connected'' @ [newline] @ ''retry: 3000'' @ crlf2"

datatype http_response = HttpError nat | HttpStream string

text \<open>
  \<open>marshal_reset\<close> stands for the JSON encoder on the data of a reset: the reason and, if the
  statistics could be read, the state of the store.
\<close>

definition ServeStream ::
  "'s redis \<Rightarrow> (string \<Rightarrow> int option) \<Rightarrow> (gap_error \<Rightarrow> string option \<Rightarrow> string) \<Rightarrow> StreamLimits \<Rightarrow> bool \<Rightarrow>
   string \<Rightarrow> string \<Rightarrow> string \<Rightarrow> string list option \<Rightarrow> bool \<times> bool \<times> bool \<Rightarrow> (store_error + DBStats) \<Rightarrow>
   's round list \<Rightarrow> 's \<Rightarrow> http_response" where
  "ServeStream R parse_duration marshal_reset limits can_flush since_param last_id raw_limit timeouts
     answers stats rounds s =
     (case parseStreamRequestOptions parse_duration limits raw_limit timeouts of
        Inl _ \<Rightarrow> HttpError 400
      | Inr options \<Rightarrow>
          let since = resolveStreamCursor since_param last_id in
          if \<not> can_flush then HttpError 500
          else (case answers of (a1, a2, a3) \<Rightarrow>
            (case checkStreamGap R a1 a2 a3 since s of
               Some StoreUnavailable \<Rightarrow> HttpError 503
             | Some err \<Rightarrow>
                 let state = (case stats of Inl _ \<Rightarrow> None | Inr st \<Rightarrow> Some (hi_State (st_Health st))) in
                 HttpStream (''retry: 3000'' @ [newline] @ ''event: reset'' @ [newline] @ ''data: '' @
                   marshal_reset err state @ crlf2)
             | None \<Rightarrow>
                 HttpStream (preamble @ concat (map render_chunk
                   (serve_rounds R (opt_limit options) (opt_timeout options) rounds since 0))))))"

section \<open>Options\<close>

text \<open>
  A request that is accepted is bounded by the server: between one event and the server's
  maximum, and at most the server's timeout; and a server configured with positive bounds
  refuses only requests with a malformed or non-positive parameter.
\<close>

theorem parseStreamRequestOptions_bounded:
  "(parseStreamRequestOptions pd limits raw timeouts = Inr opts \<longrightarrow>
     0 < opt_limit opts \<and> opt_limit opts \<le> MaxEvents limits \<and>
     0 \<le> opt_timeout opts \<and> opt_timeout opts \<le> MaxTimeout limits) \<and>
   (0 < MaxEvents limits \<and> 0 \<le> MaxTimeout limits \<and> raw = [] \<and> timeouts = None \<longrightarrow>
     parseStreamRequestOptions pd limits raw timeouts =
       Inr \<lparr>opt_limit = MaxEvents limits, opt_timeout = MaxTimeout limits\<rparr>)"
proof -
  have timeout: "opt_limit opts = lim \<and> 0 \<le> opt_timeout opts \<and> opt_timeout opts \<le> MaxTimeout limits"
    if "timeout_option pd limits timeouts lim = Inr opts" "0 \<le> MaxTimeout limits" for lim
    using that unfolding timeout_option_def by (auto split: option.splits if_splits)
  obtain n e where "ParseInt raw = (n, e)" by fastforce
  then have "parseStreamRequestOptions pd limits raw timeouts = Inr opts \<longrightarrow>
     0 < opt_limit opts \<and> opt_limit opts \<le> MaxEvents limits \<and>
     0 \<le> opt_timeout opts \<and> opt_timeout opts \<le> MaxTimeout limits"
    using timeout[of "MaxEvents limits"] timeout[of n]
    unfolding parseStreamRequestOptions_def by (cases e) (simp_all split: if_splits)
  then show ?thesis by (simp add: parseStreamRequestOptions_def timeout_option_def)
qed

text \<open>
  A read blocks for at most the keepalive interval, never past the request's deadline, and not at
  all for a request without a timeout.
\<close>

theorem streamReadBlock_bounded:
  "0 \<le> streamReadBlock remaining timeout \<and> streamReadBlock remaining timeout \<le> KeepAliveInterval \<and>
   (\<forall>r. remaining = Some r \<longrightarrow> streamReadBlock remaining timeout \<le> max r 0) \<and>
   (timeout = 0 \<longrightarrow> streamReadBlock remaining timeout = 0) \<and>
   (timeout \<noteq> 0 \<and> (\<forall>r. remaining = Some r \<longrightarrow> 0 < r) \<longrightarrow> 0 < streamReadBlock remaining timeout)"
  by (auto simp: streamReadBlock_def KeepAliveInterval_def split: option.splits)

section \<open>Stream IDs\<close>

lemma compare_sid:
  "compareStreamIDs a b =
     (if sid_less (sid_of a) (sid_of b) then -1 else if sid_of a = sid_of b then 0 else 1)"
proof -
  define ta tb where "ta = sid_of a" and "tb = sid_of b"
  have parts: "fst (ParseUint (SplitN2 x CHR ''-'' ! 0)) = fst (sid_of x)"
    "(if 1 < length (SplitN2 x CHR ''-'') then fst (ParseUint (SplitN2 x CHR ''-'' ! 1)) else 0) = snd (sid_of x)" for x
    by (auto simp: SplitN2_def sid_of_def split: option.splits)
  show ?thesis
    unfolding compareStreamIDs_def Let_def parts ta_def[symmetric] tb_def[symmetric]
    by (cases ta; cases tb) (auto simp: sid_less_def)
qed

lemma sid_less_asym: "sid_less a b \<Longrightarrow> \<not> sid_less b a"
  by (auto simp: sid_less_def)

lemma sid_total: "sid_less a b \<or> a = b \<or> sid_less b a"
  using sid_not_less by blast

text \<open>
  \<open>compareStreamIDs\<close> orders all texts by the pair of their milliseconds and sequence number: it is
  antisymmetric, its negative values are transitive, and on printed IDs 0 means equal.
\<close>

theorem compareStreamIDs_order:
  "compareStreamIDs a b = - compareStreamIDs b a \<and>
   (compareStreamIDs a b < 0 \<and> compareStreamIDs b c < 0 \<longrightarrow> compareStreamIDs a c < 0) \<and>
   (sid64 s \<and> sid64 t \<longrightarrow> (compareStreamIDs (sid_str s) (sid_str t) = 0 \<longleftrightarrow> s = t) \<and>
      (compareStreamIDs (sid_str s) (sid_str t) < 0 \<longleftrightarrow> sid_less s t))"
proof -
  have "compareStreamIDs a b = - compareStreamIDs b a"
    unfolding compare_sid using sid_total[of "sid_of a" "sid_of b"]
  proof (elim disjE)
    assume "sid_less (sid_of a) (sid_of b)"
    with sid_less_asym[OF this] show "(if sid_less (sid_of a) (sid_of b) then -1 else if sid_of a = sid_of b then 0 else 1) =
        - (if sid_less (sid_of b) (sid_of a) then -1 else if sid_of b = sid_of a then 0 else 1 :: int)"
      by (cases "sid_of a = sid_of b") simp_all
  next
    assume "sid_of a = sid_of b"
    then show "(if sid_less (sid_of a) (sid_of b) then -1 else if sid_of a = sid_of b then 0 else 1) =
        - (if sid_less (sid_of b) (sid_of a) then -1 else if sid_of b = sid_of a then 0 else 1 :: int)"
      by simp
  next
    assume "sid_less (sid_of b) (sid_of a)"
    with sid_less_asym[OF this] show "(if sid_less (sid_of a) (sid_of b) then -1 else if sid_of a = sid_of b then 0 else 1) =
        - (if sid_less (sid_of b) (sid_of a) then -1 else if sid_of b = sid_of a then 0 else 1 :: int)"
      by (cases "sid_of a = sid_of b") simp_all
  qed
  moreover have "compareStreamIDs a b < 0 \<and> compareStreamIDs b c < 0 \<longrightarrow> compareStreamIDs a c < 0"
  proof -
    have "compareStreamIDs x y < 0 \<longleftrightarrow> sid_less (sid_of x) (sid_of y)" for x y by (simp add: compare_sid)
    then show ?thesis using sid_less_trans by blast
  qed
  ultimately show ?thesis by (simp add: compare_sid)
qed

section \<open>Coverage\<close>

abbreviation after :: "sid \<Rightarrow> stream_entry list \<Rightarrow> stream_entry list" where
  "after t es \<equiv> filter (\<lambda>e. sid_less t (sid_of (fst e))) es"

text \<open>A position that is not before the first retained entry has lost no entry after it.\<close>

lemma covered:
  assumes H: "ids_ok H" and d: "drop n H \<noteq> []" "\<not> sid_less t (sid_of (fst (hd (drop n H))))"
  shows "drop n H \<noteq> [] \<and> after t (drop n H) = after t H"
proof -
  have n: "n < length H" using d(1) by simp
  have hd: "hd (drop n H) = H ! n" using n by (rule hd_drop_conv_nth)
  have "\<not> sid_less t (sid_of (fst e))" if e: "e \<in> set (take n H)" for e
  proof
    assume less: "sid_less t (sid_of (fst e))"
    have "e \<in> set (older (sid_of (fst (H ! n))) H)" unfolding older_nth(1)[OF H n] by (rule e)
    then have "sid_less (sid_of (fst e)) (sid_of (fst (H ! n)))" by (simp add: older_def)
    with less d(2) hd show False using sid_less_trans by metis
  qed
  then have "after t (take n H) = []" by (simp add: filter_empty_conv)
  moreover have "after t H = after t (take n H) @ after t (drop n H)"
    unfolding filter_append[symmetric] by simp
  ultimately show ?thesis using d(1) by simp
qed

text \<open>
  Claim C26: \<open>checkStreamGap\<close> accepts a cursor only if the changelog still has every entry after it that was
  ever written: \<open>H\<close> is all of the history, of which the changelog retains what was not trimmed.
  It refuses a cursor that the changelog covers only if it is the initial position.
\<close>

theorem checkStreamGap_sound:
  assumes R: "redis_ok R v" and H: "ids_ok H" and es: "streams (v s) changelogKey = drop n H"
    and t: "sid64 t"
  shows "(checkStreamGap R True True True (sid_str t) s = None \<longrightarrow>
      drop n H \<noteq> [] \<and> after t (drop n H) = after t H) \<and>
    (drop n H \<noteq> [] \<and> \<not> sid_less t (sid_of (fst (hd (drop n H)))) \<and> sid_str t \<noteq> ''0-0'' \<longrightarrow>
      checkStreamGap R True True True (sid_str t) s = None)"
proof -
  have ids: "ids_ok (drop n H)" by (rule ids_ok_drop[OF H])
  have zero: "sid_str t \<noteq> ''0''"
  proof
    assume "sid_str t = ''0''"
    then have "CHR ''-'' \<in> set ''0''" unfolding sid_str_def by (metis in_set_conv_decomp append_Cons append_Nil)
    then show False by simp
  qed
  have info: "StreamInfo R True True True s = Inr (if drop n H = [] then ([], [], 0)
      else (fst (hd (drop n H)), fst (last (drop n H)), length (drop n H)))"
    and ne: "drop n H \<noteq> [] \<longrightarrow> fst (hd (drop n H)) \<noteq> []"
    using stream_info[OF R ids es[symmetric]] by blast+
  have gap: "checkStreamGap R True True True (sid_str t) s = None \<longleftrightarrow>
      sid_str t \<noteq> ''0-0'' \<and> drop n H \<noteq> [] \<and> \<not> sid_less t (sid_of (fst (hd (drop n H))))"
    using ne t zero by (cases "drop n H = []") (auto simp: checkStreamGap_def info compare_sid)
  with covered[OF H, of n t] show ?thesis by blast
qed

section \<open>What is sent\<close>

fun sent_events :: "chunk list \<Rightarrow> ChangeEvent list" where
  "sent_events [] = []"
| "sent_events (Keepalive # cs) = sent_events cs"
| "sent_events (Changes evs # cs) = evs @ sent_events cs"

text \<open>Where a cursor stands in the entries to be sent.\<close>

definition cursor_at :: "sid \<Rightarrow> stream_entry list \<Rightarrow> nat \<Rightarrow> sid \<Rightarrow> bool" where
  "cursor_at t F m c \<longleftrightarrow> sid64 c \<and> m \<le> length F \<and> \<not> sid_less c t \<and> (\<forall>k. after c (take k F) = drop m (take k F))"

lemma after_nth:
  assumes F: "ids_ok F" "m < length F"
  shows "after (sid_of (fst (F ! m))) (take k F) = drop (Suc m) (take k F)"
proof -
  let ?c = "sid_of (fst (F ! m))"
  have inc: "sorted_wrt (\<lambda>a b. sid_less (sid_of (fst a)) (sid_of (fst b))) F"
    using F(1) by (simp add: ids_ok_def ids_increasing_def)
  have lt: "sid_less ?c (sid_of (fst (F ! j)))" if "m < j" "j < length F" for j
    using sorted_wrt_nth_less[OF inc that] .
  have gt: "\<not> sid_less ?c (sid_of (fst (F ! j)))" if "j \<le> m" for j
  proof (cases "j = m")
    case True
    then show ?thesis by simp
  next
    case False
    with that have "sid_less (sid_of (fst (F ! j))) ?c" using sorted_wrt_nth_less[OF inc, of j m] F(2) by simp
    then show ?thesis by (rule sid_less_asym)
  qed
  have "after ?c (take (Suc m) (take k F)) = []"
  proof -
    have "\<not> sid_less ?c (sid_of (fst e))" if "e \<in> set (take (Suc m) (take k F))" for e
    proof -
      from that obtain j where "j < length (take (Suc m) (take k F))" "e = take (Suc m) (take k F) ! j"
        by (auto simp: in_set_conv_nth)
      then have "j \<le> m" "e = F ! j" by auto
      then show ?thesis using gt by blast
    qed
    then show ?thesis by (simp add: filter_empty_conv)
  qed
  moreover have "after ?c (drop (Suc m) (take k F)) = drop (Suc m) (take k F)"
  proof -
    have "sid_less ?c (sid_of (fst e))" if "e \<in> set (drop (Suc m) (take k F))" for e
    proof -
      from that obtain j where j: "j < length (drop (Suc m) (take k F))" "e = drop (Suc m) (take k F) ! j"
        by (auto simp: in_set_conv_nth)
      from j(1) have "j < length (take k F) - Suc m" by (simp only: length_drop)
      then have b: "Suc m \<le> length (take k F)" "Suc m + j < length (take k F)" by linarith+
      with j(2) have "e = F ! (Suc m + j)" "Suc m + j < length F"
        by (simp_all add: nth_drop[OF b(1)])
      then show ?thesis using lt[of "Suc m + j"] by simp
    qed
    then show ?thesis by (simp add: filter_id_conv)
  qed
  moreover have "after ?c (take k F) = after ?c (take (Suc m) (take k F)) @ after ?c (drop (Suc m) (take k F))"
    unfolding filter_append[symmetric] by (simp only: append_take_drop_id)
  ultimately show ?thesis by simp
qed

text \<open>The database at a turn shows some of the entries to be sent, and everything it shows after \<open>t\<close> is one.\<close>

definition shows_part :: "('s \<Rightarrow> content) \<Rightarrow> sid \<Rightarrow> stream_entry list \<Rightarrow> 's \<Rightarrow> bool" where
  "shows_part v t F s \<longleftrightarrow> (\<exists>k. after t (streams (v s) changelogKey) = take k F)"

lemma read_part:
  assumes R: "redis_ok R v" and part: "after t (streams (v s) changelogKey) = take k F"
    and at: "cursor_at t F m c"
  shows "StreamRead R True (sid_str c) n s = Inr (map entry_event (take n (drop m (take k F))))"
proof -
  have c: "sid64 c" "\<not> sid_less c t" using at by (simp_all add: cursor_at_def)
  have le: "sid_less t x" if "sid_less c x" for x
    using c(2) that sid_total[of c t] sid_less_trans[of t c x] by blast
  have "after c (streams (v s) changelogKey) = after c (after t (streams (v s) changelogKey))"
    unfolding filter_filter by (rule filter_cong) (auto intro: le)
  also have "\<dots> = drop m (take k F)" using at part by (simp add: cursor_at_def)
  finally show ?thesis using redis_range(3)[OF R c(1)] by (simp add: StreamRead_def)
qed

lemma entry_event_ID [simp]: "ce_ID (entry_event e) = fst e"
proof -
  have "ce_ID (event_fields kvs ev) = ce_ID ev" for kvs ev
    by (induction kvs ev rule: event_fields.induct) auto
  then show ?thesis by (simp add: entry_event_def)
qed

lemma part_take:
  fixes F :: "'a list"
  shows "take n (drop m (take k F)) = take (length (take n (drop m (take k F)))) (drop m F)"
proof -
  have "take n (drop m (take k F)) = take (min n (k - m)) (drop m F)" by (simp add: drop_take)
  moreover have "take (length (take a ys)) ys = take a ys" for a and ys :: "'a list" by (simp add: min_def)
  ultimately show ?thesis by metis
qed

lemma cursor_next:
  assumes F: "ids_ok F" and gt: "\<forall>e \<in> set F. sid_less t (sid_of (fst e))"
    and xs: "xs = take n (drop m (take k F))" "xs \<noteq> []"
  shows "ce_ID (last (map entry_event xs)) = sid_str (sid_of (fst (last xs)))"
    and "cursor_at t F (m + length xs) (sid_of (fst (last xs)))"
proof -
  let ?i = "m + length xs - 1"
  have part: "xs = take (length xs) (drop m F)" using part_take[of n m k F] by (simp add: xs(1))
  have l: "0 < length xs" using xs(2) by simp
  have "length xs = length (take (length xs) (drop m F))" using part by simp
  then have bound: "length xs \<le> length F - m" by simp
  have "last xs = take (length xs) (drop m F) ! (length xs - 1)"
    using part l by (metis last_conv_nth length_greater_0_conv)
  then have i: "?i < length F" "last xs = F ! ?i" "0 < length xs"
    using l bound by (linarith, simp_all)
  note id = ids_okD[OF F nth_mem[OF i(1)]]
  show "ce_ID (last (map entry_event xs)) = sid_str (sid_of (fst (last xs)))"
    using id i(2) xs(2) by (simp add: last_map)
  have "after (sid_of (fst (F ! ?i))) (take k' F) = drop (m + length xs) (take k' F)" for k'
    using after_nth[OF F i(1), of k'] i(3) by simp
  moreover have "\<not> sid_less (sid_of (fst (F ! ?i))) t"
    using gt nth_mem[OF i(1)] sid_less_trans sid_less_irrefl by blast
  moreover have "m + length xs \<le> length F" using i(1,3) by linarith
  ultimately show "cursor_at t F (m + length xs) (sid_of (fst (last xs)))"
    using id i(2) by (simp add: cursor_at_def)
qed

lemma serve_contiguous:
  assumes R: "redis_ok R v" and F: "ids_ok F" "\<forall>e \<in> set F. sid_less t (sid_of (fst e))"
    and parts: "\<forall>rd \<in> set rds. shows_part v t F (rd_state rd)"
    and at: "cursor_at t F m c" and n: "n \<le> limit"
  shows "\<exists>j. sent_events (serve_rounds R limit timeout rds (sid_str c) n) = map entry_event (take j (drop m F)) \<and>
    int (length (sent_events (serve_rounds R limit timeout rds (sid_str c) n))) \<le> limit - n"
  using parts at n
proof (induction rds arbitrary: m c n)
  case Nil
  then show ?case by (intro exI[of _ 0]) simp
next
  case (Cons rd rds)
  let ?count = "if limit - n < StreamReadCount then limit - n else StreamReadCount"
  obtain k where k: "after t (streams (v (rd_state rd)) changelogKey) = take k F"
    using Cons.prems(1) by (auto simp: shows_part_def)
  define xs where "xs = take (nat ?count) (drop m (take k F))"
  have read: "StreamRead R True (sid_str c) (nat ?count) (rd_state rd) = Inr (map entry_event xs)"
    using read_part[OF R k Cons.prems(2)] by (simp add: xs_def)
  have none: "\<exists>j. [] = map entry_event (take j (drop m F))" by (intro exI[of _ 0]) simp
  show ?case
  proof (cases "n < limit \<and> \<not> rd_cancelled rd \<and> rd_answered rd")
    case False
    then have "serve_rounds R limit timeout (rd # rds) (sid_str c) n = []"
      by (auto simp: StreamRead_def)
    with none Cons.prems(3) show ?thesis by simp
  next
    case go: True
    show ?thesis
    proof (cases "xs = []")
      case True
      with go read have "serve_rounds R limit timeout (rd # rds) (sid_str c) n =
          (if timeout = 0 \<or> rd_expired rd then [] else Keepalive # serve_rounds R limit timeout rds (sid_str c) n)"
        by (simp add: Let_def)
      with none Cons.IH[OF _ Cons.prems(2,3)] Cons.prems show ?thesis by (cases "timeout = 0 \<or> rd_expired rd") auto
    next
      case False
      note next' = cursor_next[OF F xs_def False]
      let ?rest = "serve_rounds R limit timeout rds (sid_str (sid_of (fst (last xs)))) (n + int (length xs))"
      have run: "serve_rounds R limit timeout (rd # rds) (sid_str c) n = Changes (map entry_event xs) # ?rest"
        using go read False next'(1) by (simp add: Let_def)
      have "length xs \<le> nat ?count" by (simp add: xs_def)
      then have "int (length xs) \<le> ?count" using go by (auto split: if_splits simp: StreamReadCount_def)
      then have "n + int (length xs) \<le> limit" by (auto split: if_splits)
      from Cons.IH[OF _ next'(2) this] Cons.prems(1) obtain j where
        j: "sent_events ?rest = map entry_event (take j (drop (m + length xs) F))"
        "int (length (sent_events ?rest)) \<le> limit - (n + int (length xs))" by auto
      have "xs = take (length xs) (drop m F)"
        using part_take[of "nat ?count" m k F] by (simp only: xs_def[symmetric])
      then have "xs @ take j (drop (m + length xs) F) = take (length xs + j) (drop m F)"
        by (metis add.commute drop_drop take_add)
      with run j show ?thesis by (intro exI[of _ "length xs + j"]) (simp flip: map_append)
    qed
  qed
qed

lemma cursor_start:
  assumes "ids_ok H" "sid64 t"
  shows "cursor_at t (after t H) 0 t" "ids_ok (after t H)" "\<forall>e \<in> set (after t H). sid_less t (sid_of (fst e))"
proof -
  show "\<forall>e \<in> set (after t H). sid_less t (sid_of (fst e))" by simp
  show "ids_ok (after t H)"
    using assms(1) by (auto simp: ids_ok_def ids_increasing_def sorted_wrt_filter)
  have "after t (take k (after t H)) = take k (after t H)" for k
    by (rule filter_True) (auto dest: in_set_takeD)
  with assms(2) show "cursor_at t (after t H) 0 t" by (simp add: cursor_at_def)
qed

text \<open>
  Claim C24: whatever happens while a stream is served, the events sent are the first ones of the history
  after the requested position, in order, none skipped and none twice, and no more than the
  limit, provided that the changelog is not trimmed past the position meanwhile.
\<close>

theorem serve_rounds_contiguous:
  assumes R: "redis_ok R v" and H: "ids_ok H" and t: "sid64 t" and limit: "0 \<le> limit"
    and parts: "\<forall>rd \<in> set rounds. \<exists>k. after t (streams (v (rd_state rd)) changelogKey) = take k (after t H)"
  shows "\<exists>j. sent_events (serve_rounds R limit timeout rounds (sid_str t) 0) = map entry_event (take j (after t H)) \<and>
    int (length (sent_events (serve_rounds R limit timeout rounds (sid_str t) 0))) \<le> limit"
  using serve_contiguous[OF R cursor_start(2,3)[OF H t] _ cursor_start(1)[OF H t] limit, of rounds timeout] parts
  by (simp add: shows_part_def)

lemma serve_complete:
  assumes R: "redis_ok R v" and F: "ids_ok F" "\<forall>e \<in> set F. sid_less t (sid_of (fst e))"
    and good: "\<forall>rd \<in> set rds. \<not> rd_cancelled rd \<and> rd_answered rd \<and>
      after t (streams (v (rd_state rd)) changelogKey) = F"
    and at: "cursor_at t F m c" and n: "n \<le> limit"
    and enough: "length F - m \<le> 100 * length rds"
  shows "sent_events (serve_rounds R limit timeout rds (sid_str c) n) = map entry_event (take (nat (limit - n)) (drop m F))"
  using good at n enough
proof (induction rds arbitrary: m c n)
  case Nil
  then show ?case by simp
next
  case (Cons rd rds)
  let ?count = "if limit - n < StreamReadCount then limit - n else StreamReadCount"
  have k: "after t (streams (v (rd_state rd)) changelogKey) = take (length F) F" using Cons.prems(1) by simp
  define xs where "xs = take (nat ?count) (drop m F)"
  have read: "StreamRead R True (sid_str c) (nat ?count) (rd_state rd) = Inr (map entry_event xs)"
    using read_part[OF R k Cons.prems(2)] by (simp add: xs_def)
  have ok: "\<not> rd_cancelled rd" "rd_answered rd" using Cons.prems(1) by simp_all
  show ?case
  proof (cases "n < limit")
    case False
    with Cons.prems(3) show ?thesis by simp
  next
    case go: True
    then have pos: "0 < nat ?count" by (simp add: StreamReadCount_def)
    show ?thesis
    proof (cases "xs = []")
      case True
      then have nil: "drop m F = []" using pos by (simp add: xs_def)
      then have "length F - m \<le> 100 * length rds" by simp
      have good': "\<forall>rd \<in> set rds. \<not> rd_cancelled rd \<and> rd_answered rd \<and>
          after t (streams (v (rd_state rd)) changelogKey) = F" using Cons.prems(1) by (meson list.set_intros(2))
      have "sent_events (serve_rounds R limit timeout rds (sid_str c) n) = []"
        using Cons.IH[OF good' Cons.prems(2,3) \<open>length F - m \<le> 100 * length rds\<close>] unfolding nil by simp
      moreover have "serve_rounds R limit timeout (rd # rds) (sid_str c) n =
          (if timeout = 0 \<or> rd_expired rd then [] else Keepalive # serve_rounds R limit timeout rds (sid_str c) n)"
        using go ok read True by (simp add: Let_def)
      ultimately show ?thesis using nil by simp
    next
      case False
      have xs': "xs = take (nat ?count) (drop m (take (length F) F))" by (simp add: xs_def)
      note next' = cursor_next[OF F xs' False]
      let ?rest = "serve_rounds R limit timeout rds (sid_str (sid_of (fst (last xs)))) (n + int (length xs))"
      have run: "serve_rounds R limit timeout (rd # rds) (sid_str c) n = Changes (map entry_event xs) # ?rest"
        using go ok read False next'(1) by (simp add: Let_def)
      have len: "length xs = min (length F - m) (nat ?count)" by (simp add: xs_def)
      then have le: "n + int (length xs) \<le> limit" using go by (auto simp: StreamReadCount_def min_def split: if_splits)
      show ?thesis
      proof (cases "limit - n < StreamReadCount \<and> nat (limit - n) \<le> length F - m")
        case True
        then have "int (length xs) = limit - n" using len go by simp
        then have stop: "?rest = []" by (cases rds) simp_all
        have "xs = take (nat (limit - n)) (drop m F)" using True by (simp add: xs_def)
        with run stop show ?thesis by simp
      next
        case False
        have more: "length F - (m + length xs) \<le> 100 * length rds"
          using Cons.prems(4) False len go by (auto simp: StreamReadCount_def min_def split: if_splits)
        have "sent_events ?rest = map entry_event (take (nat (limit - (n + int (length xs)))) (drop (m + length xs) F))"
          by (rule Cons.IH[OF _ next'(2) le more]) (use Cons.prems(1) in simp)
        moreover have "nat (limit - n) = length xs + nat (limit - (n + int (length xs)))" using le by simp
        moreover have "xs = take (length xs) (drop m F)" using part_take[of "nat ?count" m "length F" F]
          by (simp only: xs'[symmetric])
        ultimately show ?thesis using run by (simp add: take_add add.commute flip: map_append)
      qed
    qed
  qed
qed

text \<open>
  Claim C25: a client that stays connected gets everything: with answered reads and a turn for every hundred
  entries, all of the changelog after the requested position is sent, up to the limit.
\<close>

theorem serve_rounds_complete:
  assumes R: "redis_ok R v" and F: "ids_ok F" and t: "sid64 t" and limit: "0 \<le> limit"
    and good: "\<forall>rd \<in> set rounds. \<not> rd_cancelled rd \<and> rd_answered rd \<and>
      streams (v (rd_state rd)) changelogKey = F"
    and enough: "length F \<le> 100 * length rounds"
  shows "sent_events (serve_rounds R limit timeout rounds (sid_str t) 0) = map entry_event (take (nat limit) (after t F))"
proof -
  have "length (after t F) \<le> 100 * length rounds" using enough length_filter_le le_trans by blast
  with serve_complete[OF R cursor_start(2,3)[OF F t] _ cursor_start(1)[OF F t] limit, of rounds timeout] good
  show ?thesis by simp
qed

section \<open>Witnesses\<close>

theorem parseStreamRequestOptions_bounded_witness:
  "parseStreamRequestOptions (\<lambda>_. None) DefaultStreamLimits [] None =
     Inr \<lparr>opt_limit = 2 ^ 63 - 1, opt_timeout = MaxConnectionDuration\<rparr>"
  using parseStreamRequestOptions_bounded[of "\<lambda>_. None" DefaultStreamLimits "[]" None]
  by (simp add: DefaultStreamLimits_def MaxConnectionDuration_def)

theorem streamReadBlock_bounded_witness: "streamReadBlock (Some 5) 10 \<le> 5"
  using streamReadBlock_bounded[of "Some 5" 10] by simp

theorem compareStreamIDs_order_witness: "compareStreamIDs (sid_str (1, 0)) (sid_str (2, 0)) < 0"
  using compareStreamIDs_order[of "[]" "[]" "[]" "(1, 0)" "(2, 0)"] by (simp add: sid64_def sid_less_def)

theorem checkStreamGap_sound_witness:
  "checkStreamGap mem_redis True True True (sid_str (1, 0)) example_log = None"
proof -
  have t: "sid64 (1, 0)" by (simp add: sid64_def)
  have "sid_of (sid_str (1, 0)) = (1, 0)" using t by simp
  then have "sid_str (1, 0) \<noteq> ''0-0''"
    by (auto simp: sid_of_def ParseUint_def digit_val_def)
  moreover have "hd example_stream = (sid_str (1, 0), [])" "example_stream \<noteq> []"
    by (simp_all add: example_stream_def)
  ultimately show ?thesis
    using checkStreamGap_sound[OF mem_redis_ok example_ids _ t, of example_log 0] t by simp
qed

definition example_round :: "content round" where
  "example_round = \<lparr>rd_cancelled = False, rd_answered = True, rd_state = example_log, rd_expired = False\<rparr>"

theorem serve_rounds_contiguous_witness:
  "\<exists>j. sent_events (serve_rounds mem_redis 1 0 [example_round] (sid_str (1, 0)) 0) =
     map entry_event (take j (after (1, 0) example_stream))"
proof -
  have t: "sid64 (1, 0)" by (simp add: sid64_def)
  have "\<forall>rd \<in> set [example_round]. \<exists>k. after (1, 0) (streams (id (rd_state rd)) changelogKey) =
      take k (after (1, 0) example_stream)"
    by (intro ballI exI[of _ "length (after (1, 0) example_stream)"]) (simp add: example_round_def)
  from serve_rounds_contiguous[OF mem_redis_ok example_ids t _ this, of 1 0] show ?thesis by auto
qed

theorem serve_rounds_complete_witness:
  "sent_events (serve_rounds mem_redis 5 0 [example_round] (sid_str (1, 0)) 0) =
     map entry_event (take 5 (after (1, 0) example_stream))"
proof -
  have t: "sid64 (1, 0)" by (simp add: sid64_def)
  have "\<forall>rd \<in> set [example_round]. \<not> rd_cancelled rd \<and> rd_answered rd \<and>
      streams (id (rd_state rd)) changelogKey = example_stream"
    by (simp add: example_round_def)
  from serve_rounds_complete[OF mem_redis_ok example_ids t _ this, of 5 0] show ?thesis
    by (simp add: example_stream_def)
qed

end
