(* ===== verification/SnapshotGen.thy ===== *)
theory SnapshotGen
  imports StreamServe
begin

text \<open>
  \<open>internal/replicate/snapshot.go\<close>: generating, publishing and serving snapshots. The text of a
  snapshot is a list of frames, each compressed on its own by \<open>compress\<close> (the zstd encoder, a
  parameter); a checkpoint line at the start of a frame carries the compressed size of the
  frames before it. The directory is a map from file names to contents with the publication
  pointer \<open>meta.json\<close>. A generation is the list of directories that its file operations leave one
  after another, so that a crash between two of them is a prefix of the list; one of them can
  fail (\<open>file_step\<close>). The loop around it is in \<open>SnapshotRun\<close>.
\<close>

section \<open>Generation\<close>

definition SnapshotFrameSize :: nat where "SnapshotFrameSize = 10000"

record gen_state =
  g_frames :: "string list"
  g_cur :: string
  g_count :: int
  g_inFrame :: nat

definition compressed_size :: "(string \<Rightarrow> string) \<Rightarrow> string list \<Rightarrow> int" where
  "compressed_size compress frames = int (length (concat (map compress frames)))"

definition gen_start :: "json_codec \<Rightarrow> gen_state" where
  "gen_start J = \<lparr>g_frames = [], g_cur = AppendSnapshotCheckpointLine J 0 0, g_count = 0, g_inFrame = 0\<rparr>"

definition gen_entity :: "json_codec \<Rightarrow> (string \<Rightarrow> string) \<Rightarrow> nat \<Rightarrow> SnapshotEntity \<Rightarrow> gen_state \<Rightarrow> gen_state" where
  "gen_entity J compress frameSize ent g =
     (let g1 = (if g_inFrame g = frameSize
                then (let frames = g_frames g @ [g_cur g] in
                      \<lparr>g_frames = frames,
                       g_cur = AppendSnapshotCheckpointLine J (compressed_size compress frames) (g_count g),
                       g_count = g_count g, g_inFrame = 0\<rparr>)
                else g)
      in g1\<lparr>g_cur := g_cur g1 @ AppendSnapshotEntityLine (se_QID ent) (se_RawMappings ent),
            g_count := g_count g1 + 1, g_inFrame := Suc (g_inFrame g1)\<rparr>)"

definition gen_finish :: "json_codec \<Rightarrow> string \<Rightarrow> gen_state \<Rightarrow> string list" where
  "gen_finish J lastID g = g_frames g @ [g_cur g @ AppendSnapshotDoneLine J lastID (g_count g)]"

text \<open>
  The scan: \<open>scans\<close> holds, for each turn, whether the context is cancelled, whether the call is
  answered, and the database it reads; the turns running out counts as a cancellation.
\<close>

datatype file_step = CreateFile | WriteFile | WriteTmp | RenameTmp

datatype gen_error =
    StreamInfoFailed store_error | ChangelogEmpty | Cancelled | ScanError store_error | FileFailed file_step

fun gen_scan ::
  "(nat \<Rightarrow> nat \<Rightarrow> 's \<Rightarrow> (string \<times> string) list \<times> nat) \<Rightarrow> json_codec \<Rightarrow> (string \<Rightarrow> string) \<Rightarrow>
   (bool \<times> bool \<times> 's) list \<Rightarrow> nat \<Rightarrow> gen_state \<Rightarrow> gen_error + gen_state" where
  "gen_scan hscan J compress [] cursor g = Inl Cancelled"
| "gen_scan hscan J compress ((cancelled, answered, s) # scans) cursor g =
     (if cancelled then Inl Cancelled
      else (case ScanEntities hscan answered cursor 1000 s of
              Inl e \<Rightarrow> Inl (ScanError e)
            | Inr (ents, next) \<Rightarrow>
                let g' = fold (gen_entity J compress SnapshotFrameSize) ents g in
                if next = 0 then Inr g' else gen_scan hscan J compress scans next g'))"

definition generate_frames ::
  "'s redis \<Rightarrow> (nat \<Rightarrow> nat \<Rightarrow> 's \<Rightarrow> (string \<times> string) list \<times> nat) \<Rightarrow> json_codec \<Rightarrow> (string \<Rightarrow> string) \<Rightarrow>
   bool \<times> bool \<times> bool \<Rightarrow> (bool \<times> bool \<times> 's) list \<Rightarrow> 's \<Rightarrow> gen_error + string \<times> string list" where
  "generate_frames R hscan J compress answers scans s =
     (case answers of (a1, a2, a3) \<Rightarrow>
       (case StreamInfo R a1 a2 a3 s of
          Inl e \<Rightarrow> Inl (StreamInfoFailed e)
        | Inr (_, lastID, _) \<Rightarrow>
            if lastID = [] then Inl ChangelogEmpty
            else (case gen_scan hscan J compress scans 0 (gen_start J) of
                    Inl e \<Rightarrow> Inl e
                  | Inr g \<Rightarrow> Inr (lastID, gen_finish J lastID g))))"

section \<open>Publication\<close>

record snapshotMeta =
  m_File :: string
  m_ID :: string
  m_CreatedAt :: int

record snapshot_dir =
  d_files :: "string \<Rightarrow> string option"
  d_meta :: "snapshotMeta option"
  d_tmp :: "snapshotMeta option"

text \<open>\<open>filepath.Glob\<close> with \<open>snapshot-*.zst\<close> and \<open>snapshot-*.gz\<close>.\<close>

definition HasSuffix :: "string \<Rightarrow> string \<Rightarrow> bool" where
  "HasSuffix s x \<longleftrightarrow> drop (length s - length x) s = x"

definition is_snapshot :: "string \<Rightarrow> string \<Rightarrow> bool" where
  "is_snapshot ext name \<longleftrightarrow>
     length ''snapshot-'' + length ext \<le> length name \<and> HasPrefix name ''snapshot-'' \<and> HasSuffix name ext"

definition cleanSnapshots :: "snapshot_dir \<Rightarrow> snapshot_dir" where
  "cleanSnapshots d =
     (let keep = (case d_meta d of None \<Rightarrow> [] | Some m \<Rightarrow> m_File m) in
      d\<lparr>d_files := (\<lambda>name. if is_snapshot ''.zst'' name \<and> name \<noteq> keep \<or> is_snapshot ''.gz'' name then None
                           else d_files d name),
        d_tmp := None\<rparr>)"

definition snapshot_name :: "int \<Rightarrow> string" where
  "snapshot_name nanos = ''snapshot-'' @ FormatInt nanos @ ''.zst''"

text \<open>The directory after each step of publishing: the new file, the temporary pointer, the rename, the cleanup.\<close>

definition publish_steps :: "string \<Rightarrow> string \<Rightarrow> snapshotMeta \<Rightarrow> snapshot_dir \<Rightarrow> snapshot_dir list" where
  "publish_steps name content meta d =
     (let d1 = d\<lparr>d_files := (d_files d)(name \<mapsto> content)\<rparr>;
          d2 = d1\<lparr>d_tmp := Some meta\<rparr>;
          d3 = d2\<lparr>d_meta := d_tmp d2, d_tmp := None\<rparr>
      in [d1, d2, d3, cleanSnapshots d3])"

text \<open>
  \<open>fault\<close> is the file operation that fails, if any; a generation that fails after it has created its
  file leaves what was written so far (\<open>partial\<close>).
\<close>

definition generate ::
  "'s redis \<Rightarrow> (nat \<Rightarrow> nat \<Rightarrow> 's \<Rightarrow> (string \<times> string) list \<times> nat) \<Rightarrow> json_codec \<Rightarrow> (string \<Rightarrow> string) \<Rightarrow>
   bool \<times> bool \<times> bool \<Rightarrow> (bool \<times> bool \<times> 's) list \<Rightarrow> int \<Rightarrow> int \<Rightarrow> file_step option \<Rightarrow> string \<Rightarrow> 's \<Rightarrow> snapshot_dir \<Rightarrow>
   gen_error option \<times> snapshot_dir list" where
  "generate R hscan J compress answers scans nanos createdAt fault partial s d =
     (case answers of (a1, a2, a3) \<Rightarrow>
       (case StreamInfo R a1 a2 a3 s of
          Inl e \<Rightarrow> (Some (StreamInfoFailed e), [d])
        | Inr (_, lastID, _) \<Rightarrow>
            if lastID = [] then (Some ChangelogEmpty, [d])
            else if fault = Some CreateFile then (Some (FileFailed CreateFile), [d])
            else
              let name = snapshot_name nanos;
                  created = d\<lparr>d_files := (d_files d)(name \<mapsto> [])\<rparr>;
                  broken = d\<lparr>d_files := (d_files d)(name \<mapsto> partial)\<rparr>
              in if fault = Some WriteFile then (Some (FileFailed WriteFile), [created, broken])
                 else (case gen_scan hscan J compress scans 0 (gen_start J) of
                         Inl e \<Rightarrow> (Some e, [created, broken])
                       | Inr g \<Rightarrow>
                           let steps = publish_steps name (concat (map compress (gen_finish J lastID g)))
                                 \<lparr>m_File = name, m_ID = lastID, m_CreatedAt = createdAt\<rparr> d
                           in if fault = Some WriteTmp then (Some (FileFailed WriteTmp), created # take 1 steps)
                              else if fault = Some RenameTmp then (Some (FileFailed RenameTmp), created # take 2 steps)
                              else (None, created # steps))))"

section \<open>Serving\<close>

text \<open>Whether the published snapshot is covered by the changelog.\<close>

definition isSnapshotCurrent ::
  "'s redis \<Rightarrow> bool \<times> bool \<times> bool \<Rightarrow> 's \<Rightarrow> snapshot_dir \<Rightarrow> snapshotMeta option \<times> bool" where
  "isSnapshotCurrent R answers s d =
     (case d_meta d of
        None \<Rightarrow> (None, False)
      | Some meta \<Rightarrow>
          if m_ID meta = [] then (Some meta, False)
          else (case answers of (a1, a2, a3) \<Rightarrow>
            (case StreamInfo R a1 a2 a3 s of
               Inl _ \<Rightarrow> (Some meta, False)
             | Inr (firstID, _, _) \<Rightarrow>
                 if firstID = [] \<or> compareStreamIDs (m_ID meta) firstID < 0 then (Some meta, False)
                 else (Some meta, True))))"

text \<open>
  One try of \<open>ServeSnapshot\<close>: which calls are answered, the database at that moment, the directory
  when the pointer is read, and the directory when the file is opened.
\<close>

record 's serve_try =
  sy_answers :: "bool \<times> bool \<times> bool"
  sy_state :: 's
  sy_meta :: snapshot_dir
  sy_open :: snapshot_dir

text \<open>
  At most two tries; the result is an error status, or the file to serve with its ETag; the second
  component says whether a regeneration was requested.
\<close>

fun serve_tries :: "'s redis \<Rightarrow> 's serve_try list \<Rightarrow> (int + string \<times> string) \<times> bool" where
  "serve_tries R [] = (Inl 503, False)"
| "serve_tries R (y # ys) =
     (case isSnapshotCurrent R (sy_answers y) (sy_state y) (sy_meta y) of
        (None, _) \<Rightarrow> (Inl 503, False)
      | (Some meta, current) \<Rightarrow>
          if \<not> current then (Inl 503, True)
          else (case d_files (sy_open y) (m_File meta) of
                  None \<Rightarrow> serve_tries R ys
                | Some content \<Rightarrow> (Inr (CHR 0x22 # m_File meta @ [CHR 0x22], content), False)))"

definition ServeSnapshot :: "'s redis \<Rightarrow> 's serve_try list \<Rightarrow> (int + string \<times> string) \<times> bool" where
  "ServeSnapshot R tries = serve_tries R (take 2 tries)"

lemma current_meta: "isSnapshotCurrent R answers s d = (mo, cur) \<Longrightarrow> mo = d_meta d"
  by (auto simp: isSnapshotCurrent_def split: option.splits if_splits sum.splits prod.splits)

text \<open>What a try that serves a file saw.\<close>

definition try_serves :: "'s redis \<Rightarrow> 's serve_try \<Rightarrow> string \<Rightarrow> string \<Rightarrow> bool" where
  "try_serves R y etag c \<longleftrightarrow> (\<exists>m. d_meta (sy_meta y) = Some m \<and> d_files (sy_open y) (m_File m) = Some c \<and>
     etag = CHR 0x22 # m_File m @ [CHR 0x22] \<and>
     isSnapshotCurrent R (sy_answers y) (sy_state y) (sy_meta y) = (Some m, True))"

text \<open>A file that is served is served by one of the tries.\<close>

lemma serve_tries_served:
  "serve_tries R ys = (Inr (etag, c), regen) \<Longrightarrow> \<exists>y \<in> set ys. try_serves R y etag c"
proof (induction ys)
  case Nil
  then show ?case by simp
next
  case (Cons y ys)
  obtain mo cur where c: "isSnapshotCurrent R (sy_answers y) (sy_state y) (sy_meta y) = (mo, cur)" by fastforce
  show ?case
  proof (cases mo)
    case None
    with Cons.prems c show ?thesis by simp
  next
    case (Some m)
    with Cons.prems c have cur: cur by (simp split: if_splits)
    show ?thesis
    proof (cases "d_files (sy_open y) (m_File m)")
      case None
      with Cons Some c cur show ?thesis by simp
    next
      case (Some x)
      with Cons.prems c cur \<open>mo = Some m\<close> current_meta[OF c] have "try_serves R y etag c" by (simp add: try_serves_def)
      then show ?thesis by simp
    qed
  qed
qed

lemma ServeSnapshot_served:
  assumes "ServeSnapshot R tries = (Inr (etag, c), regen)"
  obtains y where "y \<in> set tries" "try_serves R y etag c"
  using serve_tries_served[OF assms[unfolded ServeSnapshot_def]] that by (meson in_set_takeD)

text \<open>How long \<open>Run\<close> waits (nanoseconds; \<open>age\<close> is the age of the published snapshot).\<close>

definition SnapshotRetryInterval :: int where "SnapshotRetryInterval = 30 * 1000000000"
definition DefaultSnapshotInterval :: int where "DefaultSnapshotInterval = 24 * 3600 * 1000000000"

definition new_interval :: "int \<Rightarrow> int" where
  "new_interval interval = (if interval \<le> 0 then DefaultSnapshotInterval else interval)"

definition run_wait :: "int \<Rightarrow> snapshotMeta option \<times> bool \<Rightarrow> int \<Rightarrow> int" where
  "run_wait interval published age =
     (case published of
        (Some meta, True) \<Rightarrow>
          if interval - age > SnapshotRetryInterval then interval - age else SnapshotRetryInterval
      | _ \<Rightarrow> SnapshotRetryInterval)"

section \<open>Publication is safe\<close>

definition published_ok :: "snapshot_dir \<Rightarrow> bool" where
  "published_ok d \<longleftrightarrow> (case d_meta d of None \<Rightarrow> True | Some m \<Rightarrow> d_files d (m_File m) \<noteq> None \<and>
     \<not> is_snapshot ''.gz'' (m_File m))"

lemma clean_keeps_published:
  "published_ok d \<Longrightarrow> published_ok (cleanSnapshots d) \<and> d_meta (cleanSnapshots d) = d_meta d \<and>
   (\<forall>m. d_meta d = Some m \<longrightarrow> d_files (cleanSnapshots d) (m_File m) = d_files d (m_File m))"
  by (auto simp: published_ok_def cleanSnapshots_def Let_def split: option.splits)

lemma snapshot_name_zst: "\<not> is_snapshot ''.gz'' (snapshot_name n)"
proof -
  have "drop (length (snapshot_name n) - length ''.gz'') (snapshot_name n) = ''zst''"
    by (simp add: snapshot_name_def)
  then show ?thesis by (simp add: is_snapshot_def HasSuffix_def)
qed

text \<open>The lists of directories that a generation can leave behind.\<close>

definition put_file :: "string \<Rightarrow> string \<Rightarrow> snapshot_dir \<Rightarrow> snapshot_dir" where
  "put_file name x d = d\<lparr>d_files := (d_files d)(name \<mapsto> x)\<rparr>"

lemma put_file_simps [simp]:
  "d_meta (put_file name x d) = d_meta d" "d_files (put_file name x d) = (d_files d)(name \<mapsto> x)"
  by (simp_all add: put_file_def)

lemma generate_cases:
  assumes "generate R hscan J compress answers scans nanos createdAt fault partial s d = (err, ds)"
  obtains (nothing) "ds = [d]" "err \<noteq> None"
  | (broken) "ds = [put_file (snapshot_name nanos) [] d, put_file (snapshot_name nanos) partial d]" "err \<noteq> None"
  | (written) lastID frames k where "generate_frames R hscan J compress answers scans s = Inr (lastID, frames)"
      "ds = put_file (snapshot_name nanos) [] d # take k (publish_steps (snapshot_name nanos) (concat (map compress frames))
         \<lparr>m_File = snapshot_name nanos, m_ID = lastID, m_CreatedAt = createdAt\<rparr> d)"
      "k = 1 \<and> err \<noteq> None \<or> k = 2 \<and> err \<noteq> None \<or> k = 4 \<and> err = None"
proof -
  obtain a1 a2 a3 where a: "answers = (a1, a2, a3)" by (metis surj_pair)
  note run = assms[unfolded generate_def a prod.case]
  show thesis
  proof (cases "StreamInfo R a1 a2 a3 s")
    case (Inl e)
    with run have "ds = [d]" "err \<noteq> None" by auto
    then show ?thesis by (rule nothing)
  next
    case (Inr r)
    obtain f lastID n where r: "r = (f, lastID, n)" by (metis surj_pair)
    show ?thesis
    proof (cases "lastID = [] \<or> fault = Some CreateFile")
      case True
      with run Inr r have "ds = [d]" "err \<noteq> None" by (auto split: if_splits)
      then show ?thesis by (rule nothing)
    next
      case False
      note run' = run[unfolded Inr r sum.case prod.case Let_def]
      show ?thesis
      proof (cases "gen_scan hscan J compress scans 0 (gen_start J)")
        case (Inl e)
        with run' False broken show ?thesis by (auto simp: put_file_def split: if_splits)
      next
        case (Inr g)
        have "generate_frames R hscan J compress answers scans s = Inr (lastID, gen_finish J lastID g)"
          using False Inr \<open>StreamInfo R a1 a2 a3 s = Inr r\<close> by (simp add: generate_frames_def a r)
        note gen = this
        let ?n = "snapshot_name nanos"
        let ?steps = "publish_steps ?n (concat (map compress (gen_finish J lastID g)))
          \<lparr>m_File = ?n, m_ID = lastID, m_CreatedAt = createdAt\<rparr> d"
        have all: "take 4 ?steps = ?steps" by (simp add: publish_steps_def Let_def)
        consider "fault = Some WriteFile" | "fault = Some WriteTmp" | "fault = Some RenameTmp"
          | "fault \<noteq> Some WriteFile" "fault \<noteq> Some WriteTmp" "fault \<noteq> Some RenameTmp" by blast
        then show ?thesis
        proof cases
          case 1
          with run' False have "ds = [put_file ?n [] d, put_file ?n partial d]" "err \<noteq> None" by (auto simp: put_file_def)
          then show ?thesis by (rule broken)
        next
          case 2
          with run' False Inr have "ds = put_file ?n [] d # take 1 ?steps" "err \<noteq> None" by (auto simp: put_file_def)
          from written[OF gen this(1)] this(2) show ?thesis by blast
        next
          case 3
          with run' False Inr have "ds = put_file ?n [] d # take 2 ?steps" "err \<noteq> None" by (auto simp: put_file_def)
          from written[OF gen this(1)] this(2) show ?thesis by blast
        next
          case 4
          with run' False Inr have "ds = put_file ?n [] d # take 4 ?steps" "err = None" by (auto simp: put_file_def all)
          from written[OF gen this(1)] this(2) show ?thesis by blast
        qed
      qed
    qed
  qed
qed

lemma generate_publishes:
  assumes d: "published_ok d" and fresh: "d_files d (snapshot_name nanos) = None"
    and run: "generate R hscan J compress answers scans nanos createdAt fault partial s d = (err, ds)"
  shows "(\<forall>d' \<in> set ds. published_ok d' \<and>
      (d_meta d' = d_meta d \<and> (\<forall>m. d_meta d = Some m \<longrightarrow> d_files d' (m_File m) = d_files d (m_File m)) \<or>
       (\<exists>lastID frames. generate_frames R hscan J compress answers scans s = Inr (lastID, frames) \<and>
          d_meta d' = Some \<lparr>m_File = snapshot_name nanos, m_ID = lastID, m_CreatedAt = createdAt\<rparr> \<and>
          d_files d' (snapshot_name nanos) = Some (concat (map compress frames))))) \<and>
    (err = None \<longrightarrow> (\<forall>name. is_snapshot ''.zst'' name \<and> d_files (last ds) name \<noteq> None \<longrightarrow> name = snapshot_name nanos))"
proof -
  let ?n = "snapshot_name nanos"
  have put: "published_ok (put_file ?n x d) \<and>
      (\<forall>m. d_meta d = Some m \<longrightarrow> d_files (put_file ?n x d) (m_File m) = d_files d (m_File m))" for x
    using d fresh by (auto simp: published_ok_def split: option.splits)
  show ?thesis
    using run
  proof (cases rule: generate_cases)
    case nothing
    with d show ?thesis by auto
  next
    case broken
    with put show ?thesis by auto
  next
    case (written lastID frames k)
    let ?c = "concat (map compress frames)" and ?m = "\<lparr>m_File = ?n, m_ID = lastID, m_CreatedAt = createdAt\<rparr>"
    let ?d1 = "put_file ?n ?c d"
    let ?d2 = "?d1\<lparr>d_tmp := Some ?m\<rparr>"
    let ?d3 = "?d2\<lparr>d_meta := Some ?m, d_tmp := None\<rparr>"
    have steps: "publish_steps ?n ?c ?m d = [?d1, ?d2, ?d3, cleanSnapshots ?d3]"
      by (simp add: publish_steps_def Let_def put_file_def)
    have ok2: "published_ok ?d2" using put[of ?c] by (auto simp: published_ok_def split: option.splits)
    have ok3: "published_ok ?d3" using snapshot_name_zst by (simp add: published_ok_def)
    note ok4 = clean_keeps_published[OF ok3]
    have clean: "name = ?n" if "is_snapshot ''.zst'' name" "d_files (cleanSnapshots ?d3) name \<noteq> None" for name
      using that by (auto simp: cleanSnapshots_def Let_def split: if_splits)
    let ?good = "\<lambda>d'. published_ok d' \<and>
      (d_meta d' = d_meta d \<and> (\<forall>m. d_meta d = Some m \<longrightarrow> d_files d' (m_File m) = d_files d (m_File m)) \<or>
       d_meta d' = Some ?m \<and> d_files d' ?n = Some ?c)"
    have new: "?good ?d3" "?good (cleanSnapshots ?d3)" using ok3 ok4 by simp_all
    have old: "?good (put_file ?n x d)" for x using put[of x] by simp
    have old2: "?good ?d2" using put[of ?c] ok2 by simp
    have "?good d'" if "d' \<in> set ds" for d'
    proof -
      have "d' = put_file ?n [] d \<or> d' = ?d1 \<or> d' = ?d2 \<or> d' = ?d3 \<or> d' = cleanSnapshots ?d3"
        using that in_set_takeD[of d' k] unfolding written(2) steps by fastforce
      then show ?thesis by (elim disjE) (simp_all only: new old old2)
    qed
    moreover have "last ds = cleanSnapshots ?d3" if "err = None"
      using written(2,3) that unfolding steps by (auto simp: numeral_eq_Suc)
    ultimately show ?thesis using written(1) clean by (metis (no_types, lifting))
  qed
qed

text \<open>
  Claim C28: at every step of a generation the pointer \<open>meta.json\<close> refers to a file that exists, so a crash at
  any point leaves a servable snapshot; until the rename it is the old snapshot, unchanged, and
  from the rename on the new one, complete; afterwards no other snapshot file is left.
\<close>

theorem generate_publishes_safely:
  assumes "published_ok d" and "d_files d (snapshot_name nanos) = None"
    and "generate R hscan J compress answers scans nanos createdAt fault partial s d = (err, ds)"
  shows "(\<forall>d' \<in> set ds. published_ok d' \<and>
      (d_meta d' = d_meta d \<and> (\<forall>m. d_meta d = Some m \<longrightarrow> d_files d' (m_File m) = d_files d (m_File m)) \<or>
       (\<exists>lastID frames. generate_frames R hscan J compress answers scans s = Inr (lastID, frames) \<and>
          d_meta d' = Some \<lparr>m_File = snapshot_name nanos, m_ID = lastID, m_CreatedAt = createdAt\<rparr> \<and>
          d_files d' (snapshot_name nanos) = Some (concat (map compress frames))))) \<and>
    (err = None \<longrightarrow> (\<forall>name. is_snapshot ''.zst'' name \<and> d_files (last ds) name \<noteq> None \<longrightarrow> name = snapshot_name nanos))"
  by (rule generate_publishes[OF assms])

lemma StreamInfo_answered: "StreamInfo R a1 a2 a3 s = Inr x \<Longrightarrow> StreamInfo R True True True s = Inr x"
  by (auto simp: StreamInfo_def Let_def split: if_splits option.splits prod.splits)

lemma current_answered:
  assumes "isSnapshotCurrent R answers s d = (Some m, True)"
  obtains firstID lastID n where "StreamInfo R True True True s = Inr (firstID, lastID, n)" "firstID \<noteq> []"
    "\<not> compareStreamIDs (m_ID m) firstID < 0"
proof -
  obtain a1 a2 a3 where a: "answers = (a1, a2, a3)" by (metis surj_pair)
  note cur = assms[unfolded isSnapshotCurrent_def a prod.case]
  obtain r where r: "StreamInfo R a1 a2 a3 s = Inr r"
    using cur by (cases "StreamInfo R a1 a2 a3 s") (auto split: option.splits if_splits)
  obtain f l n where f: "r = (f, l, n)" by (metis surj_pair)
  with cur r have "f \<noteq> []" "\<not> compareStreamIDs (m_ID m) f < 0" by (auto split: option.splits if_splits)
  with that StreamInfo_answered[OF r] f show thesis by simp
qed

text \<open>
  Claim C30: a snapshot is served only if at that moment the changelog has every entry of the history so far
  (\<open>take k H\<close>, of which it retains what was not trimmed) after the position that the snapshot
  represents, so that a replica that applies it can go on with the change stream. This is so for
  each of the two tries, with the database and the directory that it meets.
\<close>

theorem ServeSnapshot_covered:
  assumes R: "redis_ok R v" and H: "ids_ok H"
    and es: "\<forall>y \<in> set tries. \<exists>n k. streams (v (sy_state y)) changelogKey = drop n (take k H)"
    and ids: "\<forall>y \<in> set tries. \<forall>m. d_meta (sy_meta y) = Some m \<longrightarrow> (\<exists>t. sid64 t \<and> m_ID m = sid_str t)"
    and run: "ServeSnapshot R tries = (Inr (etag, content), regen)"
  shows "\<exists>y m t n k. y \<in> set tries \<and> d_meta (sy_meta y) = Some m \<and> m_ID m = sid_str t \<and>
    etag = CHR 0x22 # m_File m @ [CHR 0x22] \<and> d_files (sy_open y) (m_File m) = Some content \<and>
    streams (v (sy_state y)) changelogKey = drop n (take k H) \<and> drop n (take k H) \<noteq> [] \<and>
    after t (drop n (take k H)) = after t (take k H)"
proof -
  obtain y where y: "y \<in> set tries" "try_serves R y etag content" by (rule ServeSnapshot_served[OF run])
  then obtain m where m: "d_meta (sy_meta y) = Some m" "d_files (sy_open y) (m_File m) = Some content"
    "etag = CHR 0x22 # m_File m @ [CHR 0x22]" "isSnapshotCurrent R (sy_answers y) (sy_state y) (sy_meta y) = (Some m, True)"
    by (auto simp: try_serves_def)
  obtain t where t: "sid64 t" "m_ID m = sid_str t" using ids y(1) m(1) by blast
  obtain n k where nk: "streams (v (sy_state y)) changelogKey = drop n (take k H)" using es y(1) by blast
  have Hk: "ids_ok (take k H)" using H by (metis append_take_drop_id ids_ok_append)
  note info = stream_info[OF R ids_ok_drop[OF Hk] nk[symmetric]]
  obtain f l j where "StreamInfo R True True True (sy_state y) = Inr (f, l, j)" "f \<noteq> []" "\<not> compareStreamIDs (m_ID m) f < 0"
    by (rule current_answered[OF m(4)])
  with info t have "drop n (take k H) \<noteq> []" "\<not> sid_less t (sid_of (fst (hd (drop n (take k H)))))"
    by (auto simp: compare_sid split: if_splits)
  with covered[OF Hk] nk m(1-3) t(2) y(1) show ?thesis by blast
qed

section \<open>Witnesses\<close>

definition empty_dir :: snapshot_dir where
  "empty_dir = \<lparr>d_files = (\<lambda>_. None), d_meta = None, d_tmp = None\<rparr>"

theorem generate_publishes_safely_witness:
  "list_all published_ok (snd (generate mem_redis (\<lambda>_ _ _. ([], 0)) text_codec id (True, True, True)
     [(False, True, example_log)] 7 8 None [] example_log empty_dir))"
proof -
  let ?run = "generate mem_redis (\<lambda>_ _ _. ([], 0)) text_codec id (True, True, True)
     [(False, True, example_log)] 7 8 None [] example_log empty_dir"
  obtain err ds where run: "?run = (err, ds)" by fastforce
  have "published_ok empty_dir" "d_files empty_dir (snapshot_name 7) = None"
    by (simp_all add: empty_dir_def published_ok_def)
  from generate_publishes_safely[OF this run] run show ?thesis by (simp add: list_all_iff)
qed

definition example_dir :: snapshot_dir where
  "example_dir = empty_dir\<lparr>d_files := [''snapshot-7.zst'' \<mapsto> ''x''],
     d_meta := Some \<lparr>m_File = ''snapshot-7.zst'', m_ID = sid_str (1, 0), m_CreatedAt = 7\<rparr>\<rparr>"

definition example_try :: "snapshot_dir \<Rightarrow> snapshot_dir \<Rightarrow> content serve_try" where
  "example_try d d' = \<lparr>sy_answers = (True, True, True), sy_state = example_log, sy_meta = d, sy_open = d'\<rparr>"

text \<open>The file is gone at the first try.\<close>

theorem ServeSnapshot_covered_witness:
  "ServeSnapshot mem_redis [example_try example_dir empty_dir, example_try example_dir example_dir] =
     (Inr (CHR 0x22 # ''snapshot-7.zst'' @ [CHR 0x22], ''x''), False) \<and>
   (\<exists>t n k. streams example_log changelogKey = drop n (take k example_stream) \<and>
      after t (drop n (take k example_stream)) = after t (take k example_stream))"
proof -
  let ?tries = "[example_try example_dir empty_dir, example_try example_dir example_dir]"
  have t: "sid64 (1, 0)" by (simp add: sid64_def)
  have ne: "example_stream \<noteq> []" "fst (hd example_stream) = sid_str (1, 0)"
    by (simp_all add: example_stream_def)
  have "isSnapshotCurrent mem_redis (True, True, True) example_log example_dir = (d_meta example_dir, True)"
    using stream_info[OF mem_redis_ok, of example_stream example_log] t ne example_ids
    by (simp add: isSnapshotCurrent_def example_dir_def compare_sid)
  then have run: "ServeSnapshot mem_redis ?tries = (Inr (CHR 0x22 # ''snapshot-7.zst'' @ [CHR 0x22], ''x''), False)"
    by (simp add: ServeSnapshot_def example_try_def example_dir_def empty_dir_def)
  have "streams (id example_log) changelogKey = drop 0 (take (length example_stream) example_stream)" by simp
  then have "\<exists>n k. streams (id example_log) changelogKey = drop n (take k example_stream)" by blast
  then have es: "\<forall>y \<in> set ?tries. \<exists>n k. streams (id (sy_state y)) changelogKey = drop n (take k example_stream)"
    by (simp add: example_try_def)
  have "\<forall>y \<in> set ?tries. \<forall>m. d_meta (sy_meta y) = Some m \<longrightarrow> (\<exists>t. sid64 t \<and> m_ID m = sid_str t)"
    using t by (auto simp: example_try_def example_dir_def)
  from ServeSnapshot_covered[OF mem_redis_ok example_ids es this run] obtain y t n k where y: "y \<in> set ?tries"
    "streams (id (sy_state y)) changelogKey = drop n (take k example_stream)"
    "after t (drop n (take k example_stream)) = after t (take k example_stream)" by blast
  then have "sy_state y = example_log" by (auto simp: example_try_def)
  with y(2) have "streams example_log changelogKey = drop n (take k example_stream)" by (simp only: id_apply)
  with run y(3) show ?thesis by blast
qed

end
