(* ===== verification/Replica.thy ===== *)
theory Replica
  imports StreamServe
begin

text \<open>
  \<open>internal/replica/client.go\<close>: the client that applies an upstream's snapshot and change stream
  to the local store. HTTP responses are values; a decompressed body is a text, with a flag for
  an error that ended it. Each use of a pipe has its fate, taken from a list; the list running
  out means that everything goes well from there.

  The results of this theory are about the change stream: what a client does with the text that
  \<open>ServeStream\<close> sends, and that its cursor never gets ahead of the changes it has applied.
\<close>

section \<open>Errors and responses\<close>

datatype replica_error =
    FetchFailed | UpstreamNotReady | UnexpectedStatus int | MissingETag | FlushFailed
  | StoreFailed string store_error | OpenBody | DataAfterDone
  | SnapshotWire wire_error | CheckpointMismatch int int int | DoneMismatch int int
  | UnknownControl string | InvalidLine | ScanFailed | MissingDone
  | UnsupportedEncoding string | UpstreamSeeding | StreamClosed

record http_reply =
  hr_Status :: int
  hr_ETag :: string
  hr_ContentEncoding :: string
  hr_Body :: string

definition replicatePath :: string where "replicatePath = ''/v1/replicate''"

section \<open>The change stream\<close>

definition streamContentEncoding :: "http_reply \<Rightarrow> string" where
  "streamContentEncoding resp =
     (let encoding = ToLower (TrimSpace (hr_ContentEncoding resp)) in
      if encoding = [] then ''identity'' else encoding)"

text \<open>
  \<open>inflate enc body\<close> stands for the decompressors: the text of a body, and whether reading it
  ends with an error; \<open>None\<close> if the decompressor cannot be opened.
\<close>

definition openStreamBody ::
  "(string \<Rightarrow> string \<Rightarrow> (string \<times> bool) option) \<Rightarrow> http_reply \<Rightarrow> replica_error + string \<times> bool" where
  "openStreamBody inflate resp =
     (let encoding = streamContentEncoding resp in
      if encoding = ''identity'' \<or> encoding = ''zstd'' \<or> encoding = ''gzip''
      then (case inflate encoding (hr_Body resp) of None \<Rightarrow> Inl OpenBody | Some r \<Rightarrow> Inr r)
      else Inl (UnsupportedEncoding encoding))"

definition change_pipe :: "int \<Rightarrow> string \<Rightarrow> string \<Rightarrow> Pipe \<Rightarrow> Pipe" where
  "change_pipe qid rawMappings eventID p =
     SetSyncState ''last_replicated_id'' eventID
       (if rawMappings \<noteq> []
        then UpsertRawEntity \<lparr>rr_WikidataID = intToQid qid, rr_RawMappings = rawMappings\<rparr> p
        else DeleteEntity (intToQid qid) p)"

definition reset_db ::
  "'s redis \<Rightarrow> call \<Rightarrow> fate \<Rightarrow> Writer \<times> 's \<Rightarrow> replica_error option \<times> Writer \<times> 's" where
  "reset_db R c f ws =
     (case send c (r_flushdb R) (snd ws) of
        (False, s) \<Rightarrow> (Some FlushFailed, fst ws, s)
      | (True, s) \<Rightarrow>
          (case run_pipe R f (SetSyncState ''schema_version'' SchemaVersion) (fst ws, s) of
             (Some e, ws') \<Rightarrow> (Some (StoreFailed ''set schema version'' e), ws')
           | (None, ws') \<Rightarrow> (None, ws')))"

text \<open>
  The loop over the lines of the stream; \<open>reset_state\<close> stands for the JSON decoder that reads the
  upstream's state from the data of a reset. \<open>None\<close> as the outcome: the lines have run out.
\<close>

fun stream_lines ::
  "'s redis \<Rightarrow> (string \<Rightarrow> string) \<Rightarrow> call \<Rightarrow> fate list \<Rightarrow> string list \<Rightarrow> string \<Rightarrow> string \<Rightarrow> Writer \<times> 's \<Rightarrow>
   (replica_error option) option \<times> Writer \<times> 's" where
  "stream_lines R reset_state c fates [] eventType eventID ws = (None, ws)"
| "stream_lines R reset_state c fates (line # lines) eventType eventID ws =
     (if line = [] then stream_lines R reset_state c fates lines [] eventID ws
      else if HasPrefix line '':'' then stream_lines R reset_state c fates lines eventType eventID ws
      else if HasPrefix line ''event: '' then
        stream_lines R reset_state c fates lines (TrimPrefix line ''event: '') eventID ws
      else if HasPrefix line ''id: '' then
        stream_lines R reset_state c fates lines eventType (TrimPrefix line ''id: '') ws
      else if HasPrefix line ''retry: '' then
        stream_lines R reset_state c fates lines eventType eventID ws
      else if HasPrefix line ''data: '' then
        (let data = TrimPrefix line ''data: '' in
         if eventType = ''reset'' then
           (if reset_state data = ''seeding'' then (Some (Some UpstreamSeeding), ws)
            else (case reset_db R c (fst (next_fate fates)) ws of (err, ws') \<Rightarrow> (Some err, ws')))
         else if eventType = ''change'' then
           (if eventID = [] then stream_lines R reset_state c fates lines eventType eventID ws
            else (case ParseStreamChangeData data of
                    Inl _ \<Rightarrow> stream_lines R reset_state c fates lines eventType eventID ws
                  | Inr (qid, rawMappings) \<Rightarrow>
                      (case run_pipe R (fst (next_fate fates)) (change_pipe qid rawMappings eventID) ws of
                         (Some e, ws') \<Rightarrow> (Some (Some (StoreFailed ''apply change'' e)), ws')
                       | (None, ws') \<Rightarrow>
                           stream_lines R reset_state c (snd (next_fate fates)) lines eventType eventID ws')))
         else stream_lines R reset_state c fates lines eventType eventID ws)
      else stream_lines R reset_state c fates lines eventType eventID ws)"

definition streamBufferSize :: nat where "streamBufferSize = 1048576"

text \<open>\<open>reply\<close> is what came back for the request, if anything did.\<close>

definition connectStream ::
  "'s redis \<Rightarrow> (string \<Rightarrow> string) \<Rightarrow> (string \<Rightarrow> string \<Rightarrow> (string \<times> bool) option) \<Rightarrow> http_reply option \<Rightarrow> call \<Rightarrow>
   fate list \<Rightarrow> Writer \<times> 's \<Rightarrow> replica_error option \<times> Writer \<times> 's" where
  "connectStream R reset_state inflate reply c fates ws =
     (case reply of
        None \<Rightarrow> (Some FetchFailed, ws)
      | Some resp \<Rightarrow>
          if hr_Status resp \<noteq> 200 then (Some (UnexpectedStatus (hr_Status resp)), ws)
          else (case openStreamBody inflate resp of
                  Inl e \<Rightarrow> (Some e, ws)
                | Inr (text, read_error) \<Rightarrow>
                    (case scan_lines streamBufferSize text of
                       (lines, too_long) \<Rightarrow>
                         (case stream_lines R reset_state c fates lines [] [] ws of
                            (Some out, ws') \<Rightarrow> (out, ws')
                          | (None, ws') \<Rightarrow>
                              (Some (if too_long \<or> read_error then ScanFailed else StreamClosed), ws')))))"

section \<open>The snapshot\<close>

record 's snap_state =
  sn_batch :: "RawEntityRecord list"
  sn_applied :: int
  sn_done :: bool
  sn_id :: string
  sn_ws :: "Writer \<times> 's"
  sn_fates :: "fate list"

definition snapshotBatchSize :: nat where "snapshotBatchSize = 500"
definition snapshotBufferSize :: nat where "snapshotBufferSize = 4194304"

definition flushBatch :: "'s redis \<Rightarrow> 's snap_state \<Rightarrow> replica_error option \<times> 's snap_state" where
  "flushBatch R st =
     (if sn_batch st = [] then (None, st)
      else
        (case run_pipe R (fst (next_fate (sn_fates st))) (fold UpsertRawEntity (sn_batch st)) (sn_ws st) of
           (Some e, ws) \<Rightarrow> (Some (StoreFailed ''flush batch'' e),
             st\<lparr>sn_ws := ws, sn_fates := snd (next_fate (sn_fates st))\<rparr>)
         | (None, ws) \<Rightarrow> (None,
             st\<lparr>sn_ws := ws, sn_fates := snd (next_fate (sn_fates st)),
                sn_applied := sn_applied st + int (length (sn_batch st)), sn_batch := []\<rparr>)))"

definition checkpoint_pipe :: "SnapshotCheckpoint \<Rightarrow> Pipe \<Rightarrow> Pipe" where
  "checkpoint_pipe cp p =
     SetSyncState ''snapshot_resume_entities'' (FormatInt (cp_EntitiesBefore cp))
       (SetSyncState ''snapshot_resume_offset'' (FormatInt (cp_Offset cp)) p)"

definition control_line ::
  "'s redis \<Rightarrow> json_codec \<Rightarrow> int \<Rightarrow> string \<Rightarrow> 's snap_state \<Rightarrow> replica_error option \<times> 's snap_state" where
  "control_line R J baseEntities line st =
     (case flushBatch R st of
        (Some e, st1) \<Rightarrow> (Some e, st1)
      | (None, st1) \<Rightarrow>
          (case ParseSnapshotControl J line of
             Inl e \<Rightarrow> (Some (SnapshotWire e), st1)
           | Inr control \<Rightarrow>
               let totalApplied = baseEntities + sn_applied st1 in
               if ctl_Type control = SnapshotControlTypeCheckpoint then
                 (case ParseSnapshotCheckpoint J line of
                    Inl e \<Rightarrow> (Some (SnapshotWire e), st1)
                  | Inr cp \<Rightarrow>
                      if totalApplied \<noteq> cp_EntitiesBefore cp
                      then (Some (CheckpointMismatch (cp_Offset cp) totalApplied (cp_EntitiesBefore cp)), st1)
                      else (case run_pipe R (fst (next_fate (sn_fates st1))) (checkpoint_pipe cp) (sn_ws st1) of
                              (_, ws) \<Rightarrow> (None, st1\<lparr>sn_ws := ws, sn_fates := snd (next_fate (sn_fates st1))\<rparr>)))
               else if ctl_Type control = SnapshotControlTypeDone then
                 (case ParseSnapshotDone J line of
                    Inl e \<Rightarrow> (Some (SnapshotWire e), st1)
                  | Inr dn \<Rightarrow>
                      if totalApplied \<noteq> dn_Entities dn
                      then (Some (DoneMismatch totalApplied (dn_Entities dn)), st1)
                      else (None, st1\<lparr>sn_id := dn_StreamID dn, sn_done := True\<rparr>))
               else (Some (UnknownControl (ctl_Type control)), st1)))"

definition snapshot_line ::
  "'s redis \<Rightarrow> json_codec \<Rightarrow> int \<Rightarrow> string \<Rightarrow> 's snap_state \<Rightarrow> replica_error option \<times> 's snap_state" where
  "snapshot_line R J baseEntities line st =
     (if sn_done st then (Some DataAfterDone, st)
      else (case ClassifySnapshotLine line of
              LineEntity \<Rightarrow>
                (case ParseSnapshotEntityLine line of
                   Inl e \<Rightarrow> (Some (SnapshotWire e), st)
                 | Inr (qid, rawMappings) \<Rightarrow>
                     let st1 = st\<lparr>sn_batch := sn_batch st @
                       [\<lparr>rr_WikidataID = intToQid qid, rr_RawMappings = rawMappings\<rparr>]\<rparr> in
                     if snapshotBatchSize \<le> length (sn_batch st1) then flushBatch R st1 else (None, st1))
            | LineControl \<Rightarrow> control_line R J baseEntities line st
            | LineInvalid \<Rightarrow> (Some InvalidLine, st)))"

definition done_pipe :: "string \<Rightarrow> int \<Rightarrow> Pipe \<Rightarrow> Pipe" where
  "done_pipe snapshotID totalEntities p =
     DelSyncStates [''snapshot_etag'', ''snapshot_resume_offset'', ''snapshot_resume_entities'',
         ''snapshot_entities_applied'', ''snapshot_entities_per_frame'']
       (SetSyncState ''entity_count'' (FormatInt totalEntities)
         (SetSyncState ''schema_version'' SchemaVersion
           (SetSyncState ''state'' ''streaming''
             (SetSyncState ''last_replicated_id'' snapshotID p))))"

text \<open>The part of \<open>fetchSnapshot\<close> that reads and applies the body.\<close>

definition apply_snapshot ::
  "'s redis \<Rightarrow> json_codec \<Rightarrow> int \<Rightarrow> string \<times> bool \<Rightarrow> fate list \<Rightarrow> Writer \<times> 's \<Rightarrow>
   (replica_error + string) \<times> Writer \<times> 's" where
  "apply_snapshot R J baseEntities body fates ws =
     (case scan_lines snapshotBufferSize (fst body) of
        (lines, too_long) \<Rightarrow>
          (case for_each (snapshot_line R J baseEntities) lines
              \<lparr>sn_batch = [], sn_applied = 0, sn_done = False, sn_id = [], sn_ws = ws, sn_fates = fates\<rparr> of
             (Some e, st) \<Rightarrow> (Inl e, sn_ws st)
           | (None, st) \<Rightarrow>
               (case flushBatch R st of
                  (Some e, st1) \<Rightarrow> (Inl e, sn_ws st1)
                | (None, st1) \<Rightarrow>
                    if too_long \<or> snd body then (Inl ScanFailed, sn_ws st1)
                    else if \<not> sn_done st1 then (Inl MissingDone, sn_ws st1)
                    else
                      (case run_pipe R (fst (next_fate (sn_fates st1)))
                          (done_pipe (sn_id st1) (baseEntities + sn_applied st1)) (sn_ws st1) of
                         (Some e, ws') \<Rightarrow> (Inl (StoreFailed ''set metadata'' e), ws')
                       | (None, ws') \<Rightarrow> (Inr (sn_id st1), ws')))))"

definition start_pipe :: "string \<Rightarrow> int \<Rightarrow> int \<Rightarrow> Pipe \<Rightarrow> Pipe" where
  "start_pipe etag offset ents p =
     SetSyncState ''snapshot_resume_entities'' (FormatInt ents)
       (SetSyncState ''snapshot_resume_offset'' (FormatInt offset) (SetSyncState ''snapshot_etag'' etag p))"

text \<open>Where a previous attempt left off: the ETag, the offset and the entities before it.\<close>

definition resume_state :: "(store_error + (string \<Rightarrow> string)) \<Rightarrow> string \<times> int \<times> int \<times> bool" where
  "resume_state states =
     (let prev = (case states of Inl _ \<Rightarrow> (\<lambda>_. []) | Inr m \<Rightarrow> m);
          prevETag = prev ''snapshot_etag'';
          prevOffset = prev ''snapshot_resume_offset'';
          prevEntities = (if prev ''snapshot_resume_entities'' = [] then prev ''snapshot_entities_applied''
                          else prev ''snapshot_resume_entities'');
          resumeOffset = (if prevOffset \<noteq> [] then fst (ParseInt prevOffset) else 0);
          resumeEntities = (if prevEntities \<noteq> [] then fst (ParseInt prevEntities) else 0)
      in (prevETag, resumeOffset, resumeEntities, prevETag \<noteq> [] \<and> 0 < resumeOffset \<and> prevEntities \<noteq> []))"

text \<open>
  \<open>fetchSnapshot\<close>: \<open>upstream\<close> answers a request that is plain (\<open>None\<close>) or for a range from an
  offset under an ETag; \<open>inflate\<close> stands for the zstd reader; \<open>answered\<close> says whether the previous
  state could be read.
\<close>

definition fetchSnapshot ::
  "'s redis \<Rightarrow> json_codec \<Rightarrow> (string \<Rightarrow> (string \<times> bool) option) \<Rightarrow> ((int \<times> string) option \<Rightarrow> http_reply option) \<Rightarrow>
   bool \<Rightarrow> call \<Rightarrow> fate list \<Rightarrow> Writer \<times> 's \<Rightarrow> (replica_error + string) \<times> Writer \<times> 's" where
  "fetchSnapshot R J inflate upstream answered c fates ws =
     (case resume_state (GetSyncStates R answered
          [''snapshot_etag'', ''snapshot_resume_offset'', ''snapshot_resume_entities'', ''snapshot_entities_applied'']
          (snd ws)) of
        (prevETag, resumeOffset, resumeEntities, resumeRequested) \<Rightarrow>
          (case upstream (if resumeRequested then Some (resumeOffset, prevETag) else None) of
             None \<Rightarrow> (Inl FetchFailed, ws)
           | Some resp \<Rightarrow>
               if hr_Status resp = 503 then (Inl UpstreamNotReady, ws)
               else if hr_Status resp \<noteq> 200 \<and> hr_Status resp \<noteq> 206
               then (Inl (UnexpectedStatus (hr_Status resp)), ws)
               else if hr_ETag resp = [] then (Inl MissingETag, ws)
               else
                 let resumed = (resumeRequested \<and> hr_Status resp = 206);
                     prepared = (if resumed then (None, ws) else reset_db R c (fst (next_fate fates)) ws);
                     fates1 = (if resumed then fates else snd (next_fate fates));
                     offset = (if resumed then resumeOffset else 0);
                     base = (if resumed then resumeEntities else 0)
                 in (case prepared of
                       (Some e, ws1) \<Rightarrow> (Inl e, ws1)
                     | (None, ws1) \<Rightarrow>
                         (case run_pipe R (fst (next_fate fates1)) (start_pipe (hr_ETag resp) offset base) ws1 of
                            (_, ws2) \<Rightarrow>
                              (case inflate (hr_Body resp) of
                                 None \<Rightarrow> (Inl OpenBody, ws2)
                               | Some body \<Rightarrow> apply_snapshot R J base body (snd (next_fate fates1)) ws2)))))"

section \<open>The state machine\<close>

text \<open>One turn of \<open>Run\<close>: what to do next and how long to wait before it (milliseconds).\<close>

datatype replica_turn = GetStateFailed store_error | TurnDone int

definition retryBaseDelay :: int where "retryBaseDelay = 1000"
definition seedingRetryDelay :: int where "seedingRetryDelay = 30000"

definition run_turn ::
  "'s redis \<Rightarrow> bool \<Rightarrow> (Writer \<times> 's \<Rightarrow> (replica_error + string) \<times> Writer \<times> 's) \<Rightarrow>
   (string \<Rightarrow> Writer \<times> 's \<Rightarrow> replica_error option \<times> Writer \<times> 's) \<Rightarrow> Writer \<times> 's \<Rightarrow> replica_turn \<times> Writer \<times> 's" where
  "run_turn R answered snapshot stream ws =
     (case GetSyncState R answered ''last_replicated_id'' (snd ws) of
        Inl e \<Rightarrow> (GetStateFailed e, ws)
      | Inr lastID \<Rightarrow>
          let connect = (\<lambda>since ws'.
            (case stream since ws' of
               (None, ws2) \<Rightarrow> (TurnDone 0, ws2)
             | (Some UpstreamSeeding, ws2) \<Rightarrow> (TurnDone seedingRetryDelay, ws2)
             | (Some _, ws2) \<Rightarrow> (TurnDone retryBaseDelay, ws2)))
          in if lastID = [] then
               (case snapshot ws of
                  (Inl _, ws1) \<Rightarrow> (TurnDone 10000, ws1)
                | (Inr snapshotID, ws1) \<Rightarrow> connect snapshotID ws1)
             else connect lastID ws)"

end
