(* ===== verification/ReplicaStream.thy ===== *)
theory ReplicaStream
  imports Replica
begin

text \<open>
  The change stream from end to end: the text a server sends, read by a client. A change and the
  cursor are queued in one pipe, the cursor last, and so no fate of the pipe leaves the cursor
  ahead of the changes (\<open>change_step\<close>); by induction over the stream, a client that is cut off at
  the end of any event can resume from its stored cursor and still converges.
\<close>

section \<open>One change\<close>

definition last_id :: "content \<Rightarrow> string option" where
  "last_id c = hashes c metaKey ''last_replicated_id''"

lemma last_id_abstract: "last_id c = a_sync (abstract c) ''last_replicated_id''"
  by (simp add: last_id_def)

lemma run_pipe_cases:
  assumes keeps: "\<And>p e. p_err p = Some e \<Longrightarrow> p_err (build p) = Some e"
    and run: "run_pipe R f build ws = (err, w', s')"
  obtains (unloaded) e where "err = Some e" "s' = snd ws"
    | (sent) "Exec R (f_attempts f) (f_lost f) (build \<lparr>p_err = None, p_cmds = []\<rparr>) (snd ws) = (err, s')"
proof -
  obtain le w where l: "loadScripts (f_loads f) (fst ws) = (le, w)" by fastforce
  then have new: "NewPipe (f_loads f) (fst ws) = (\<lparr>p_err = le, p_cmds = []\<rparr>, w)" by (simp add: NewPipe_def)
  show thesis
  proof (cases le)
    case None
    with run new sent show ?thesis by (simp add: run_pipe_def split: prod.splits)
  next
    case (Some e)
    then have "p_err (build \<lparr>p_err = le, p_cmds = []\<rparr>) = Some e" using keeps by simp
    with run new have "err = Some e \<and> s' = snd ws" by (simp add: run_pipe_def Exec_def)
    with unloaded show ?thesis by blast
  qed
qed

lemma change_pipe_err: "p_err p = Some e \<Longrightarrow> p_err (change_pipe q m i p) = Some e"
  by (simp add: change_pipe_def UpsertRawEntity_def DeleteEntity_def SetSyncState_def)

definition change_cmd :: "int \<Rightarrow> string \<Rightarrow> cmd" where
  "change_cmd q m = (if m = [] then RunDelete (FormatInt q) else RunUpsert m (FormatInt q))"

lemma change_pipe_cmds:
  "int64 q \<Longrightarrow> change_pipe q m i \<lparr>p_err = None, p_cmds = []\<rparr> =
     \<lparr>p_err = None, p_cmds = [change_cmd q m, HSet metaKey ''last_replicated_id'' i]\<rparr>"
  by (simp add: change_pipe_def UpsertRawEntity_def DeleteEntity_def SetSyncState_def queue_def change_cmd_def)

definition change_map :: "int \<Rightarrow> string \<Rightarrow> (string \<Rightarrow> string option) \<Rightarrow> string \<Rightarrow> string option" where
  "change_map q m = apply_change (FormatInt q, m)"

lemma change_map_idem [simp]: "change_map q m (change_map q m E) = change_map q m E"
  by (simp add: change_map_def apply_change_def)

lemma change_cmd_spec:
  "a_entities (cmd_spec (change_cmd q m) a) = change_map q m (a_entities a)"
  "a_sync (cmd_spec (change_cmd q m) a) = a_sync a"
  by (auto simp: change_cmd_def change_entity_def change_map_def apply_change_def)

text \<open>
  Nothing was done, or the change was made; only with the change made has the cursor moved.
\<close>

definition half_done :: "int \<Rightarrow> string \<Rightarrow> string \<Rightarrow> astore \<Rightarrow> astore \<Rightarrow> bool" where
  "half_done q m i a b \<longleftrightarrow>
     a_entities b = a_entities a \<and> a_sync b ''last_replicated_id'' = a_sync a ''last_replicated_id'' \<or>
     a_entities b = change_map q m (a_entities a) \<and>
       a_sync b ''last_replicated_id'' \<in> {a_sync a ''last_replicated_id'', Some i}"

lemma half_done_prefix:
  assumes "half_done q m i a b" "n \<le> 2"
  shows "half_done q m i a (fold cmd_spec (take n [change_cmd q m, HSet metaKey ''last_replicated_id'' i]) b)"
proof -
  have "n = 0 \<or> n = 1 \<or> n = 2" using assms(2) by linarith
  with assms(1) show ?thesis by (auto simp: half_done_def change_cmd_spec)
qed

lemma change_step:
  assumes R: "redis_ok R v" and c: "index_ok R (v s)" and q: "int64 q" and m: "m = [] \<or> mappings_ok R m"
    and run: "run_pipe R f (change_pipe q m i) (w, s) = (err, w', s')"
  shows "index_ok R (v s') \<and> half_done q m i (abstract (v s)) (abstract (v s')) \<and>
    (err = None \<longrightarrow> entities (v s') = change_map q m (entities (v s)) \<and> last_id (v s') = Some i)"
proof (rule run_pipe_cases[OF change_pipe_err run])
  fix e
  assume "err = Some e" "s' = snd (w, s)"
  with c show ?thesis by (simp add: half_done_def)
next
  let ?p = "change_pipe q m i \<lparr>p_err = None, p_cmds = []\<rparr>"
  let ?cs = "[change_cmd q m, HSet metaKey ''last_replicated_id'' i]"
  assume ex: "Exec R (f_attempts f) (f_lost f) ?p (snd (w, s)) = (err, s')"
  then have s': "s' = snd (Exec R (f_attempts f) (f_lost f) ?p s)" by simp
  have p: "?p = \<lparr>p_err = None, p_cmds = ?cs\<rparr>" by (rule change_pipe_cmds[OF q])
  have "\<forall>k \<in> set (p_cmds ?p). cmd_ok R k" unfolding p using q m by (auto simp: change_cmd_def)
  note ref = Exec_refines[OF R c this, of "f_attempts f" "f_lost f", folded s']
  let ?a = "abstract (v s)"
  have attempts: "half_done q m i ?a (prefixes_spec (map (\<lambda>n. take n ?cs) ns) b)" if "half_done q m i ?a b" for ns b
    using that
  proof (induction ns arbitrary: b)
    case Nil
    then show ?case by (simp add: prefixes_spec_def)
  next
    case (Cons n ns)
    have "take n ?cs = take (min n 2) ?cs" by (simp add: min_def)
    with half_done_prefix[OF Cons.prems, of "min n 2"] have "half_done q m i ?a (fold cmd_spec (take n ?cs) b)" by simp
    from Cons.IH[OF this] show ?case by (simp add: prefixes_spec_def)
  qed
  define b where "b = prefixes_spec (map (\<lambda>n. take n ?cs) (f_attempts f)) ?a"
  have b: "half_done q m i ?a b" unfolding b_def by (rule attempts) (simp add: half_done_def)
  have b': "half_done q m i ?a (fold cmd_spec ?cs b)" using half_done_prefix[OF b, of 2] by simp
  have abs': "abstract (v s') = (if f_lost f then b else fold cmd_spec ?cs b)"
    unfolding ref(1) exec_prefixes_def p by (simp add: b_def prefixes_spec_def)
  have "\<not> f_lost f" if "err = None" using ex that p by (auto simp: Exec_def Let_def)
  moreover have "a_entities (fold cmd_spec ?cs b) = change_map q m (entities (v s))"
    "a_sync (fold cmd_spec ?cs b) ''last_replicated_id'' = Some i"
    using b by (auto simp: half_done_def change_cmd_spec)
  ultimately have "err = None \<longrightarrow> entities (v s') = change_map q m (entities (v s)) \<and> last_id (v s') = Some i"
    using abs' by (metis abstract_sel(1) last_id_abstract)
  with ref(2) b b' abs' show ?thesis by simp
qed

section \<open>Reading the stream\<close>

abbreviation event_change :: "ChangeEvent \<Rightarrow> (string \<Rightarrow> string option) \<Rightarrow> string \<Rightarrow> string option" where
  "event_change ev \<equiv> change_map (ce_QID ev) (ce_RawMappings ev)"

definition event_lines :: "ChangeEvent \<Rightarrow> string list" where
  "event_lines ev = [''id: '' @ ce_ID ev, ''event: change'',
     ''data: '' @ FormatStreamChangeData (ce_QID ev) (ce_RawMappings ev), []]"

fun chunk_lines :: "chunk \<Rightarrow> string list" where
  "chunk_lines Keepalive = ['': keepalive'', []]"
| "chunk_lines (Changes evs) = concat (map event_lines evs)"

definition preamble_lines :: "string list" where
  "preamble_lines = ['': connected'', ''retry: 3000'', []]"

definition event_ok :: "'s redis \<Rightarrow> ChangeEvent \<Rightarrow> bool" where
  "event_ok R ev \<longleftrightarrow> ce_ID ev \<noteq> [] \<and> int64 (ce_QID ev) \<and>
     (ce_RawMappings ev = [] \<or> mappings_ok R (ce_RawMappings ev)) \<and>
     (\<forall>l \<in> set (event_lines ev). line_fits streamBufferSize l)"

lemma render_event_lines: "render_event ev = unlines (event_lines ev)"
  by (simp add: render_event_def event_lines_def crlf2_def)

lemma render_chunk_lines: "render_chunk ch = unlines (chunk_lines ch)"
proof (cases ch)
  case Keepalive
  then show ?thesis by (simp add: crlf2_def)
next
  case (Changes evs)
  have "concat (map render_event evs) = unlines (concat (map event_lines evs))"
    by (induction evs) (simp_all add: render_event_lines)
  with Changes show ?thesis by simp
qed

lemma served_text: "preamble @ concat (map render_chunk cs) = unlines (preamble_lines @ concat (map chunk_lines cs))"
proof -
  have "concat (map render_chunk cs) = unlines (concat (map chunk_lines cs))"
    by (induction cs) (simp_all add: render_chunk_lines)
  then show ?thesis by (simp add: preamble_def preamble_lines_def crlf2_def)
qed

lemma fixed_lines_fit:
  "line_fits streamBufferSize '': keepalive''" "line_fits streamBufferSize []"
  "line_fits streamBufferSize '': connected''" "line_fits streamBufferSize ''retry: 3000''"
  by (simp_all add: line_fits_def streamBufferSize_def drop_cr_def)

definition served_lines :: "chunk list \<Rightarrow> string list" where
  "served_lines cs = preamble_lines @ concat (map chunk_lines cs)"

lemma served_fit:
  assumes "\<forall>ev \<in> set (sent_events cs). event_ok R ev"
  shows "\<forall>l \<in> set (served_lines cs). line_fits streamBufferSize l"
proof -
  have "\<forall>l \<in> set (concat (map chunk_lines cs)). line_fits streamBufferSize l"
    using assms
  proof (induction cs rule: sent_events.induct)
    case 1
    then show ?case by simp
  next
    case (2 cs)
    then show ?case by (auto simp: fixed_lines_fit)
  next
    case (3 evs cs)
    then show ?case by (auto simp: event_ok_def)
  qed
  then show ?thesis by (auto simp: served_lines_def preamble_lines_def fixed_lines_fit)
qed

lemma scan_served:
  assumes "\<forall>ev \<in> set (sent_events cs). event_ok R ev"
  shows "scan_lines streamBufferSize (preamble @ concat (map render_chunk cs)) =
    (preamble_lines @ concat (map chunk_lines cs), False)"
  unfolding served_text using scan_unlines[OF served_fit[OF assms]] by (simp only: served_lines_def)

text \<open>Applying a list of events, each with its fate.\<close>

fun apply_events ::
  "'s redis \<Rightarrow> fate list \<Rightarrow> ChangeEvent list \<Rightarrow> Writer \<times> 's \<Rightarrow> store_error option \<times> fate list \<times> Writer \<times> 's" where
  "apply_events R fates [] ws = (None, fates, ws)"
| "apply_events R fates (ev # evs) ws =
     (case run_pipe R (fst (next_fate fates)) (change_pipe (ce_QID ev) (ce_RawMappings ev) (ce_ID ev)) ws of
        (Some e, ws') \<Rightarrow> (Some e, snd (next_fate fates), ws')
      | (None, ws') \<Rightarrow> apply_events R (snd (next_fate fates)) evs ws')"

lemma stream_lines_event:
  assumes "event_ok R ev"
  shows "stream_lines R rst c fates (event_lines ev @ rest) [] i ws =
    (case run_pipe R (fst (next_fate fates)) (change_pipe (ce_QID ev) (ce_RawMappings ev) (ce_ID ev)) ws of
       (Some e, ws') \<Rightarrow> (Some (Some (StoreFailed ''apply change'' e)), ws')
     | (None, ws') \<Rightarrow> stream_lines R rst c (snd (next_fate fates)) rest [] (ce_ID ev) ws')"
proof -
  have "ParseStreamChangeData (FormatStreamChangeData (ce_QID ev) (ce_RawMappings ev)) = Inr (ce_QID ev, ce_RawMappings ev)"
    using assms by (simp add: parse_change_data event_ok_def)
  moreover have "ce_ID ev \<noteq> []" using assms by (simp add: event_ok_def)
  ultimately show ?thesis
    by (simp add: event_lines_def HasPrefix_def TrimPrefix_def Let_def split: prod.splits option.splits)
qed

lemma stream_lines_events:
  assumes "\<forall>ev \<in> set evs. event_ok R ev"
  shows "stream_lines R rst c fates (concat (map event_lines evs) @ rest) [] i ws =
    (case apply_events R fates evs ws of
       (Some e, _, ws') \<Rightarrow> (Some (Some (StoreFailed ''apply change'' e)), ws')
     | (None, fates', ws') \<Rightarrow> stream_lines R rst c fates' rest [] (if evs = [] then i else ce_ID (last evs)) ws')"
  using assms
proof (induction evs arbitrary: fates i ws)
  case Nil
  then show ?case by simp
next
  case (Cons ev evs)
  then show ?case by (auto simp: stream_lines_event split: prod.splits option.splits)
qed

lemma apply_events_append:
  "apply_events R fates (xs @ ys) ws =
     (case apply_events R fates xs ws of
        (Some e, fates', ws') \<Rightarrow> (Some e, fates', ws')
      | (None, fates', ws') \<Rightarrow> apply_events R fates' ys ws')"
  by (induction xs arbitrary: fates ws) (auto split: prod.splits option.splits)

lemma stream_lines_chunks:
  assumes "\<forall>ev \<in> set (sent_events cs). event_ok R ev"
  shows "stream_lines R rst c fates (concat (map chunk_lines cs)) [] i ws =
    (case apply_events R fates (sent_events cs) ws of
       (Some e, _, ws') \<Rightarrow> (Some (Some (StoreFailed ''apply change'' e)), ws')
     | (None, _, ws') \<Rightarrow> (None, ws'))"
  using assms
proof (induction cs arbitrary: fates i ws rule: sent_events.induct)
  case 1
  then show ?case by simp
next
  case (2 cs)
  then show ?case by (simp add: HasPrefix_def)
next
  case (3 evs cs)
  then show ?case
    by (auto simp: stream_lines_events apply_events_append split: prod.splits option.splits)
qed

lemma stream_lines_served:
  assumes "\<forall>ev \<in> set (sent_events cs). event_ok R ev"
  shows "stream_lines R rst c fates (preamble_lines @ concat (map chunk_lines cs)) [] [] ws =
    (case apply_events R fates (sent_events cs) ws of
       (Some e, _, ws') \<Rightarrow> (Some (Some (StoreFailed ''apply change'' e)), ws')
     | (None, _, ws') \<Rightarrow> (None, ws'))"
  using stream_lines_chunks[OF assms] by (simp add: preamble_lines_def HasPrefix_def)

section \<open>The cursor never runs ahead\<close>

text \<open>
  \<open>on_course T F m c\<close>: the local store is at position \<open>m\<close> of the events \<open>F\<close>, and applying the
  remaining ones to it leads to the entities \<open>T\<close>.
\<close>

definition on_course :: "(string \<Rightarrow> string option) \<Rightarrow> ChangeEvent list \<Rightarrow> nat \<Rightarrow> string \<Rightarrow> content \<Rightarrow> bool" where
  "on_course T F m since c \<longleftrightarrow> m \<le> length F \<and> fold event_change (drop m F) (entities c) = T \<and>
     last_id c = Some (if m = 0 then since else ce_ID (F ! (m - 1)))"

lemma on_course_apply:
  assumes R: "redis_ok R v" and ok: "\<forall>ev \<in> set F. event_ok R ev"
    and "index_ok R (v (snd ws))" "on_course T F m since (v (snd ws))"
    and run: "apply_events R fates (drop m F) ws = (err, fates', ws')"
  shows "\<exists>m' \<ge> m. index_ok R (v (snd ws')) \<and> on_course T F m' since (v (snd ws')) \<and> (err = None \<longrightarrow> m' = length F)"
  using assms(3-)
proof (induction "length F - m" arbitrary: m fates ws)
  case 0
  then have "m = length F" by (simp add: on_course_def)
  with 0 show ?case by auto
next
  case (Suc n)
  then have m: "m < length F" by simp
  let ?ev = "F ! m"
  obtain w s where ws: "ws = (w, s)" by fastforce
  obtain e w1 s1 where r: "run_pipe R (fst (next_fate fates))
      (change_pipe (ce_QID ?ev) (ce_RawMappings ?ev) (ce_ID ?ev)) (w, s) = (e, w1, s1)"
    by (metis prod.exhaust)
  have evok: "event_ok R ?ev" using ok m by simp
  then have q: "int64 (ce_QID ?ev)" "ce_RawMappings ?ev = [] \<or> mappings_ok R (ce_RawMappings ?ev)"
    by (simp_all add: event_ok_def)
  have idx: "index_ok R (v s)" using Suc.prems(1) by (simp add: ws)
  note step = change_step[OF R idx q r]
  have d: "drop m F = ?ev # drop (Suc m) F" using m by (simp add: Cons_nth_drop_Suc)
  have here: "fold event_change (drop (Suc m) F) (event_change ?ev (entities (v s))) = T"
    "last_id (v s) = Some (if m = 0 then since else ce_ID (F ! (m - 1)))"
    using Suc.prems(2) by (simp_all add: on_course_def ws d)
  show ?case
  proof (cases e)
    case None
    have next': "on_course T F (Suc m) since (v (snd (w1, s1)))"
      using step None here m by (simp add: on_course_def)
    have "apply_events R (snd (next_fate fates)) (drop (Suc m) F) (w1, s1) = (err, fates', ws')"
      using Suc.prems(3) r None by (simp add: ws d)
    with Suc.hyps(1)[OF _ _ next'] Suc.hyps(2) step obtain m' where "m' \<ge> Suc m" "index_ok R (v (snd ws'))"
      "on_course T F m' since (v (snd ws'))" "err = None \<longrightarrow> m' = length F" by fastforce
    then show ?thesis by (intro exI[of _ m']) simp
  next
    case (Some x)
    then have out: "err = Some x" "ws' = (w1, s1)" using Suc.prems(3) r by (simp_all add: ws d)
    have ents: "entities (v s1) = entities (v s) \<and> last_id (v s1) = last_id (v s) \<or>
      entities (v s1) = event_change ?ev (entities (v s)) \<and> last_id (v s1) \<in> {last_id (v s), Some (ce_ID ?ev)}"
      using step by (simp add: half_done_def last_id_def)
    then consider "last_id (v s1) = last_id (v s)"
        "event_change ?ev (entities (v s1)) = event_change ?ev (entities (v s))"
      | "last_id (v s1) = Some (ce_ID ?ev)" "entities (v s1) = event_change ?ev (entities (v s))" by auto
    then show ?thesis
    proof cases
      case 1
      then have "on_course T F m since (v s1)" using here m by (simp add: on_course_def d)
      with step out show ?thesis by (intro exI[of _ m]) simp
    next
      case 2
      then have "on_course T F (Suc m) since (v s1)" using here m by (simp add: on_course_def)
      with step out show ?thesis by (intro exI[of _ "Suc m"]) simp
    qed
  qed
qed

lemma stream_converges:
  assumes R: "redis_ok R v" and idx: "index_ok R (v (snd ws))" and cur: "last_id (v (snd ws)) = Some since"
    and ok: "\<forall>ev \<in> set (sent_events cs). event_ok R ev"
    and status: "hr_Status resp = 200"
    and body: "openStreamBody inflate resp = Inr (preamble @ concat (map render_chunk cs), read_error)"
    and target: "T = fold event_change (sent_events cs) (entities (v (snd ws)))"
    and run: "connectStream R rst inflate (Some resp) c fates ws = (out, ws')"
  shows "\<exists>m. index_ok R (v (snd ws')) \<and> on_course T (sent_events cs) m since (v (snd ws')) \<and>
    (out \<in> {Some StreamClosed, Some ScanFailed} \<longrightarrow>
       m = length (sent_events cs) \<and> entities (v (snd ws')) = T)"
proof -
  obtain err fates' ws1 where ap: "apply_events R fates (sent_events cs) ws = (err, fates', ws1)"
    by (metis prod.exhaust)
  have start: "on_course T (sent_events cs) 0 since (v (snd ws))"
    using cur target by (simp add: on_course_def)
  obtain m where m: "index_ok R (v (snd ws1))" "on_course T (sent_events cs) m since (v (snd ws1))"
    "err = None \<longrightarrow> m = length (sent_events cs)"
    using on_course_apply[OF R ok idx start, of fates err fates' ws1] ap by auto
  have res: "connectStream R rst inflate (Some resp) c fates ws =
      (case err of Some e \<Rightarrow> (Some (StoreFailed ''apply change'' e), ws1)
       | None \<Rightarrow> (Some (if read_error then ScanFailed else StreamClosed), ws1))"
    using status body scan_served[OF ok] stream_lines_served[OF ok, of rst c fates ws] ap
    by (cases err) (simp_all add: connectStream_def)
  show ?thesis
  proof (cases err)
    case None
    with res run have "ws' = ws1" by simp
    with m None show ?thesis by (intro exI[of _ m]) (simp add: on_course_def)
  next
    case (Some e)
    with res run have "ws' = ws1" "out = Some (StoreFailed ''apply change'' e)" by simp_all
    with m show ?thesis by (intro exI[of _ m]) simp
  qed
qed

text \<open>
  Claim C8: a client reads from a server's stream exactly the events that were sent. Whatever goes wrong
  with its own database, its stored cursor is the position of one of the events (or where it
  began), and applying the events after that cursor to the entities it holds gives the
  upstream's entities: no event is skipped by resuming. If nothing goes wrong, it holds them.
\<close>

theorem connectStream_converges:
  assumes "redis_ok R v" and "index_ok R (v (snd ws))" and "last_id (v (snd ws)) = Some since"
    and "\<forall>ev \<in> set (sent_events cs). event_ok R ev"
    and "hr_Status resp = 200"
    and "openStreamBody inflate resp = Inr (preamble @ concat (map render_chunk cs), read_error)"
    and "T = fold event_change (sent_events cs) (entities (v (snd ws)))"
    and "connectStream R rst inflate (Some resp) c fates ws = (out, ws')"
  shows "\<exists>m. index_ok R (v (snd ws')) \<and> on_course T (sent_events cs) m since (v (snd ws')) \<and>
    (out \<in> {Some StreamClosed, Some ScanFailed} \<longrightarrow>
       m = length (sent_events cs) \<and> entities (v (snd ws')) = T)"
  by (rule stream_converges[OF assms])

section \<open>A stream that is cut off outside a payload\<close>

text \<open>
  What a client may get of a stream: any number of its lines, and then perhaps the beginning of the
  next one, but not a part of a \<open>data\<close> line that looks like one.
\<close>

definition cut_stream :: "chunk list \<Rightarrow> string \<Rightarrow> bool" where
  "cut_stream cs t \<longleftrightarrow> (\<exists>n l. t = unlines (take n (served_lines cs)) @ l \<and>
     (l = [] \<or> n < length (served_lines cs) \<and> (\<exists>r. served_lines cs ! n = l @ r) \<and> \<not> HasPrefix l ''data: ''))"

lemma cut_stream_full: "cut_stream cs (preamble @ concat (map render_chunk cs))"
  unfolding cut_stream_def served_text served_lines_def[symmetric]
  by (intro exI[of _ "length (served_lines cs)"] exI[of _ "[]"]) simp

text \<open>What is left of the cut line does nothing.\<close>

definition quiet :: "string list \<Rightarrow> bool" where
  "quiet tail \<longleftrightarrow> tail = [] \<or> (\<exists>l. tail = [l] \<and> \<not> HasPrefix l ''data: '')"

lemma quiet_lines: "quiet tail \<Longrightarrow> stream_lines R rst c fates tail et i ws = (None, ws)"
  by (auto simp: quiet_def)

definition applied :: "'s redis \<Rightarrow> fate list \<Rightarrow> ChangeEvent list \<Rightarrow> Writer \<times> 's \<Rightarrow> (replica_error option) option \<times> Writer \<times> 's" where
  "applied R fates evs ws = (case apply_events R fates evs ws of
     (Some e, _, ws') \<Rightarrow> (Some (Some (StoreFailed ''apply change'' e)), ws')
   | (None, _, ws') \<Rightarrow> (None, ws'))"

lemma applied_Nil [simp]: "applied R fates [] ws = (None, ws)"
  by (simp add: applied_def)

lemma applied_Cons:
  "applied R fates (ev # evs) ws =
     (case run_pipe R (fst (next_fate fates)) (change_pipe (ce_QID ev) (ce_RawMappings ev) (ce_ID ev)) ws of
        (Some e, ws') \<Rightarrow> (Some (Some (StoreFailed ''apply change'' e)), ws')
      | (None, ws') \<Rightarrow> applied R (snd (next_fate fates)) evs ws')"
  by (simp add: applied_def split: prod.splits option.splits)

lemma event_cut:
  assumes "event_ok R ev" "quiet tail" "n < 4"
  shows "stream_lines R rst c fates (take n (event_lines ev) @ tail) [] i ws = applied R fates (if n = 3 then [ev] else []) ws"
proof -
  have "ParseStreamChangeData (FormatStreamChangeData (ce_QID ev) (ce_RawMappings ev)) = Inr (ce_QID ev, ce_RawMappings ev)"
    using assms(1) by (simp add: parse_change_data event_ok_def)
  moreover have "ce_ID ev \<noteq> []" using assms(1) by (simp add: event_ok_def)
  moreover have "n = 0 \<or> n = 1 \<or> n = 2 \<or> n = 3" using assms(3) by linarith
  ultimately show ?thesis
    by (auto simp: event_lines_def HasPrefix_def TrimPrefix_def Let_def quiet_lines[OF assms(2)] applied_Cons numeral_eq_Suc
        split: prod.splits option.splits)
qed

lemma events_cut:
  assumes "\<forall>ev \<in> set evs. event_ok R ev" "quiet tail"
    and rest: "\<And>n fates i ws. \<exists>j. stream_lines R rst c fates (take n rest @ tail) [] i ws = applied R fates (take j later) ws"
  shows "\<exists>j. stream_lines R rst c fates (take n (concat (map event_lines evs) @ rest) @ tail) [] i ws =
    applied R fates (take j (evs @ later)) ws"
  using assms(1)
proof (induction evs arbitrary: n fates i ws)
  case Nil
  then show ?case using rest by simp
next
  case (Cons ev evs)
  then have ev: "event_ok R ev" by simp
  have len: "length (event_lines ev) = 4" by (simp add: event_lines_def)
  show ?case
  proof (cases "n < 4")
    case True
    with len have t: "take n (concat (map event_lines (ev # evs)) @ rest) = take n (event_lines ev)" by simp
    show ?thesis unfolding t
      by (intro exI[of _ "if n = 3 then 1 else 0"]) (simp add: event_cut[OF ev assms(2) True])
  next
    case False
    with len have t: "take n (concat (map event_lines (ev # evs)) @ rest) @ tail =
        event_lines ev @ take (n - 4) (concat (map event_lines evs) @ rest) @ tail" by simp
    obtain err ws1 where r: "run_pipe R (fst (next_fate fates)) (change_pipe (ce_QID ev) (ce_RawMappings ev) (ce_ID ev)) ws = (err, ws1)"
      by (metis surj_pair)
    show ?thesis
    proof (cases err)
      case (Some e)
      then show ?thesis unfolding t
        by (intro exI[of _ 1]) (simp add: stream_lines_event[OF ev] r applied_Cons)
    next
      case None
      obtain j where "stream_lines R rst c (snd (next_fate fates)) (take (n - 4) (concat (map event_lines evs) @ rest) @ tail) [] (ce_ID ev) ws1 =
          applied R (snd (next_fate fates)) (take j (evs @ later)) ws1"
        using Cons.IH Cons.prems by (meson list.set_intros(2))
      with None show ?thesis unfolding t
        by (intro exI[of _ "Suc j"]) (simp add: stream_lines_event[OF ev] r applied_Cons)
    qed
  qed
qed

lemma chunks_cut:
  assumes "\<forall>ev \<in> set (sent_events cs). event_ok R ev" "quiet tail"
  shows "\<exists>j. stream_lines R rst c fates (take n (concat (map chunk_lines cs)) @ tail) [] i ws =
    applied R fates (take j (sent_events cs)) ws"
  using assms(1)
proof (induction cs arbitrary: n fates i ws rule: sent_events.induct)
  case 1
  then show ?case by (simp add: quiet_lines[OF assms(2)])
next
  case (2 cs)
  have "n = 0 \<or> n = 1 \<or> (\<exists>m. n = Suc (Suc m))" by presburger
  moreover have "\<exists>j. stream_lines R rst c fates (take m (concat (map chunk_lines cs)) @ tail) [] i ws = applied R fates (take j (sent_events cs)) ws" for m
    using 2 by simp
  ultimately show ?case
    by (elim disjE exE) (auto simp: HasPrefix_def quiet_lines[OF assms(2)] intro: exI[of _ 0])
next
  case (3 evs cs)
  then have ih: "\<exists>j. stream_lines R rst c fates (take n (concat (map chunk_lines cs)) @ tail) [] i ws = applied R fates (take j (sent_events cs)) ws"
    for n fates i ws by simp
  have ev: "\<forall>ev \<in> set evs. event_ok R ev" using 3(2) by simp
  have l: "concat (map chunk_lines (Changes evs # cs)) = concat (map event_lines evs) @ concat (map chunk_lines cs)"
    "sent_events (Changes evs # cs) = evs @ sent_events cs" by simp_all
  show ?case unfolding l by (rule events_cut[OF ev assms(2)]) (rule ih)
qed

lemma served_cut:
  assumes "\<forall>ev \<in> set (sent_events cs). event_ok R ev" "quiet tail"
  shows "\<exists>j. stream_lines R rst c fates (take n (served_lines cs) @ tail) [] [] ws = applied R fates (take j (sent_events cs)) ws"
proof -
  have "n = 0 \<or> n = 1 \<or> n = 2 \<or> (\<exists>m. n = Suc (Suc (Suc m)))" by presburger
  with chunks_cut[OF assms] show ?thesis
    by (elim disjE exE)
      (auto simp: served_lines_def preamble_lines_def HasPrefix_def quiet_lines[OF assms(2)] numeral_eq_Suc intro: exI[of _ 0])
qed

lemma scan_cut_stream:
  assumes fit: "\<forall>l \<in> set (served_lines cs). line_fits streamBufferSize l" and t: "cut_stream cs t"
  obtains n tail where "scan_lines streamBufferSize t = (take n (served_lines cs) @ tail, False)" "quiet tail"
proof -
  obtain n l where t: "t = unlines (take n (served_lines cs)) @ l"
    "l = [] \<or> n < length (served_lines cs) \<and> (\<exists>r. served_lines cs ! n = l @ r) \<and> \<not> HasPrefix l ''data: ''"
    using t by (auto simp: cut_stream_def)
  have "\<forall>l \<in> set (take n (served_lines cs)). line_fits streamBufferSize l" using fit by (meson in_set_takeD)
  note sc = scan_unlines_rest[OF this, of l, folded t(1)]
  show thesis
  proof (cases "l = []")
    case True
    with sc that[of n "[]"] show thesis by (simp add: scan_lines_def quiet_def)
  next
    case False
    with t(2) obtain r where r: "n < length (served_lines cs)" "served_lines cs ! n = l @ r" "\<not> HasPrefix l ''data: ''" by blast
    have "line_fits streamBufferSize (l @ r)" using fit nth_mem[OF r(1)] r(2) by metis
    then have "newline \<notin> set l" "length l < streamBufferSize" by (simp_all add: line_fits_def)
    then have "scan_lines streamBufferSize l = ([drop_cr l], False)"
      using False by (simp add: scan_lines_def Split_no_sep)
    moreover have "\<not> HasPrefix (drop_cr l) ''data: ''"
      using r(3) by (cases l rule: rev_cases) (auto simp: drop_cr_def HasPrefix_def split: if_splits)
    ultimately show thesis using sc that[of n "[drop_cr l]"] by (simp add: quiet_def)
  qed
qed

lemma on_course_take:
  assumes "on_course (fold event_change (take j F) E) (take j F) m since c"
  shows "on_course (fold event_change F E) F m since c"
proof -
  have m: "m \<le> length (take j F)" using assms by (simp add: on_course_def)
  have "fold event_change F E = fold event_change (drop j F) (fold event_change (take j F) E)"
    using fold_append[of event_change "take j F" "drop j F"] by (simp only: append_take_drop_id comp_apply)
  also have "\<dots> = fold event_change (drop j F) (fold event_change (drop m (take j F)) (entities c))"
    using assms by (simp add: on_course_def)
  also have "\<dots> = fold event_change (drop m (take j F) @ drop j F) (entities c)" by simp
  also have "drop m (take j F) @ drop j F = drop m F"
  proof -
    have z: "m - length (take j F) = 0" using m by simp
    have "drop m (take j F @ drop j F) = drop m (take j F) @ drop j F" by (simp only: drop_append z drop_0)
    then show ?thesis by (simp only: append_take_drop_id)
  qed
  finally have "fold event_change (drop m F) (entities c) = fold event_change F E" by simp
  moreover have "take j F ! (m - 1) = F ! (m - 1)" if "m \<noteq> 0" by (rule nth_take) (use m that in auto)
  ultimately show ?thesis using assms m by (simp add: on_course_def)
qed

text \<open>A client of a cut stream has applied some of the events, and is on course for all of them.\<close>

lemma cut_stream_converges:
  assumes R: "redis_ok R v" and idx: "index_ok R (v (snd ws))" and cur: "last_id (v (snd ws)) = Some since"
    and ok: "\<forall>ev \<in> set (sent_events cs). event_ok R ev"
    and status: "hr_Status resp = 200"
    and body: "openStreamBody inflate resp = Inr (t, read_error)" "cut_stream cs t"
    and run: "connectStream R rst inflate (Some resp) c fates ws = (out, ws')"
  shows "\<exists>m. index_ok R (v (snd ws')) \<and>
    on_course (fold event_change (sent_events cs) (entities (v (snd ws)))) (sent_events cs) m since (v (snd ws'))"
proof -
  obtain n tail where sc: "scan_lines streamBufferSize t = (take n (served_lines cs) @ tail, False)" "quiet tail"
    by (rule scan_cut_stream[OF served_fit[OF ok] body(2)])
  obtain j where j: "stream_lines R rst c fates (take n (served_lines cs) @ tail) [] [] ws = applied R fates (take j (sent_events cs)) ws"
    using served_cut[OF ok sc(2)] by blast
  let ?F = "take j (sent_events cs)"
  obtain err fates' ws1 where ap: "apply_events R fates ?F ws = (err, fates', ws1)" by (metis prod.exhaust)
  have "ws' = ws1"
    using run status body sc(1) j ap by (cases err) (simp_all add: connectStream_def applied_def)
  moreover have okF: "\<forall>ev \<in> set ?F. event_ok R ev" using ok by (meson in_set_takeD)
  have "on_course (fold event_change ?F (entities (v (snd ws)))) ?F 0 since (v (snd ws))" using cur by (simp add: on_course_def)
  from on_course_apply[OF R okF idx this, of fates err fates' ws1] ap
  obtain m where "index_ok R (v (snd ws1))" "on_course (fold event_change ?F (entities (v (snd ws)))) ?F m since (v (snd ws1))" by auto
  ultimately show ?thesis using on_course_take by blast
qed

section \<open>A stream that is cut off inside a line\<close>

lemma scan_cut:
  assumes "line_fits streamBufferSize (''id: '' @ i)" "line_fits streamBufferSize (''data: '' @ p)"
  shows "scan_lines streamBufferSize (unlines (preamble_lines @ [''id: '' @ i, ''event: change'']) @ ''data: '' @ p) =
    (preamble_lines @ [''id: '' @ i, ''event: change'', ''data: '' @ p], False)"
proof -
  have "line_fits streamBufferSize ''event: change''"
    by (simp add: line_fits_def streamBufferSize_def drop_cr_def)
  then have fit: "\<forall>l \<in> set (preamble_lines @ [''id: '' @ i, ''event: change'']). line_fits streamBufferSize l"
    using assms(1) by (auto simp: preamble_lines_def fixed_lines_fit)
  have last: "scan_lines streamBufferSize (''data: '' @ p) = ([''data: '' @ p], False)"
    using assms(2) Split_no_sep[of newline "''data: '' @ p"] by (simp add: scan_lines_def line_fits_def)
  show ?thesis using scan_unlines_rest[OF fit, of "''data: '' @ p"] last by simp
qed

text \<open>
  Claim C39: when a connection breaks inside the payload of a change, the client applies the part of the
  line that it got: if that part is a number \<open>q'\<close> (the full payload may be an update of another
  entity), it deletes the entity \<open>q'\<close> and moves its cursor to the event, which it will
  therefore never read in full. The event's blank line, which would end it, is not waited for.
\<close>

theorem connectStream_applies_cut_line:
  assumes R: "redis_ok R v" and idx: "index_ok R (v s)" and q: "int64 q'"
    and i: "i \<noteq> []" "line_fits streamBufferSize (''id: '' @ i)" "line_fits streamBufferSize (''data: '' @ FormatInt q')"
    and status: "hr_Status resp = 200"
    and body: "openStreamBody inflate resp =
      Inr (unlines (preamble_lines @ [''id: '' @ i, ''event: change'']) @ ''data: '' @ FormatInt q', True)"
    and run: "connectStream R rst inflate (Some resp) c [f] (w, s) = (Some ScanFailed, w', s')"
  shows "entities (v s') = (entities (v s))(FormatInt q' := None) \<and> last_id (v s') = Some i"
proof -
  have "CHR '' '' \<notin> set (FormatInt q')" by simp
  then have "IndexByte (FormatInt q') CHR '' '' = None" by (simp add: IndexByte_None)
  then have parse: "ParseStreamChangeData (FormatInt q') = Inr (q', [])"
    using q by (simp add: ParseStreamChangeData_def)
  obtain err w1 s1 where r: "run_pipe R f (change_pipe q' [] i) (w, s) = (err, w1, s1)" by (metis prod.exhaust)
  have "connectStream R rst inflate (Some resp) c [f] (w, s) =
      (case err of Some e \<Rightarrow> (Some (StoreFailed ''apply change'' e), w1, s1) | None \<Rightarrow> (Some ScanFailed, w1, s1))"
    using status body scan_cut[OF i(2,3)] parse i(1) r
    by (cases err) (simp_all add: connectStream_def preamble_lines_def HasPrefix_def TrimPrefix_def)
  with run have "err = None" "s' = s1" by (cases err; simp)+
  with change_step[OF R idx q _ r] show ?thesis by (simp add: change_map_def apply_change_def)
qed

section \<open>Witnesses\<close>

definition example_replica :: content where
  "example_replica = put_hash metaKey ((hashes example_db metaKey)(''last_replicated_id'' := Some ''1-0'')) example_db"

lemma example_replica:
  "index_ok mem_redis example_replica" "last_id example_replica = Some ''1-0''"
  "entities example_replica = [FormatInt 42 \<mapsto> canonicalMappingsJSON example_mappings]"
  using meta_frame(1)[of example_replica _ example_db mem_redis] example_db
  by (simp_all add: example_replica_def last_id_def)

definition example_delete :: ChangeEvent where
  "example_delete = \<lparr>ce_ID = ''2-0'', ce_QID = 42, ce_RawMappings = []\<rparr>"

lemma format_42: "FormatInt 42 = ''42''" "FormatInt 4 = ''4''"
  by (simp_all add: FormatInt_def format_nat.simps digit_char_def char_of_eqI)

lemma example_event_ok: "event_ok mem_redis example_delete"
  by (simp add: event_ok_def example_delete_def int64_def event_lines_def FormatStreamChangeData_def
      line_fits_def streamBufferSize_def drop_cr_def format_42)

abbreviation plain_reply :: "string \<Rightarrow> http_reply" where
  "plain_reply text \<equiv> \<lparr>hr_Status = 200, hr_ETag = [], hr_ContentEncoding = [], hr_Body = text\<rparr>"

lemma open_plain: "openStreamBody (\<lambda>_ b. Some (b, e)) (plain_reply text) = Inr (text, e)"
proof -
  have "ToLower (TrimSpace []) = []" by code_simp
  then show ?thesis by (simp add: openStreamBody_def streamContentEncoding_def Let_def)
qed

theorem connectStream_converges_witness:
  "\<exists>m out w s. connectStream mem_redis (\<lambda>_. []) (\<lambda>_ b. Some (b, False))
      (Some (plain_reply (preamble @ concat (map render_chunk [Changes [example_delete], Keepalive]))))
      Answered [good_fate\<lparr>f_attempts := [1]\<rparr>] (\<lparr>scriptsLoaded = True\<rparr>, example_replica) = (out, w, s) \<and>
    on_course (\<lambda>_. None) [example_delete] m ''1-0'' s"
proof -
  let ?cs = "[Changes [example_delete], Keepalive]"
  let ?ws = "(\<lparr>scriptsLoaded = True\<rparr>, example_replica)"
  obtain out w s where run: "connectStream mem_redis (\<lambda>_. []) (\<lambda>_ b. Some (b, False))
      (Some (plain_reply (preamble @ concat (map render_chunk ?cs)))) Answered [good_fate\<lparr>f_attempts := [1]\<rparr>] ?ws = (out, w, s)"
    by (metis prod.exhaust)
  have ok: "\<forall>ev \<in> set (sent_events ?cs). event_ok mem_redis ev" using example_event_ok by simp
  have "\<exists>m. index_ok mem_redis (id (snd (w, s))) \<and>
      on_course (fold event_change (sent_events ?cs) (entities (id (snd ?ws)))) (sent_events ?cs) m ''1-0'' (id (snd (w, s))) \<and>
    (out \<in> {Some StreamClosed, Some ScanFailed} \<longrightarrow>
       m = length (sent_events ?cs) \<and>
       entities (id (snd (w, s))) = fold event_change (sent_events ?cs) (entities (id (snd ?ws))))"
    by (rule connectStream_converges[OF mem_redis_ok _ _ ok _ open_plain refl run]) (simp_all add: example_replica)
  moreover have "fold event_change (sent_events ?cs) (entities (id (snd ?ws))) = (\<lambda>_. None)"
    by (auto simp: change_map_def apply_change_def example_delete_def example_replica fun_eq_iff)
  ultimately have "\<exists>m. on_course (\<lambda>_. None) [example_delete] m ''1-0'' s" by auto
  with run show ?thesis by blast
qed

text \<open>The payload of an update of entity 42, cut after its first byte, deletes entity 4.\<close>

theorem connectStream_applies_cut_line_witness:
  "take 1 (FormatStreamChangeData 42 ''[]'') = FormatInt 4 \<and>
   (\<exists>w s. connectStream mem_redis (\<lambda>_. []) (\<lambda>_ b. Some (b, True))
      (Some (plain_reply (unlines (preamble_lines @ [''id: '' @ ''2-0'', ''event: change'']) @ ''data: '' @ FormatInt 4)))
      Answered [good_fate] (\<lparr>scriptsLoaded = True\<rparr>, example_replica) = (Some ScanFailed, w, s) \<and>
    last_id s = Some ''2-0'')"
proof
  show "take 1 (FormatStreamChangeData 42 ''[]'') = FormatInt 4"
    by (simp add: FormatStreamChangeData_def format_42)
  let ?ws = "(\<lparr>scriptsLoaded = True\<rparr>, example_replica)"
  have fits: "line_fits streamBufferSize (''id: '' @ ''2-0'')" "line_fits streamBufferSize (''data: '' @ FormatInt 4)"
    by (simp_all add: line_fits_def streamBufferSize_def drop_cr_def format_42)
  have absent: "entities example_replica (FormatInt 4) = None" by (simp add: example_replica format_42)
  have "deleteScript mem_redis changelogKey (FormatInt 4) example_replica = (LuaInt 0, example_replica)"
    using delete_absent[OF mem_redis_ok, of example_replica "FormatInt 4"] absent by simp
  then have "fst (run_pipe mem_redis good_fate (change_pipe 4 [] ''2-0'') ?ws) = None"
    using change_pipe_cmds[of 4 "[]" "''2-0''"]
    by (simp add: run_pipe_def NewPipe_def loadScripts_def Exec_def good_fate_def broken_attempts_def
        change_cmd_def script_result_def int64_def split: prod.splits lua_reply.splits)
  then obtain w1 s1 where r: "run_pipe mem_redis good_fate (change_pipe 4 [] ''2-0'') ?ws = (None, w1, s1)"
    by (metis fst_conv prod.exhaust)
  have "ParseStreamChangeData (FormatInt 4) = Inr (4, [])"
    using parse_change_data[of 4 "[]"] by (simp add: FormatStreamChangeData_def int64_def)
  then have run: "connectStream mem_redis (\<lambda>_. []) (\<lambda>_ b. Some (b, True))
      (Some (plain_reply (unlines (preamble_lines @ [''id: '' @ ''2-0'', ''event: change'']) @ ''data: '' @ FormatInt 4)))
      Answered [good_fate] ?ws = (Some ScanFailed, w1, s1)"
    using scan_cut[OF fits] r open_plain
    by (simp add: connectStream_def preamble_lines_def HasPrefix_def TrimPrefix_def)
  moreover have "last_id s1 = Some ''2-0''"
    using connectStream_applies_cut_line[OF mem_redis_ok _ _ _ fits _ open_plain run] example_replica(1)
    by (simp add: int64_def)
  ultimately show "\<exists>w s. connectStream mem_redis (\<lambda>_. []) (\<lambda>_ b. Some (b, True))
      (Some (plain_reply (unlines (preamble_lines @ [''id: '' @ ''2-0'', ''event: change'']) @ ''data: '' @ FormatInt 4)))
      Answered [good_fate] ?ws = (Some ScanFailed, w, s) \<and> last_id s = Some ''2-0''"
    by blast
qed

end
