(* ===== verification/Wikidata.thy ===== *)
theory Wikidata
  imports Changes "HOL-Library.Product_Lexorder" "HOL-Library.Multiset"
begin

text \<open>
  \<open>internal/watcher/wikidata.go\<close>: the request for a batch of entities with its backoff, the
  reading of the reply, and the extraction of external IDs from the claims of an entity. The
  JSON library is a parameter \<open>W\<close>: what it decodes a text to. Times are nanoseconds in an
  \<open>int64\<close>, as \<open>time.Duration\<close> has them. A Go map that is only iterated is a list in an arbitrary
  order.
\<close>

section \<open>Claims of an entity\<close>

record claim =
  cl_DataType :: string
  cl_Value :: string
  cl_Rank :: string

type_synonym claims = "(string \<times> claim list) list"

record wiki_json =
  uj_error :: "string \<Rightarrow> string option option"
  uj_envelope :: "string \<Rightarrow> ((string \<times> string) list \<times> string option) option"
  uj_missing :: "string \<Rightarrow> bool"
  uj_entity :: "string \<Rightarrow> (string \<times> claims) option"
  uj_string :: "string \<Rightarrow> string option"

record WikidataEntity =
  we_ID :: string
  we_Mappings :: "string list"

definition rankOrder :: "string \<Rightarrow> int" where
  "rankOrder rank =
     (if rank = ''preferred'' then -1
      else if rank = ''normal'' \<or> rank = [] then 0
      else if rank = ''deprecated'' then 1
      else 0)"

definition extractStringValue :: "wiki_json \<Rightarrow> string \<Rightarrow> string" where
  "extractStringValue W raw =
     (if raw = [] then []
      else (case uj_string W raw of Some s \<Rightarrow> s | None \<Rightarrow> []))"

definition prop_key_ok :: "string \<Rightarrow> bool" where
  "prop_key_ok k \<longleftrightarrow> \<not> (length k < 2 \<or> k ! 0 \<noteq> CHR ''P'') \<and> snd (Atoi (drop 1 k)) = None"

text \<open>An entry is its property, rank and value; the order of the sort is the one of the tuples.\<close>

type_synonym entry = "string \<times> int \<times> string"

definition claim_entry :: "wiki_json \<Rightarrow> string \<Rightarrow> claim \<Rightarrow> entry list" where
  "claim_entry W pk c =
     (if cl_DataType c \<noteq> ''external-id'' then []
      else let val = extractStringValue W (cl_Value c) in
        if val \<noteq> [] then [(pk, rankOrder (cl_Rank c), val)] else [])"

definition claim_entries :: "wiki_json \<Rightarrow> claims \<Rightarrow> entry list" where
  "claim_entries W cs =
     concat (map (\<lambda>(pk, propClaims).
       if prop_key_ok pk then concat (map (claim_entry W pk) propClaims) else []) cs)"

fun look_back :: "(string \<times> string) option \<Rightarrow> entry list \<Rightarrow> string list" where
  "look_back prev [] = []"
| "look_back prev ((k, r, x) # es) =
     (if prev = Some (k, x) then look_back (Some (k, x)) es
      else (k @ '':'' @ x) # look_back (Some (k, x)) es)"

definition extractExternalIDs :: "wiki_json \<Rightarrow> claims \<Rightarrow> string list" where
  "extractExternalIDs W cs = look_back None (sort (claim_entries W cs))"

definition ParseEntityJSON :: "wiki_json \<Rightarrow> string \<Rightarrow> unit + WikidataEntity option" where
  "ParseEntityJSON W data =
     (case uj_entity W data of
        None \<Rightarrow> Inl ()
      | Some (ident, cs) \<Rightarrow>
          if \<not> HasPrefix ident ''Q'' then Inr None
          else Inr (Some \<lparr>we_ID = ident, we_Mappings = extractExternalIDs W cs\<rparr>))"

section \<open>Fetching a batch\<close>

definition second :: int where "second = 1000000000"
definition minute :: int where "minute = 60 * second"

definition maxlagBackoffInit :: int where "maxlagBackoffInit = 10 * second"
definition maxlagBackoffMax :: int where "maxlagBackoffMax = 5 * minute"

record WikidataClient =
  baseURL :: string
  maxlagBackoff :: int
  maxlagWaitTotal :: int

text \<open>
  \<open>5.0 + total.Minutes()\<close>, at most \<open>30.0\<close>, truncated: below 30 a double has more than enough bits
  for nanoseconds, so the truncation is the integer quotient (toward zero).
\<close>

definition quot :: "int \<Rightarrow> int \<Rightarrow> int" where
  "quot a b = (if a < 0 then - ((- a) div b) else a div b)"

definition maxlagParam :: "WikidataClient \<Rightarrow> string" where
  "maxlagParam c = FormatInt (quot (min (5 * minute + maxlagWaitTotal c) (30 * minute)) minute)"

datatype fetch_error =
    BatchTooBig nat
  | RequestFailed
  | RateLimited int bool
  | BadStatus int
  | ReadFailed
  | BadEnvelope
  | ApiError string
  | NoEntities

datatype EntityResult = Data string | Missing

record api_reply =
  ar_Status :: int
  ar_RetryAfter :: string
  ar_Body :: "string option"

definition retry_after :: "int \<Rightarrow> string \<Rightarrow> int" where
  "retry_after dflt ra =
     (if ra = [] then dflt
      else (case Atoi ra of
              (secs, None) \<Rightarrow> if secs > 0 then wrap64 (secs * second) else dflt
            | (_, Some _) \<Rightarrow> dflt))"

definition entities_url :: "WikidataClient \<Rightarrow> string list \<Rightarrow> string" where
  "entities_url c qids = baseURL c @
     ''/w/api.php?action=wbgetentities&format=json&redirects=no&maxlag='' @ maxlagParam c @
     ''&props=claims&ids='' @ Join qids ''%7C''"

definition body_limit :: nat where "body_limit = 50 * 2 ^ 20"

definition maxlag_backoff :: "int \<Rightarrow> int" where
  "maxlag_backoff b = min (if b = 0 then maxlagBackoffInit else wrap64 (b * 2)) maxlagBackoffMax"

definition read_entities :: "wiki_json \<Rightarrow> string \<Rightarrow> fetch_error + (string \<Rightarrow> EntityResult option)" where
  "read_entities W body =
     (case uj_envelope W body of
        None \<Rightarrow> Inl BadEnvelope
      | Some (_, Some code) \<Rightarrow> Inl (ApiError code)
      | Some (ents, None) \<Rightarrow>
          if ents = [] then Inl NoEntities
          else Inr (map_of (map (\<lambda>(qid, raw). (qid, if uj_missing W raw then Missing else Data raw)) ents)))"

text \<open>\<open>upstream\<close> answers the request for a URL, or does not.\<close>

definition FetchEntitiesRaw ::
  "wiki_json \<Rightarrow> (string \<Rightarrow> api_reply option) \<Rightarrow> string list \<Rightarrow> WikidataClient \<Rightarrow>
   (fetch_error + (string \<Rightarrow> EntityResult option)) \<times> WikidataClient" where
  "FetchEntitiesRaw W upstream qids c =
     (if qids = [] then (Inr Map.empty, c)
      else if length qids > 50 then (Inl (BatchTooBig (length qids)), c)
      else (case upstream (entities_url c qids) of
        None \<Rightarrow> (Inl RequestFailed, c)
      | Some resp \<Rightarrow>
          if ar_Status resp = 429
          then (Inl (RateLimited (retry_after (30 * second) (ar_RetryAfter resp)) False), c)
          else if ar_Status resp \<noteq> 200 then (Inl (BadStatus (ar_Status resp)), c)
          else (case ar_Body resp of
            None \<Rightarrow> (Inl ReadFailed, c)
          | Some full \<Rightarrow>
              let body = take body_limit full in
              if uj_error W body = Some (Some ''maxlag'') then
                let backoff = maxlag_backoff (maxlagBackoff c);
                    after = max (retry_after (5 * second) (ar_RetryAfter resp)) backoff
                in (Inl (RateLimited after True),
                    c\<lparr>maxlagBackoff := backoff, maxlagWaitTotal := wrap64 (maxlagWaitTotal c + after)\<rparr>)
              else (read_entities W body, c\<lparr>maxlagBackoff := 0, maxlagWaitTotal := 0\<rparr>))))"

section \<open>External IDs\<close>

lemma look_back_remdups:
  "look_back prev es =
     (let ps = map (\<lambda>(k, r, x). (k, x)) es; qs = remdups_adj (case prev of None \<Rightarrow> ps | Some p \<Rightarrow> p # ps) in
      map (\<lambda>(k, x). k @ '':'' @ x) (case prev of None \<Rightarrow> qs | Some p \<Rightarrow> tl qs))"
proof (induction es arbitrary: prev)
  case Nil
  then show ?case by (simp split: option.splits)
next
  case (Cons e es)
  obtain k r x where e: "e = (k, r, x)" by (cases e) auto
  let ?ps = "map (\<lambda>(k, r, x). (k, x)) es"
  obtain q qs where q: "remdups_adj ((k, x) # ?ps) = q # qs"
    by (metis list.exhaust list.simps(3) remdups_adj_Nil_iff)
  then have "q = (k, x)" by (metis hd_remdups_adj list.sel(1))
  with Cons[of "Some (k, x)"] e q show ?case by (cases prev) auto
qed

lemma extract_remdups:
  "extractExternalIDs W cs = map (\<lambda>(k, x). k @ '':'' @ x)
     (remdups_adj (map (\<lambda>(k, r, x). (k, x)) (sort (claim_entries W cs))))"
  by (simp add: extractExternalIDs_def look_back_remdups)

lemma set_extract:
  "set (extractExternalIDs W cs) = (\<lambda>(k, r, x). k @ '':'' @ x) ` set (claim_entries W cs)"
  by (auto simp: extract_remdups image_image case_prod_unfold)

definition external :: "wiki_json \<Rightarrow> claim \<Rightarrow> string \<Rightarrow> bool" where
  "external W c x \<longleftrightarrow> cl_DataType c = ''external-id'' \<and> extractStringValue W (cl_Value c) = x \<and> x \<noteq> []"

lemma set_claim_entry: "(k', r, x) \<in> set (claim_entry W k c) \<longleftrightarrow> k' = k \<and> external W c x \<and> r = rankOrder (cl_Rank c)"
  by (auto simp: claim_entry_def Let_def external_def)

lemma set_claim_entries:
  "(k, r, x) \<in> set (claim_entries W cs) \<longleftrightarrow>
     prop_key_ok k \<and> (\<exists>props. (k, props) \<in> set cs \<and> (\<exists>c \<in> set props. external W c x \<and> r = rankOrder (cl_Rank c)))"
  by (auto simp: claim_entries_def set_claim_entry split: if_splits)

lemma claim_entriesD: "(k, r, x) \<in> set (claim_entries W cs) \<Longrightarrow> prop_key_ok k \<and> x \<noteq> []"
  by (auto simp: set_claim_entries external_def)

lemma mset_concat_map: "mset (concat (map f xs)) = sum_mset (image_mset (\<lambda>x. mset (f x)) (mset xs))"
  by (induction xs) simp_all

lemma prop_key_split:
  assumes "prop_key_ok k"
  obtains d where "k = CHR ''P'' # d" "d \<noteq> []" "snd (Atoi d) = None"
  using assms by (cases k) (auto simp: prop_key_ok_def)

lemma extract_valid: "check_mappings qid (extractExternalIDs W cs) = None"
  unfolding check_mappings_None
proof
  fix e
  assume "e \<in> set (extractExternalIDs W cs)"
  then obtain k r x where e: "(k, r, x) \<in> set (claim_entries W cs)" "e = k @ '':'' @ x"
    by (auto simp: set_extract)
  from claim_entriesD[OF e(1)] have k: "prop_key_ok k" "x \<noteq> []" by blast+
  then obtain d where d: "k = CHR ''P'' # d" "snd (Atoi d) = None" by (metis prop_key_split)
  then have "parsed (Atoi d) \<noteq> None" by (simp add: parsed_def)
  from parseFlatMappingEntry_build[OF this k(2)] show "\<exists>r. parseFlatMappingEntry e = Inr r"
    by (simp add: e d)
qed

text \<open>
  Claim C35: the external IDs of an entity are exactly its external-id values of well-formed properties, in
  an order that does not depend on the order in which Go visits the claims, and every one of
  them passes the validation of the writer.
\<close>

theorem extractExternalIDs_exact:
  assumes perm: "mset cs' = mset cs"
  shows "set (extractExternalIDs W cs) = {k @ '':'' @ x | k x. prop_key_ok k \<and>
      (\<exists>props. (k, props) \<in> set cs \<and> (\<exists>c \<in> set props. external W c x))} \<and>
    extractExternalIDs W cs' = extractExternalIDs W cs \<and>
    check_mappings qid (extractExternalIDs W cs) = None"
proof -
  have "mset (claim_entries W cs') = mset (claim_entries W cs)"
    by (simp add: claim_entries_def mset_concat_map perm)
  then have "sort (claim_entries W cs') = sort (claim_entries W cs)" by (metis sorted_list_of_multiset_mset)
  then have eq: "extractExternalIDs W cs' = extractExternalIDs W cs" by (simp add: extractExternalIDs_def)
  have "set (extractExternalIDs W cs) = {k @ '':'' @ x | k x. \<exists>r. (k, r, x) \<in> set (claim_entries W cs)}"
    by (force simp: set_extract)
  then have "set (extractExternalIDs W cs) = {k @ '':'' @ x | k x. prop_key_ok k \<and>
      (\<exists>props. (k, props) \<in> set cs \<and> (\<exists>c \<in> set props. external W c x))}"
    unfolding set_claim_entries by blast
  with eq extract_valid show ?thesis by blast
qed

lemma prop_key_no_colon: "prop_key_ok k \<Longrightarrow> CHR '':'' \<notin> set k"
proof -
  assume "prop_key_ok k"
  then obtain d where d: "k = CHR ''P'' # d" "snd (Atoi d) = None" by (metis prop_key_split)
  then obtain n where "Atoi d = (n, None)" by (cases "Atoi d") simp
  from ParseInt_ok_chars[OF this] d(1) show ?thesis by simp
qed

definition entry_id :: "entry \<Rightarrow> string \<times> string" where
  "entry_id = (\<lambda>(k, r, x). (k, x))"

lemma remdups_adj_map_inj: "inj_on f (set xs) \<Longrightarrow> remdups_adj (map f xs) = map f (remdups_adj xs)"
proof (induction xs rule: remdups_adj.induct)
  case (3 x y xs)
  then have "f x = f y \<longleftrightarrow> x = y" by (auto dest: inj_onD)
  moreover have "inj_on f (set (y # xs))" using "3.prems" by (rule inj_on_subset) auto
  ultimately show ?case using "3.IH" "3.prems" by (cases "x = y") simp_all
qed simp_all

lemma sorted_remdups_adj_distinct: "sorted xs \<Longrightarrow> distinct (remdups_adj xs)"
  for xs :: "'a::linorder list"
proof (induction xs rule: remdups_adj.induct)
  case (3 x y xs)
  show ?case
  proof (cases "x = y")
    case True
    with 3 show ?thesis by simp
  next
    case False
    with "3.prems" have "\<forall>z \<in> set (y # xs). x < z" by auto
    then have "x \<notin> set (y # xs)" by auto
    with False 3 show ?thesis by (simp del: remdups_adj.simps(3) add: remdups_adj.simps(3))
  qed
qed simp_all

text \<open>
  An ID is listed once when its claims have the same rank.
\<close>

theorem extractExternalIDs_distinct:
  assumes ranks: "\<forall>e \<in> set (claim_entries W cs). \<forall>e' \<in> set (claim_entries W cs).
      fst e = fst e' \<and> snd (snd e) = snd (snd e') \<longrightarrow> fst (snd e) = fst (snd e')"
  shows "distinct (extractExternalIDs W cs)"
proof -
  define es where "es = sort (claim_entries W cs)"
  have inj: "inj_on entry_id (set es)"
    by (rule inj_onI) (use ranks in \<open>auto simp: es_def entry_id_def split: prod.splits\<close>)
  have "distinct (remdups_adj es)" by (rule sorted_remdups_adj_distinct) (simp add: es_def)
  then have d: "distinct (remdups_adj (map entry_id es))"
    using inj by (simp add: remdups_adj_map_inj distinct_map)
  have "inj_on (\<lambda>(k, x). k @ '':'' @ x) (entry_id ` set es)"
  proof (rule inj_onI, elim imageE)
    fix a b e e'
    assume e: "e \<in> set es" "a = entry_id e" "e' \<in> set es" "b = entry_id e'"
      and eq: "(case a of (k, x) \<Rightarrow> k @ '':'' @ x) = (case b of (k, x) \<Rightarrow> k @ '':'' @ x)"
    obtain k r x where ke: "e = (k, r, x)" by (cases e) auto
    obtain l q y where le: "e' = (l, q, y)" by (cases e') auto
    have "CHR '':'' \<notin> set k" "CHR '':'' \<notin> set l"
      using e ke le by (auto simp: es_def dest!: claim_entriesD prop_key_no_colon)
    then have "break_at CHR '':'' (k @ '':'' @ x) = Some (k, x)" "break_at CHR '':'' (l @ '':'' @ y) = Some (l, y)"
      by (simp_all add: break_at_append)
    with eq e ke le show "a = b" by (simp add: entry_id_def)
  qed
  with d show ?thesis by (simp add: extract_remdups distinct_map flip: es_def entry_id_def)
qed

definition plain_json :: wiki_json where
  "plain_json = \<lparr>uj_error = (\<lambda>_. Some None), uj_envelope = (\<lambda>b. Some ([(''Q42'', b)], None)),
     uj_missing = (\<lambda>raw. raw = ''missing''), uj_entity = (\<lambda>raw. Some (''Q42'', [(''P1'', [
       \<lparr>cl_DataType = ''external-id'', cl_Value = raw, cl_Rank = ''normal''\<rparr>])])),
     uj_string = (\<lambda>raw. if ascii raw then Some raw else None)\<rparr>"

definition ranked_claims :: claims where
  "ranked_claims = [(''P1'', [
     \<lparr>cl_DataType = ''external-id'', cl_Value = ''a'', cl_Rank = ''deprecated''\<rparr>,
     \<lparr>cl_DataType = ''external-id'', cl_Value = ''b'', cl_Rank = ''normal''\<rparr>,
     \<lparr>cl_DataType = ''external-id'', cl_Value = ''a'', cl_Rank = ''preferred''\<rparr>])]"

text \<open>A value with another one between its occurrences is there twice after the look-back.\<close>

lemma count_map_ge: "count_list xs x \<le> count_list (map f xs) (f x)"
  by (induction xs) auto

lemma remdups_adj_between:
  assumes "p \<in> set xs" "p \<in> set ys" "p \<noteq> q"
  shows "2 \<le> count_list (remdups_adj (xs @ q # ys)) p"
proof -
  obtain zs where zs: "remdups_adj (q # ys) = q # zs"
    by (metis hd_remdups_adj list.sel(1) list.exhaust_sel remdups_adj_Nil_iff list.distinct(1))
  have "p \<in> set (remdups_adj (q # ys))" using assms(2) by simp
  with assms(3) zs have "p \<in> set zs" by simp
  moreover have "p \<in> set (remdups_adj (xs @ [q]))" using assms(1) by simp
  ultimately have "0 < count_list (remdups_adj (xs @ [q])) p" "0 < count_list zs p"
    by (simp_all add: count_list_0_iff flip: neq0_conv)
  then show ?thesis using remdups_adj_append[of xs q ys] zs by simp
qed

lemma sorted_between:
  fixes a :: "'a::linorder"
  assumes "sorted es" "a \<in> set es" "b \<in> set es" "c \<in> set es" "a < b" "b < c"
  obtains xs ys where "es = xs @ b # ys" "a \<in> set xs" "c \<in> set ys"
proof -
  obtain xs ys where es: "es = xs @ b # ys" using assms(3) split_list by metis
  with assms(1) have "\<forall>x \<in> set xs. x \<le> b" "\<forall>y \<in> set ys. b \<le> y" by (auto simp: sorted_append)
  with assms(2,4-6) es have "a \<in> set xs" "c \<in> set ys" by auto
  with es that show thesis by blast
qed

text \<open>
  Claim C36: a value that claims of two ranks have is listed twice if the sort puts another value of
  the property between them: the rank comes before the value, so the two are not adjacent and the
  look-back does not see the first one.
\<close>

theorem extractExternalIDs_duplicates:
  assumes k: "prop_key_ok k" "(k, props) \<in> set cs" and c: "c1 \<in> set props" "c2 \<in> set props" "c3 \<in> set props"
    and x: "external W c1 x" "external W c2 y" "external W c3 x" and xy: "x \<noteq> y"
    and between: "(rankOrder (cl_Rank c1), x) < (rankOrder (cl_Rank c2), y)"
      "(rankOrder (cl_Rank c2), y) < (rankOrder (cl_Rank c3), x)"
  shows "2 \<le> count_list (extractExternalIDs W cs) (k @ '':'' @ x)"
proof -
  let ?es = "sort (claim_entries W cs)" and ?id = "\<lambda>(k, r, x). (k, x) :: string \<times> string"
  let ?a = "(k, rankOrder (cl_Rank c1), x)" and ?b = "(k, rankOrder (cl_Rank c2), y)" and ?c = "(k, rankOrder (cl_Rank c3), x)"
  have mem: "?a \<in> set ?es" "?b \<in> set ?es" "?c \<in> set ?es" using k c x by (auto simp: set_claim_entries)
  have "?a < ?b" "?b < ?c" using between by (simp_all add: less_prod_def)
  then obtain xs ys where es: "?es = xs @ ?b # ys" "?a \<in> set xs" "?c \<in> set ys"
    using sorted_between[OF sorted_sort mem] by blast
  have "?id ?a \<in> ?id ` set xs" "?id ?c \<in> ?id ` set ys" using es(2,3) by (blast intro: imageI)+
  then have "(k, x) \<in> set (map ?id xs)" "(k, x) \<in> set (map ?id ys)" by simp_all
  from remdups_adj_between[OF this, of "(k, y)"] xy
  have "2 \<le> count_list (remdups_adj (map ?id ?es)) (k, x)" unfolding es(1) by simp
  also have "\<dots> \<le> count_list (extractExternalIDs W cs) ((\<lambda>(k, x). k @ '':'' @ x) (k, x))"
    unfolding extract_remdups by (rule count_map_ge)
  finally show ?thesis by simp
qed

section \<open>The backoff\<close>

fun fetches :: "wiki_json \<Rightarrow> (string list \<times> api_reply) list \<Rightarrow> WikidataClient \<Rightarrow>
  (fetch_error + (string \<Rightarrow> EntityResult option)) list \<times> WikidataClient" where
  "fetches W [] c = ([], c)"
| "fetches W ((qids, resp) # calls) c =
     (case FetchEntitiesRaw W (\<lambda>_. Some resp) qids c of
        (r, c1) \<Rightarrow> (case fetches W calls c1 of (rs, c2) \<Rightarrow> (r # rs, c2)))"

definition maxlag_call :: "wiki_json \<Rightarrow> string list \<times> api_reply \<Rightarrow> bool" where
  "maxlag_call W = (\<lambda>(qids, resp). qids \<noteq> [] \<and> length qids \<le> 50 \<and> ar_Status resp = 200 \<and>
     (case ar_Body resp of None \<Rightarrow> False | Some b \<Rightarrow> uj_error W (take body_limit b) = Some (Some ''maxlag'')))"

text \<open>What the reply itself asks for.\<close>

definition asked :: "api_reply \<Rightarrow> int" where
  "asked resp = retry_after (5 * second) (ar_RetryAfter resp)"

lemma maxlag_step:
  assumes "maxlag_call W (qids, resp)"
  shows "FetchEntitiesRaw W (\<lambda>_. Some resp) qids c =
    (let after = max (asked resp) (maxlag_backoff (maxlagBackoff c)) in
     (Inl (RateLimited after True), c\<lparr>maxlagBackoff := maxlag_backoff (maxlagBackoff c),
        maxlagWaitTotal := wrap64 (maxlagWaitTotal c + after)\<rparr>))"
  using assms by (auto simp: maxlag_call_def FetchEntitiesRaw_def asked_def Let_def split: option.splits)

definition backoff_level :: "nat \<Rightarrow> int" where
  "backoff_level k = min (10 * second * 2 ^ k) (5 * minute)"

lemmas time_units = second_def minute_def maxlagBackoffInit_def maxlagBackoffMax_def

lemma backoff_level:
  "maxlag_backoff 0 = backoff_level 0" "maxlag_backoff (backoff_level k) = backoff_level (Suc k)"
proof -
  show "maxlag_backoff 0 = backoff_level 0"
    by (simp add: maxlag_backoff_def backoff_level_def time_units)
  have pos: "0 < (2 :: int) ^ k" by simp
  have b: "0 < backoff_level k" "backoff_level k \<le> 300000000000"
    using pos by (auto simp: backoff_level_def time_units)
  then have "wrap64 (backoff_level k * 2) = backoff_level k * 2" by (intro wrap64_id) (simp add: int64_def)
  with b(1) have "maxlag_backoff (backoff_level k) = min (backoff_level k * 2) (5 * minute)"
    by (simp add: maxlag_backoff_def time_units)
  then show "maxlag_backoff (backoff_level k) = backoff_level (Suc k)"
    by (simp add: backoff_level_def time_units min_def)
qed

lemma backoff_from:
  assumes "\<forall>call \<in> set calls. maxlag_call W call" "maxlag_backoff (maxlagBackoff c) = backoff_level k"
  shows "fst (fetches W calls c) =
      map (\<lambda>i. Inl (RateLimited (max (asked (snd (calls ! i))) (backoff_level (k + i))) True)) [0..<length calls] \<and>
    (calls \<noteq> [] \<longrightarrow> maxlagBackoff (snd (fetches W calls c)) = backoff_level (k + length calls - 1))"
  using assms
proof (induction calls arbitrary: c k)
  case Nil
  then show ?case by simp
next
  case (Cons call calls)
  obtain qids resp where call: "call = (qids, resp)" by fastforce
  with Cons.prems(1) have "maxlag_call W (qids, resp)" by simp
  note step = maxlag_step[OF this, of c, unfolded Let_def Cons.prems(2)]
  define c1 where "c1 = c\<lparr>maxlagBackoff := backoff_level k,
    maxlagWaitTotal := wrap64 (maxlagWaitTotal c + max (asked resp) (backoff_level k))\<rparr>"
  have c1: "maxlag_backoff (maxlagBackoff c1) = backoff_level (Suc k)" by (simp add: c1_def backoff_level)
  have ih: "fst (fetches W calls c1) =
      map (\<lambda>i. Inl (RateLimited (max (asked (snd (calls ! i))) (backoff_level (Suc k + i))) True)) [0..<length calls]"
    "calls \<noteq> [] \<Longrightarrow> maxlagBackoff (snd (fetches W calls c1)) = backoff_level (Suc k + length calls - 1)"
    using Cons.IH[OF _ c1] Cons.prems(1) by auto
  have run: "fetches W (call # calls) c =
      (Inl (RateLimited (max (asked resp) (backoff_level k)) True) # fst (fetches W calls c1), snd (fetches W calls c1))"
    by (simp add: call step c1_def split: prod.splits)
  have "maxlagBackoff (snd (fetches W calls c1)) = backoff_level (k + length calls)"
    using ih(2) by (cases "calls = []") (simp_all add: c1_def)
  then show ?case unfolding run list.size(4) add_Suc_right add_0_right map_upt_Suc by (simp add: ih(1) call)
qed

text \<open>
  Claim C34: the delay that the \<open>i\<close>-th maxlag reply in a row leads to is ten seconds doubled \<open>i\<close> times, at most
  five minutes, or what the reply asks for (five seconds if it does not say) if that is longer; after
  \<open>n\<close> of them the client's backoff is the one of the last; and the first good reply takes the client
  back to no backoff and the first value of the parameter.
\<close>

theorem FetchEntitiesRaw_backoff:
  assumes "maxlagBackoff c = 0" "\<forall>call \<in> set calls. maxlag_call W call"
  shows "fst (fetches W calls c) = map (\<lambda>i. Inl (RateLimited
      (max (retry_after (5 * second) (ar_RetryAfter (snd (calls ! i)))) (min (10 * second * 2 ^ i) (5 * minute))) True)) [0..<length calls] \<and>
    (calls \<noteq> [] \<longrightarrow> maxlagBackoff (snd (fetches W calls c)) = min (10 * second * 2 ^ (length calls - 1)) (5 * minute)) \<and>
    (fst (FetchEntitiesRaw W up qids c') = Inr m \<and> qids \<noteq> [] \<longrightarrow>
       maxlagBackoff (snd (FetchEntitiesRaw W up qids c')) = 0 \<and>
       maxlagParam (snd (FetchEntitiesRaw W up qids c')) = FormatInt 5)"
proof -
  have "maxlag_backoff (maxlagBackoff c) = backoff_level 0" using assms(1) backoff_level(1) by simp
  note b = backoff_from[OF assms(2) this, unfolded asked_def backoff_level_def add_0]
  have "maxlagParam (c'\<lparr>maxlagBackoff := 0, maxlagWaitTotal := 0\<rparr>) = FormatInt 5"
    by (simp add: maxlagParam_def quot_def time_units)
  then have "fst (FetchEntitiesRaw W up qids c') = Inr m \<and> qids \<noteq> [] \<longrightarrow>
      maxlagBackoff (snd (FetchEntitiesRaw W up qids c')) = 0 \<and> maxlagParam (snd (FetchEntitiesRaw W up qids c')) = FormatInt 5"
    by (auto simp: FetchEntitiesRaw_def Let_def split: option.splits if_splits)
  with b show ?thesis by blast
qed

section \<open>Only what Wikidata reports missing is deleted\<close>

text \<open>
  Claim C31: an entity is reported as missing only if Wikidata said so in a complete reply without an error:
  a reply with an error key, a maxlag reply or one without entities never turns an entity into
  a deleted one.
\<close>

theorem FetchEntitiesRaw_missing:
  assumes "FetchEntitiesRaw W up qids c = (Inr m, c')" "m q = Some Missing"
  shows "\<exists>resp body ents raw. up (entities_url c qids) = Some resp \<and> ar_Status resp = 200 \<and>
    ar_Body resp = Some body \<and> uj_error W (take body_limit body) \<noteq> Some (Some ''maxlag'') \<and>
    uj_envelope W (take body_limit body) = Some (ents, None) \<and> map_of ents q = Some raw \<and> uj_missing W raw"
proof -
  from assms have "qids \<noteq> []" by (auto simp: FetchEntitiesRaw_def)
  with assms(1) obtain resp body where r: "up (entities_url c qids) = Some resp" "ar_Status resp = 200"
    "ar_Body resp = Some body" "uj_error W (take body_limit body) \<noteq> Some (Some ''maxlag'')"
    "read_entities W (take body_limit body) = Inr m"
    by (auto simp: FetchEntitiesRaw_def Let_def split: option.splits if_splits)
  then obtain ents where e: "uj_envelope W (take body_limit body) = Some (ents, None)"
    "m = map_of (map (\<lambda>(qid, raw). (qid, if uj_missing W raw then Missing else Data raw)) ents)"
    by (auto simp: read_entities_def split: option.splits if_splits prod.splits)
  then have "m = (\<lambda>q. map_option (\<lambda>raw. if uj_missing W raw then Missing else Data raw) (map_of ents q))"
    by (simp add: map_of_map comp_def)
  with assms(2) obtain raw where "map_of ents q = Some raw" "uj_missing W raw" by (auto split: if_splits)
  with r e show ?thesis by blast
qed

section \<open>Witnesses\<close>

theorem extractExternalIDs_exact_witness:
  "extractExternalIDs plain_json [(''P1'', []), (''P2'', [])] = extractExternalIDs plain_json [(''P2'', []), (''P1'', [])]"
proof -
  have "mset [(''P1'', []), (''P2'', [])] = mset [(''P2'', []), (''P1'', [] :: claim list)]" by simp
  from extractExternalIDs_exact[OF this, of plain_json "[]"] show ?thesis by blast
qed

theorem extractExternalIDs_distinct_witness: "distinct (extractExternalIDs plain_json (map (map_prod id (take 1)) ranked_claims))"
  by (rule extractExternalIDs_distinct)
    (simp add: claim_entries_def ranked_claims_def claim_entry_def plain_json_def extractStringValue_def Let_def)

definition lag_reply :: api_reply where
  "lag_reply = \<lparr>ar_Status = 200, ar_RetryAfter = [], ar_Body = Some []\<rparr>"

definition fresh_client :: WikidataClient where
  "fresh_client = \<lparr>baseURL = ''https://www.wikidata.org'', maxlagBackoff = 0, maxlagWaitTotal = 0\<rparr>"

theorem FetchEntitiesRaw_backoff_witness:
  "fst (fetches (plain_json\<lparr>uj_error := (\<lambda>_. Some (Some ''maxlag''))\<rparr>) (replicate 7 ([''Q42''], lag_reply)) fresh_client) =
     map (\<lambda>t. Inl (RateLimited (t * second) True)) [10, 20, 40, 80, 160, 300, 300]"
proof -
  let ?W = "plain_json\<lparr>uj_error := (\<lambda>_. Some (Some ''maxlag''))\<rparr>" and ?calls = "replicate 7 ([''Q42''], lag_reply)"
  have "\<forall>call \<in> set ?calls. maxlag_call ?W call"
    by (simp add: maxlag_call_def lag_reply_def)
  moreover have "maxlagBackoff fresh_client = 0" by (simp add: fresh_client_def)
  ultimately have "fst (fetches ?W ?calls fresh_client) = map (\<lambda>i. Inl (RateLimited
      (max (retry_after (5 * second) (ar_RetryAfter (snd (?calls ! i)))) (min (10 * second * 2 ^ i) (5 * minute))) True)) [0..<length ?calls]"
    by (rule conjunct1[OF FetchEntitiesRaw_backoff, rotated])
  then show ?thesis
    by (simp add: upt_rec retry_after_def lag_reply_def time_units)
qed

theorem extractExternalIDs_duplicates_witness:
  "2 \<le> count_list (extractExternalIDs plain_json ranked_claims) ''P1:a''"
proof -
  let ?c1 = "\<lparr>cl_DataType = ''external-id'', cl_Value = ''a'', cl_Rank = ''preferred''\<rparr>"
  let ?c2 = "\<lparr>cl_DataType = ''external-id'', cl_Value = ''b'', cl_Rank = ''normal''\<rparr>"
  let ?c3 = "\<lparr>cl_DataType = ''external-id'', cl_Value = ''a'', cl_Rank = ''deprecated''\<rparr>"
  have k: "prop_key_ok ''P1''" by (simp add: prop_key_ok_def ParseInt_def ParseUint_def digit_val_def)
  have m: "(''P1'', [?c3, ?c2, ?c1]) \<in> set ranked_claims" by (simp add: ranked_claims_def)
  have e: "external plain_json ?c1 ''a''" "external plain_json ?c2 ''b''" "external plain_json ?c3 ''a''"
    by (simp_all add: external_def extractStringValue_def plain_json_def ascii_def)
  have "2 \<le> count_list (extractExternalIDs plain_json ranked_claims) (''P1'' @ '':'' @ ''a'')"
    by (rule extractExternalIDs_duplicates[OF k m _ _ _ e]) (simp_all add: rankOrder_def)
  then show ?thesis by simp
qed

theorem FetchEntitiesRaw_missing_witness:
  "\<exists>m raw. FetchEntitiesRaw plain_json (\<lambda>_. Some \<lparr>ar_Status = 200, ar_RetryAfter = [], ar_Body = Some ''missing''\<rparr>)
     [''Q42''] fresh_client = (Inr m, fresh_client) \<and> uj_missing plain_json raw"
proof -
  let ?up = "\<lambda>_. Some \<lparr>ar_Status = 200, ar_RetryAfter = [], ar_Body = Some ''missing''\<rparr>"
  have t: "take body_limit ''missing'' = ''missing''" by (simp add: body_limit_def)
  have run: "FetchEntitiesRaw plain_json ?up [''Q42''] fresh_client = (Inr [''Q42'' \<mapsto> Missing], fresh_client)"
    by (simp add: FetchEntitiesRaw_def t read_entities_def plain_json_def Let_def fresh_client_def)
  from FetchEntitiesRaw_missing[OF this, of "''Q42''"] run show ?thesis by auto
qed

end
