(* ===== verification/PipeRuns.thy ===== *)
theory PipeRuns
  imports Changes
begin

text \<open>
  What is known of the store after a pipe was used, whatever became of its connection: some
  prefixes of its commands ran, one after the other (\<open>run_pipe_refines\<close>), and all of them at the
  end if it succeeded (\<open>run_pipe_ok\<close>).
\<close>

section \<open>Pipes on the abstract store\<close>

text \<open>Whatever the fate of a pipe, its commands ran as some prefixes, one after the other.\<close>

lemma run_pipe_refines:
  assumes R: "redis_ok R v" and c: "index_ok R (v (snd ws))"
    and keeps: "\<And>p e. p_err p = Some e \<Longrightarrow> p_err (build p) = Some e"
    and ok: "pipe_ok R (build \<lparr>p_err = None, p_cmds = []\<rparr>)"
  obtains ps where "\<forall>p \<in> set ps. \<exists>n. p = take n (p_cmds (build \<lparr>p_err = None, p_cmds = []\<rparr>))"
    "abstract (v (snd (snd (run_pipe R f build ws)))) = prefixes_spec ps (abstract (v (snd ws)))"
    "index_ok R (v (snd (snd (run_pipe R f build ws))))"
proof -
  obtain le w where l: "loadScripts (f_loads f) (fst ws) = (le, w)" by fastforce
  then have new: "NewPipe (f_loads f) (fst ws) = (\<lparr>p_err = le, p_cmds = []\<rparr>, w)" by (simp add: NewPipe_def)
  show thesis
  proof (cases le)
    case (Some e)
    then have "p_err (build \<lparr>p_err = le, p_cmds = []\<rparr>) = Some e" using keeps by simp
    then have "snd (snd (run_pipe R f build ws)) = snd ws" using new by (simp add: run_pipe_def Exec_def)
    with that[of "[]"] c show thesis by (simp add: prefixes_spec_def)
  next
    case None
    let ?p = "build \<lparr>p_err = None, p_cmds = []\<rparr>"
    have s': "snd (snd (run_pipe R f build ws)) = snd (Exec R (f_attempts f) (f_lost f) ?p (snd ws))"
      using new None by (simp add: run_pipe_def split: prod.splits)
    have "\<forall>k \<in> set (p_cmds ?p). cmd_ok R k" using ok by (simp add: pipe_ok_def)
    note ref = Exec_refines[OF R c this, of "f_attempts f" "f_lost f", folded s']
    have "\<forall>p \<in> set (exec_prefixes (f_attempts f) (f_lost f) ?p). \<exists>n. p = take n (p_cmds ?p)"
      by (auto simp: exec_prefixes_def intro: exI[of _ "length (p_cmds ?p)"])
    from that[OF this ref] show thesis .
  qed
qed

text \<open>A property of the abstract store that every prefix keeps is kept by the pipe.\<close>

lemma prefixes_keep:
  assumes "\<forall>p \<in> set ps. \<exists>n. p = take n cs" "\<And>a n. I a \<Longrightarrow> I (fold cmd_spec (take n cs) a)" "I a"
  shows "I (prefixes_spec ps a)"
  using assms(1,3)
proof (induction ps arbitrary: a)
  case Nil
  then show ?case by (simp add: prefixes_spec_def)
next
  case (Cons p ps)
  then have "I (fold cmd_spec p a)" using assms(2) by auto
  with Cons show ?case by (simp add: prefixes_spec_def)
qed

lemma run_pipe_ok:
  assumes keeps: "\<And>p e. p_err p = Some e \<Longrightarrow> p_err (build p) = Some e"
    and run: "run_pipe R f build ws = (None, w', s')"
    and cmds: "p_cmds (build \<lparr>p_err = None, p_cmds = []\<rparr>) \<noteq> []" "p_err (build \<lparr>p_err = None, p_cmds = []\<rparr>) = None"
  shows "f_lost f = False \<and>
    s' = snd (Exec R (f_attempts f) False (build \<lparr>p_err = None, p_cmds = []\<rparr>) (snd ws))"
proof -
  obtain le w where l: "loadScripts (f_loads f) (fst ws) = (le, w)" by fastforce
  then have new: "NewPipe (f_loads f) (fst ws) = (\<lparr>p_err = le, p_cmds = []\<rparr>, w)" by (simp add: NewPipe_def)
  have le: "le = None"
  proof (rule ccontr)
    assume "le \<noteq> None"
    then obtain e where "le = Some e" by blast
    then have "p_err (build \<lparr>p_err = le, p_cmds = []\<rparr>) = Some e" using keeps by simp
    with run new show False by (simp add: run_pipe_def Exec_def)
  qed
  with run new have ex: "Exec R (f_attempts f) (f_lost f) (build \<lparr>p_err = None, p_cmds = []\<rparr>) (snd ws) = (None, s')"
    by (simp add: run_pipe_def split: prod.splits)
  with cmds have "f_lost f = False" by (cases "f_lost f") (simp_all add: Exec_def Let_def)
  with ex show ?thesis by simp
qed

end
