(* ===== verification/Processor.thy ===== *)
theory Processor
  imports Wikidata PipeRuns
begin

text \<open>
  \<open>internal/watcher/processor.go\<close>: a batch of entities is fetched, sorted into upserts, deletes
  and errors, and written in one pipe. The main result compares the store afterwards with what
  the reply of Wikidata says of each entity (\<open>desired\<close>).
\<close>

section \<open>The code\<close>

datatype entity_error = Absent string | ParseFailed string

datatype process_error = FetchBatch fetch_error | BatchWrite store_error

record sorted_batch =
  sb_errors :: "string \<Rightarrow> entity_error option"
  sb_upserts :: "EntityRecord list"
  sb_deletes :: "string list"

definition sort_entity :: "wiki_json \<Rightarrow> (string \<Rightarrow> EntityResult option) \<Rightarrow> string \<Rightarrow> sorted_batch \<Rightarrow> sorted_batch" where
  "sort_entity W results qid b =
     (case results qid of
        None \<Rightarrow> b\<lparr>sb_errors := (sb_errors b)(qid \<mapsto> Absent qid)\<rparr>
      | Some Missing \<Rightarrow> b\<lparr>sb_deletes := sb_deletes b @ [qid]\<rparr>
      | Some (Data raw) \<Rightarrow>
          (case ParseEntityJSON W raw of
             Inl _ \<Rightarrow> b\<lparr>sb_errors := (sb_errors b)(qid \<mapsto> ParseFailed qid)\<rparr>
           | Inr None \<Rightarrow> b
           | Inr (Some ent) \<Rightarrow>
               b\<lparr>sb_upserts := sb_upserts b @ [\<lparr>er_WikidataID = qid, er_Mappings = we_Mappings ent\<rparr>]\<rparr>))"

definition batch_pipe :: "sorted_batch \<Rightarrow> Pipe \<Rightarrow> Pipe" where
  "batch_pipe b p = fold DeleteEntity (sb_deletes b) (fold UpsertEntity (sb_upserts b) p)"

text \<open>The Wikidata client, the writer and the database are the state; \<open>f\<close> is the fate of the pipe.\<close>

definition ProcessEntities ::
  "'s redis \<Rightarrow> wiki_json \<Rightarrow> (string \<Rightarrow> api_reply option) \<Rightarrow> fate \<Rightarrow> string list \<Rightarrow> WikidataClient \<times> Writer \<times> 's \<Rightarrow>
   (process_error + (string \<Rightarrow> entity_error option)) \<times> WikidataClient \<times> Writer \<times> 's" where
  "ProcessEntities R W up f qids st =
     (case st of (c, ws) \<Rightarrow>
        if qids = [] then (Inr Map.empty, c, ws)
        else (case FetchEntitiesRaw W up qids c of
                (Inl e, c') \<Rightarrow> (Inl (FetchBatch e), c', ws)
              | (Inr results, c') \<Rightarrow>
                  let b = fold (sort_entity W results) qids \<lparr>sb_errors = Map.empty, sb_upserts = [], sb_deletes = []\<rparr> in
                  if sb_upserts b \<noteq> [] \<or> sb_deletes b \<noteq> [] then
                    (case run_pipe R f (batch_pipe b) ws of
                       (Some e, ws') \<Rightarrow> (Inl (BatchWrite e), c', ws')
                     | (None, ws') \<Rightarrow> (Inr (sb_errors b), c', ws'))
                  else (Inr (sb_errors b), c', ws)))"

definition ProcessEntity ::
  "'s redis \<Rightarrow> wiki_json \<Rightarrow> (string \<Rightarrow> api_reply option) \<Rightarrow> fate \<Rightarrow> string \<Rightarrow> WikidataClient \<times> Writer \<times> 's \<Rightarrow>
   (process_error + entity_error) option \<times> WikidataClient \<times> Writer \<times> 's" where
  "ProcessEntity R W up f qid st =
     (case ProcessEntities R W up f [qid] st of
        (Inl e, st') \<Rightarrow> (Some (Inl e), st')
      | (Inr errs, st') \<Rightarrow> (map_option Inr (errs qid), st'))"

section \<open>What the reply says of an entity\<close>

text \<open>The mappings an entity should have, given the ones it has; an entity in error keeps them.\<close>

definition desired :: "wiki_json \<Rightarrow> (string \<Rightarrow> EntityResult option) \<Rightarrow> string \<Rightarrow> string option \<Rightarrow> string option" where
  "desired W results qid old =
     (case results qid of
        None \<Rightarrow> old
      | Some Missing \<Rightarrow> None
      | Some (Data raw) \<Rightarrow>
          (case ParseEntityJSON W raw of
             Inr (Some ent) \<Rightarrow> Some (canonicalMappingsJSON (we_Mappings ent))
           | _ \<Rightarrow> old))"

definition in_error :: "wiki_json \<Rightarrow> (string \<Rightarrow> EntityResult option) \<Rightarrow> string \<Rightarrow> bool" where
  "in_error W results qid \<longleftrightarrow>
     (case results qid of
        None \<Rightarrow> True
      | Some Missing \<Rightarrow> False
      | Some (Data raw) \<Rightarrow> (case ParseEntityJSON W raw of Inl _ \<Rightarrow> True | Inr _ \<Rightarrow> False))"

text \<open>The commands for one entity; a batch is a list of these.\<close>

definition upsert_of :: "wiki_json \<Rightarrow> (string \<Rightarrow> EntityResult option) \<Rightarrow> string \<Rightarrow> EntityRecord list" where
  "upsert_of W results qid =
     (case results qid of
        Some (Data raw) \<Rightarrow>
          (case ParseEntityJSON W raw of
             Inr (Some ent) \<Rightarrow> [\<lparr>er_WikidataID = qid, er_Mappings = we_Mappings ent\<rparr>]
           | _ \<Rightarrow> [])
      | _ \<Rightarrow> [])"

lemma sorted_batch:
  "fold (sort_entity W results) qids b =
     \<lparr>sb_errors = (\<lambda>q. if q \<in> set qids \<and> in_error W results q
         then (case results q of None \<Rightarrow> Some (Absent q) | _ \<Rightarrow> Some (ParseFailed q)) else sb_errors b q),
      sb_upserts = sb_upserts b @ concat (map (upsert_of W results) qids),
      sb_deletes = sb_deletes b @ filter (\<lambda>q. results q = Some Missing) qids\<rparr>"
proof (induction qids arbitrary: b)
  case Nil
  then show ?case by simp
next
  case (Cons q qids)
  show ?case
    unfolding fold_simps comp_apply Cons.IH
    by (auto simp: sort_entity_def in_error_def upsert_of_def[of W results q] fun_eq_iff
        split: option.splits EntityResult.splits sum.splits)
qed

section \<open>Commands on entities\<close>

definition entity_cmd :: "cmd \<Rightarrow> (string \<times> string option) option" where
  "entity_cmd k = (case k of RunUpsert m eid \<Rightarrow> Some (eid, Some m) | RunDelete eid \<Rightarrow> Some (eid, None) | _ \<Rightarrow> None)"

text \<open>All commands of \<open>cs\<close> set an entity to the value that \<open>t\<close> has for it.\<close>

definition sets_to :: "(string \<Rightarrow> string option) \<Rightarrow> cmd list \<Rightarrow> bool" where
  "sets_to t cs \<longleftrightarrow> (\<forall>k \<in> set cs. \<exists>eid. entity_cmd k = Some (eid, t eid))"

definition touched :: "cmd list \<Rightarrow> string set" where
  "touched cs = {eid. \<exists>k \<in> set cs. \<exists>x. entity_cmd k = Some (eid, x)}"

lemma change_entity_entities: "a_entities (change_entity eid x a) = (a_entities a)(eid := x)"
  by (auto simp: change_entity_def)

lemma fold_entity_cmds:
  "sets_to t cs \<Longrightarrow> a_entities (fold cmd_spec cs a) = (\<lambda>eid. if eid \<in> touched cs then t eid else a_entities a eid)"
proof (induction cs arbitrary: a)
  case Nil
  then show ?case by (simp add: touched_def)
next
  case (Cons k cs)
  then obtain eid where k: "entity_cmd k = Some (eid, t eid)" by (auto simp: sets_to_def)
  then have "a_entities (cmd_spec k a) = (a_entities a)(eid := t eid)"
    by (auto simp: entity_cmd_def change_entity_entities split: cmd.splits)
  moreover have "sets_to t cs" using Cons.prems by (simp add: sets_to_def)
  moreover have "touched (k # cs) = insert eid (touched cs)" using k by (auto simp: touched_def)
  ultimately show ?case using Cons.IH by auto
qed

lemma sets_to_take: "sets_to t cs \<Longrightarrow> sets_to t (take n cs)" "touched (take n cs) \<subseteq> touched cs"
  by (auto simp: sets_to_def touched_def dest: in_set_takeD)

lemma prefixes_entities:
  assumes "sets_to t cs"
  shows "a_entities (prefixes_spec (map (\<lambda>n. take n cs) ns @ [cs]) a) =
    (\<lambda>eid. if eid \<in> touched cs then t eid else a_entities a eid)"
proof (induction ns arbitrary: a)
  case Nil
  then show ?case using fold_entity_cmds[OF assms] by (simp add: prefixes_spec_def)
next
  case (Cons n ns)
  then show ?case
    using fold_entity_cmds[OF sets_to_take(1)[OF assms], of n a] sets_to_take(2)[of n cs]
    by (auto simp: prefixes_spec_def fun_eq_iff)
qed

section \<open>The pipe of a batch\<close>

definition num_of :: "string \<Rightarrow> int" where
  "num_of qid = (case qidToInt qid of Inr n \<Rightarrow> n | Inl _ \<Rightarrow> 0)"

definition upsert_cmd :: "EntityRecord \<Rightarrow> cmd" where
  "upsert_cmd rec = RunUpsert (canonicalMappingsJSON (er_Mappings rec)) (FormatInt (num_of (er_WikidataID rec)))"

definition plain_qid :: "string \<Rightarrow> bool" where
  "plain_qid q \<longleftrightarrow> (\<exists>n. int64 n \<and> q = intToQid n)"

lemma plain_qid: "plain_qid q \<Longrightarrow> qidToInt q = Inr (num_of q) \<and> intToQid (num_of q) = q \<and> int64 (num_of q)"
  by (auto simp: plain_qid_def num_of_def)

lemma upserts_queued:
  "p_err p = None \<Longrightarrow> \<forall>r \<in> set recs. plain_qid (er_WikidataID r) \<and> check_mappings (er_WikidataID r) (er_Mappings r) = None \<Longrightarrow>
   fold UpsertEntity recs p = p\<lparr>p_cmds := p_cmds p @ map upsert_cmd recs\<rparr>"
proof (induction recs arbitrary: p)
  case Nil
  then show ?case by simp
next
  case (Cons r recs)
  then have "UpsertEntity r p = p\<lparr>p_cmds := p_cmds p @ [upsert_cmd r]\<rparr>"
    using plain_qid[of "er_WikidataID r"] by (simp add: UpsertEntity_def queue_def upsert_cmd_def)
  with Cons show ?case by simp
qed

lemma deletes_queued:
  "p_err p = None \<Longrightarrow> \<forall>q \<in> set qs. plain_qid q \<Longrightarrow>
   fold DeleteEntity qs p = p\<lparr>p_cmds := p_cmds p @ map (\<lambda>q. RunDelete (FormatInt (num_of q))) qs\<rparr>"
proof (induction qs arbitrary: p)
  case Nil
  then show ?case by simp
next
  case (Cons q qs)
  then have "DeleteEntity q p = p\<lparr>p_cmds := p_cmds p @ [RunDelete (FormatInt (num_of q))]\<rparr>"
    using plain_qid[of q] by (simp add: DeleteEntity_def queue_def)
  with Cons show ?case by simp
qed

lemma ops_keep_error: "p_err p = Some e \<Longrightarrow> fold UpsertEntity recs p = p" "p_err p = Some e \<Longrightarrow> fold DeleteEntity qs p = p"
  by (induction recs) (simp_all add: UpsertEntity_def, induction qs, simp_all add: DeleteEntity_def)

section \<open>Mappings are valid UTF-8\<close>

definition wiki_utf8 :: "wiki_json \<Rightarrow> bool" where
  "wiki_utf8 W \<longleftrightarrow> (\<forall>raw x. uj_string W raw = Some x \<longrightarrow> utf8_ok x)"

lemma utf8_ok_append: "ascii a \<Longrightarrow> utf8_ok (a @ s) = utf8_ok s"
proof (induction a)
  case Nil
  then show ?case by simp
next
  case (Cons c a)
  then have "rune_len (c # a @ s) = 1" by (simp add: ascii_def rune_len_def byte_at_def Let_def)
  with Cons show ?case by (simp add: utf8_ok.simps[of "c # a @ s"] ascii_def)
qed

lemma prop_key_ascii: "prop_key_ok k \<Longrightarrow> ascii (k @ '':'')"
proof -
  assume "prop_key_ok k"
  then obtain d where d: "k = CHR ''P'' # d" "snd (Atoi d) = None" by (metis prop_key_split)
  then obtain n where "Atoi d = (n, None)" by (cases "Atoi d") simp
  have "(of_char c :: nat) < 128" if "c \<in> set d" for c
  proof (rule ccontr)
    assume big: "\<not> (of_char c :: nat) < 128"
    then have "\<not> is_digit c" "c \<noteq> CHR ''-''" "c \<noteq> CHR ''+''"
      by (auto simp: is_digit_def digit_val_def Let_def)
    from ParseInt_ok_chars[OF \<open>Atoi d = (n, None)\<close> this] that show False by simp
  qed
  then show ?thesis by (simp add: d ascii_def list_all_iff)
qed

lemma extract_utf8:
  assumes "wiki_utf8 W"
  shows "\<forall>e \<in> set (extractExternalIDs W cs). utf8_ok e"
proof
  fix e
  assume "e \<in> set (extractExternalIDs W cs)"
  then obtain k r x where e: "(k, r, x) \<in> set (claim_entries W cs)" "e = (k @ '':'') @ x"
    by (auto simp: set_extract)
  then obtain c where "prop_key_ok k" "external W c x" by (auto simp: set_claim_entries)
  moreover from this have "utf8_ok x"
    using assms by (auto simp: external_def extractStringValue_def wiki_utf8_def split: if_splits option.splits)
  ultimately show "utf8_ok e" unfolding e(2) by (simp only: utf8_ok_append[OF prop_key_ascii])
qed

section \<open>A batch is applied as the reply says\<close>

definition batch_of :: "wiki_json \<Rightarrow> (string \<Rightarrow> EntityResult option) \<Rightarrow> string list \<Rightarrow> sorted_batch" where
  "batch_of W results qids = fold (sort_entity W results) qids \<lparr>sb_errors = Map.empty, sb_upserts = [], sb_deletes = []\<rparr>"

definition batch_cmds :: "sorted_batch \<Rightarrow> cmd list" where
  "batch_cmds b = map upsert_cmd (sb_upserts b) @ map (\<lambda>q. RunDelete (FormatInt (num_of q))) (sb_deletes b)"

lemma parsed_mappings:
  "ParseEntityJSON W raw = Inr (Some ent) \<Longrightarrow> \<exists>cs. we_Mappings ent = extractExternalIDs W cs"
  by (auto simp: ParseEntityJSON_def split: option.splits if_splits) blast

lemma upsert_ofD:
  assumes "rec \<in> set (upsert_of W results q)"
  shows "er_WikidataID rec = q \<and> desired W results q None = Some (canonicalMappingsJSON (er_Mappings rec)) \<and>
    (\<exists>cs. er_Mappings rec = extractExternalIDs W cs)"
proof -
  obtain raw where raw: "results q = Some (Data raw)"
    using assms by (cases "results q" rule: option.exhaust[case_product EntityResult.exhaust])
      (auto simp: upsert_of_def split: EntityResult.splits)
  then obtain ent where "ParseEntityJSON W raw = Inr (Some ent)"
    using assms by (cases "ParseEntityJSON W raw") (auto simp: upsert_of_def split: option.splits)
  with assms raw have e: "results q = Some (Data raw)" "ParseEntityJSON W raw = Inr (Some ent)"
    "rec = \<lparr>er_WikidataID = q, er_Mappings = we_Mappings ent\<rparr>"
    by (simp_all add: upsert_of_def)
  with parsed_mappings[OF e(2)] show ?thesis by (simp add: desired_def)
qed

lemma batch_pipe_cmds:
  assumes "\<forall>q \<in> set qids. plain_qid q"
  shows "batch_pipe (batch_of W results qids) \<lparr>p_err = None, p_cmds = []\<rparr> =
    \<lparr>p_err = None, p_cmds = batch_cmds (batch_of W results qids)\<rparr>"
proof -
  have "\<forall>r \<in> set (sb_upserts (batch_of W results qids)). plain_qid (er_WikidataID r) \<and>
      check_mappings (er_WikidataID r) (er_Mappings r) = None"
  proof
    fix r
    assume "r \<in> set (sb_upserts (batch_of W results qids))"
    then obtain q where q: "q \<in> set qids" "r \<in> set (upsert_of W results q)"
      by (auto simp: batch_of_def sorted_batch)
    from upsert_ofD[OF q(2)] show "plain_qid (er_WikidataID r) \<and> check_mappings (er_WikidataID r) (er_Mappings r) = None"
      using assms q(1) extract_valid by auto
  qed
  moreover have "\<forall>q \<in> set (sb_deletes (batch_of W results qids)). plain_qid q"
    using assms by (auto simp: batch_of_def sorted_batch)
  ultimately show ?thesis by (simp add: batch_pipe_def upserts_queued deletes_queued batch_cmds_def)
qed

definition target :: "wiki_json \<Rightarrow> (string \<Rightarrow> EntityResult option) \<Rightarrow> string \<Rightarrow> string option" where
  "target W results eid = desired W results (intToQid (fst (ParseInt eid))) None"

lemma target [simp]: "plain_qid q \<Longrightarrow> target W results (FormatInt (num_of q)) = desired W results q None"
  using plain_qid[of q] by (simp add: target_def)

lemma batch_sets_to:
  assumes "\<forall>q \<in> set qids. plain_qid q"
  shows "sets_to (target W results) (batch_cmds (batch_of W results qids))"
  unfolding sets_to_def
proof
  fix k
  assume "k \<in> set (batch_cmds (batch_of W results qids))"
  then consider (up) r q where "q \<in> set qids" "r \<in> set (upsert_of W results q)" "k = upsert_cmd r"
    | (del) q where "q \<in> set qids" "results q = Some Missing" "k = RunDelete (FormatInt (num_of q))"
    by (auto simp: batch_cmds_def batch_of_def sorted_batch)
  then show "\<exists>eid. entity_cmd k = Some (eid, target W results eid)"
  proof cases
    case up
    with upsert_ofD[OF up(2)] assms show ?thesis by (simp add: entity_cmd_def upsert_cmd_def)
  next
    case del
    with assms show ?thesis by (simp add: entity_cmd_def desired_def)
  qed
qed

lemma touched_simps:
  "touched (xs @ ys) = touched xs \<union> touched ys"
  "touched (map upsert_cmd rs) = (\<lambda>r. FormatInt (num_of (er_WikidataID r))) ` set rs"
  "touched (map (\<lambda>q. RunDelete (f q)) qs) = f ` set qs"
  by (auto simp: touched_def entity_cmd_def upsert_cmd_def)

lemma batch_touched:
  "touched (batch_cmds (batch_of W results qids)) = {FormatInt (num_of q) | q. q \<in> set qids \<and>
     (results q = Some Missing \<or> upsert_of W results q \<noteq> [])}"
proof -
  have u: "(\<lambda>r. FormatInt (num_of (er_WikidataID r))) ` set (upsert_of W results q) =
      (if upsert_of W results q = [] then {} else {FormatInt (num_of q)})" for q
    by (auto simp: upsert_of_def split: option.splits EntityResult.splits sum.splits)
  have "touched (batch_cmds (batch_of W results qids)) =
      (\<Union>q \<in> set qids. (\<lambda>r. FormatInt (num_of (er_WikidataID r))) ` set (upsert_of W results q)) \<union>
      (\<lambda>q. FormatInt (num_of q)) ` {q \<in> set qids. results q = Some Missing}"
    by (simp add: touched_simps batch_cmds_def batch_of_def sorted_batch image_UN)
  then show ?thesis unfolding u by (auto split: if_splits)
qed

lemma batch_cmds_ok:
  assumes W: "wiki_utf8 W" and cj: "cjson_ok R" and q: "\<forall>q \<in> set qids. plain_qid q"
  shows "\<forall>k \<in> set (batch_cmds (batch_of W results qids)). cmd_ok R k"
proof
  fix k
  assume "k \<in> set (batch_cmds (batch_of W results qids))"
  then consider (up) r q where "q \<in> set qids" "r \<in> set (upsert_of W results q)" "k = upsert_cmd r"
    | (del) q where "q \<in> set qids" "k = RunDelete (FormatInt (num_of q))"
    by (auto simp: batch_cmds_def batch_of_def sorted_batch)
  then show "cmd_ok R k"
  proof cases
    case up
    from upsert_ofD[OF up(2)] obtain cs where m: "er_WikidataID r = q" "er_Mappings r = extractExternalIDs W cs" by auto
    from canonical_mappings_ok(1)[OF cj extract_valid[of "[]" W cs] extract_utf8[OF W]] show ?thesis
      using plain_qid[of q] q up(1) by (simp add: up(3) upsert_cmd_def m)
  next
    case del
    then show ?thesis using plain_qid[of q] q by simp
  qed
qed

lemma desired_old: "results q \<noteq> Some Missing \<Longrightarrow> upsert_of W results q = [] \<Longrightarrow> desired W results q old = old"
  by (auto simp: desired_def upsert_of_def split: option.splits EntityResult.splits sum.splits)

lemma desired_new:
  "results q = Some Missing \<or> upsert_of W results q \<noteq> [] \<Longrightarrow> desired W results q old = desired W results q None"
  by (auto simp: desired_def upsert_of_def split: option.splits EntityResult.splits sum.splits)

lemma batch_exec:
  assumes R: "redis_ok R v" and cj: "cjson_ok R" and W: "wiki_utf8 W" and c: "index_ok R (v s)"
    and q: "\<forall>q \<in> set qids. plain_qid q"
    and s': "s' = snd (Exec R attempts False \<lparr>p_err = None, p_cmds = batch_cmds (batch_of W results qids)\<rparr> s)"
  shows "index_ok R (v s') \<and> entities (v s') = (\<lambda>eid. if eid \<in> touched (batch_cmds (batch_of W results qids))
     then target W results eid else entities (v s) eid)"
proof -
  let ?cs = "batch_cmds (batch_of W results qids)"
  have ok: "\<forall>k \<in> set (p_cmds \<lparr>p_err = None, p_cmds = ?cs\<rparr>). cmd_ok R k" using batch_cmds_ok[OF W cj q] by simp
  note ref = Exec_refines[OF R c ok, of attempts False, folded s']
  have "a_entities (abstract (v s')) = (\<lambda>eid. if eid \<in> touched ?cs
      then target W results eid else a_entities (abstract (v s)) eid)"
    unfolding ref(1) exec_prefixes_def using prefixes_entities[OF batch_sets_to[OF q]] by simp
  with ref(2) show ?thesis unfolding abstract_sel by blast
qed

lemma processed:
  assumes R: "redis_ok R v" and cj: "cjson_ok R" and W: "wiki_utf8 W" and c: "index_ok R (v (snd ws))"
    and q: "\<forall>q \<in> set qids. plain_qid q"
    and fetched: "FetchEntitiesRaw W up qids cl = (Inr results, cl')"
    and run: "ProcessEntities R W up f qids (cl, ws) = (Inr errs, cl2, w', s')" and ne: "qids \<noteq> []"
  shows "errs = sb_errors (batch_of W results qids) \<and> index_ok R (v s') \<and>
    entities (v s') = (\<lambda>eid. if eid \<in> touched (batch_cmds (batch_of W results qids))
      then target W results eid else entities (v (snd ws)) eid)"
proof -
  let ?b = "batch_of W results qids"
  show ?thesis
  proof (cases "sb_upserts ?b \<noteq> [] \<or> sb_deletes ?b \<noteq> []")
    case False
    then have "batch_cmds ?b = []" by (simp add: batch_cmds_def)
    with False run fetched ne c show ?thesis
      by (auto simp: ProcessEntities_def batch_of_def Let_def touched_def)
  next
    case True
    with run fetched ne have r: "run_pipe R f (batch_pipe ?b) ws = (None, w', s')" "errs = sb_errors ?b"
      by (auto simp: ProcessEntities_def batch_of_def Let_def split: option.splits prod.splits)
    have cmds: "p_cmds (batch_pipe ?b \<lparr>p_err = None, p_cmds = []\<rparr>) \<noteq> []"
      "p_err (batch_pipe ?b \<lparr>p_err = None, p_cmds = []\<rparr>) = None"
      using True by (auto simp: batch_pipe_cmds[OF q] batch_cmds_def)
    have "s' = snd (Exec R (f_attempts f) False (batch_pipe ?b \<lparr>p_err = None, p_cmds = []\<rparr>) (snd ws))"
      using run_pipe_ok[OF _ r(1) cmds] by (simp add: batch_pipe_def ops_keep_error)
    from batch_exec[OF R cj W c q this[unfolded batch_pipe_cmds[OF q]]] r(2) show ?thesis by blast
  qed
qed

text \<open>
  Claim C22: a batch that is processed does to the store what the reply says: an entity that Wikidata has is
  stored with its external IDs, a missing one is removed, one in error or of another kind keeps
  what it had, nothing else changes, and exactly the entities in error are reported. This holds
  for every fate of the pipe that ends in success, also when it was sent more than once.
\<close>

theorem ProcessEntities_applies:
  assumes R: "redis_ok R v" and cj: "cjson_ok R" and W: "wiki_utf8 W" and c: "index_ok R (v (snd ws))"
    and ids: "\<forall>n \<in> set ns. int64 n"
    and fetched: "FetchEntitiesRaw W up (map intToQid ns) cl = (Inr results, cl')"
    and run: "ProcessEntities R W up f (map intToQid ns) (cl, ws) = (Inr errs, cl2, w', s')"
  shows "index_ok R (v s') \<and>
    (\<forall>n \<in> set ns. entities (v s') (FormatInt n) = desired W results (intToQid n) (entities (v (snd ws)) (FormatInt n)) \<and>
       (errs (intToQid n) \<noteq> None \<longleftrightarrow> in_error W results (intToQid n))) \<and>
    (\<forall>eid. eid \<notin> FormatInt ` set ns \<longrightarrow> entities (v s') eid = entities (v (snd ws)) eid)"
proof (cases "ns = []")
  case True
  with run c show ?thesis by (simp add: ProcessEntities_def)
next
  case False
  let ?qids = "map intToQid ns"
  have q: "\<forall>q \<in> set ?qids. plain_qid q" using ids by (auto simp: plain_qid_def)
  have num [simp]: "num_of (intToQid n) = n" if "n \<in> set ns" for n using ids that by (simp add: num_of_def)
  note res = processed[OF R cj W c q fetched run]
  let ?t = "touched (batch_cmds (batch_of W results ?qids))"
  have t: "?t = {FormatInt n | n. n \<in> set ns \<and> (results (intToQid n) = Some Missing \<or> upsert_of W results (intToQid n) \<noteq> [])}"
  proof -
    have "(q \<in> set ?qids) = (\<exists>n. n \<in> set ns \<and> q = intToQid n)" for q by auto
    then show ?thesis unfolding batch_touched using num by (metis (no_types, lifting))
  qed
  have inj: "FormatInt m = FormatInt n \<longleftrightarrow> m = n" if "m \<in> set ns" "n \<in> set ns" for m n
    using ids that by (metis ParseInt_FormatInt prod.inject)
  have "entities (v s') (FormatInt n) = desired W results (intToQid n) (entities (v (snd ws)) (FormatInt n)) \<and>
      (errs (intToQid n) \<noteq> None \<longleftrightarrow> in_error W results (intToQid n))" if n: "n \<in> set ns" for n
  proof
    have m: "FormatInt n \<in> ?t \<longleftrightarrow> results (intToQid n) = Some Missing \<or> upsert_of W results (intToQid n) \<noteq> []"
      unfolding t using n inj by auto
    have "plain_qid (intToQid n)" using q n by simp
    have ent: "entities (v s') = (\<lambda>eid. if eid \<in> ?t then target W results eid else entities (v (snd ws)) eid)"
      using res False by blast
    from target[OF \<open>plain_qid (intToQid n)\<close>, of W results] have tg: "target W results (FormatInt n) = desired W results (intToQid n) None"
      using n by simp
    show "entities (v s') (FormatInt n) = desired W results (intToQid n) (entities (v (snd ws)) (FormatInt n))"
    proof (cases "FormatInt n \<in> ?t")
      case True
      then have "entities (v s') (FormatInt n) = target W results (FormatInt n)" using ent by (simp only: if_True)
      with tg desired_new m True show ?thesis by metis
    next
      case False
      then have "entities (v s') (FormatInt n) = entities (v (snd ws)) (FormatInt n)" using ent by (simp only: if_False)
      with desired_old m False show ?thesis by metis
    qed
    show "errs (intToQid n) \<noteq> None \<longleftrightarrow> in_error W results (intToQid n)"
      using res False n by (auto simp: batch_of_def sorted_batch split: option.splits)
  qed
  moreover have "entities (v s') eid = entities (v (snd ws)) eid" if "eid \<notin> FormatInt ` set ns" for eid
  proof -
    have "eid \<notin> ?t" unfolding t using that by auto
    with res False show ?thesis by simp
  qed
  ultimately show ?thesis using res False by blast
qed

section \<open>Witness\<close>

theorem ProcessEntities_applies_witness:
  "\<exists>st. ProcessEntities mem_redis plain_json (\<lambda>_. Some \<lparr>ar_Status = 200, ar_RetryAfter = [], ar_Body = Some ''missing''\<rparr>)
      good_fate (map intToQid [42]) (fresh_client, \<lparr>scriptsLoaded = True\<rparr>, no_content) = (Inr Map.empty, st) \<and>
    entities (snd (snd st)) (FormatInt 42) = None \<and> \<not> in_error plain_json [''Q42'' \<mapsto> Missing] (intToQid 42)"
proof -
  let ?up = "\<lambda>_. Some \<lparr>ar_Status = 200, ar_RetryAfter = [], ar_Body = Some ''missing''\<rparr>"
  have q: "intToQid 42 = ''Q42''" by code_simp
  have t: "take body_limit ''missing'' = ''missing''" by (simp add: body_limit_def)
  have fetch: "FetchEntitiesRaw plain_json ?up (map intToQid [42]) fresh_client = (Inr [''Q42'' \<mapsto> Missing], fresh_client)"
    by (simp add: q FetchEntitiesRaw_def t read_entities_def plain_json_def Let_def fresh_client_def)
  have "deleteScript mem_redis changelogKey (FormatInt 42) no_content = (LuaInt 0, no_content)"
    using delete_absent[OF mem_redis_ok, of no_content "FormatInt 42" changelogKey] by simp
  then have "run_pipe mem_redis good_fate (batch_pipe \<lparr>sb_errors = Map.empty, sb_upserts = [], sb_deletes = [''Q42'']\<rparr>)
      (\<lparr>scriptsLoaded = True\<rparr>, no_content) = (None, \<lparr>scriptsLoaded = True\<rparr>, no_content)"
    by (simp add: run_pipe_def batch_pipe_def DeleteEntity_def example_qid queue_def NewPipe_def loadScripts_def
        Exec_def broken_attempts_def good_fate_def script_result_def)
  then have run: "ProcessEntities mem_redis plain_json ?up good_fate (map intToQid [42])
      (fresh_client, \<lparr>scriptsLoaded = True\<rparr>, no_content) = (Inr Map.empty, fresh_client, \<lparr>scriptsLoaded = True\<rparr>, no_content)"
    using fetch by (simp add: q ProcessEntities_def sort_entity_def)
  have idx: "index_ok mem_redis (id (snd (\<lparr>scriptsLoaded = True\<rparr>, no_content)))" by (simp add: example_index)
  have "wiki_utf8 plain_json" by (simp add: wiki_utf8_def plain_json_def utf8_ok_ascii)
  from ProcessEntities_applies[OF mem_redis_ok mem_cjson_ok this idx _ fetch run] run show ?thesis
    by (simp add: q desired_def) (simp add: int64_def)
qed

end
