(* ===== verification/EventStream.thy ===== *)
theory EventStream
  imports WorkQueue Reader Protocol Processor
begin

text \<open>
  \<open>internal/watcher/eventstream.go\<close>: the recent-changes stream of Wikidata. A reader turns its lines
  into items (an entity and the event ID), a writer collects them and puts them in the pending
  set together with the position, and the queue is drained in batches through the processor.
  The writer goroutine takes the items in the order in which they are sent; a list of inputs is
  one interleaving of items and ticks. The JSON library and the time parser are parameters.
\<close>

section \<open>Events\<close>

record recentChangeEvent =
  rc_Domain :: string
  rc_Wiki :: string
  rc_Namespace :: int
  rc_Title :: string

definition extractEvent :: "(string \<Rightarrow> recentChangeEvent option) \<Rightarrow> string \<Rightarrow> string" where
  "extractEvent decode data =
     (case decode data of
        None \<Rightarrow> []
      | Some event \<Rightarrow>
          if rc_Domain event = ''canary'' then []
          else if rc_Wiki event \<noteq> ''wikidatawiki'' \<or> rc_Namespace event \<noteq> 0 then []
          else if \<not> HasPrefix (rc_Title event) ''Q'' then []
          else rc_Title event)"

text \<open>Milliseconds since the epoch; \<open>None\<close> is the zero time.\<close>

definition extractEventIDTime :: "(string \<Rightarrow> int option list option) \<Rightarrow> string \<Rightarrow> int option" where
  "extractEventIDTime decode eventID =
     (case decode eventID of
        None \<Rightarrow> None
      | Some offsets \<Rightarrow>
          let minTS = min_timestamp offsets 0 in if minTS = 0 then None else Some minTS)"

section \<open>Reading the stream\<close>

definition streamGapThreshold :: int where "streamGapThreshold = 60 * 60 * 1000"

record event_env =
  decode_event :: "string \<Rightarrow> recentChangeEvent option"
  decode_offsets :: "string \<Rightarrow> int option list option"

text \<open>
  The loop over the lines: the items sent, and whether the stream was found not to go back far
  enough. \<open>since\<close> is the time of the position (\<open>None\<close>: no check).
\<close>

definition put_item :: "string \<Rightarrow> string \<Rightarrow> (string \<times> string) list \<times> bool \<Rightarrow> (string \<times> string) list \<times> bool" where
  "put_item eventID qid r = (case r of (items, old) \<Rightarrow> (if qid = [] then items else (qid, eventID) # items, old))"

fun read_events ::
  "event_env \<Rightarrow> int option \<Rightarrow> string list \<Rightarrow> string \<Rightarrow> string list \<Rightarrow> bool \<Rightarrow> (string \<times> string) list \<times> bool" where
  "read_events env since [] lastEventID dataLines gapChecked = ([], False)"
| "read_events env since (line # lines) lastEventID dataLines gapChecked =
     (if HasPrefix line ''id: '' then
        read_events env since lines (TrimPrefix line ''id: '') dataLines gapChecked
      else if HasPrefix line ''data: '' then
        read_events env since lines lastEventID (dataLines @ [TrimPrefix line ''data: '']) gapChecked
      else if line = [] \<and> dataLines \<noteq> [] then
        (let qid = extractEvent (decode_event env) (Join dataLines []);
             time = (if gapChecked then None else extractEventIDTime (decode_offsets env) lastEventID)
         in (case (since, time) of
               (Some t0, Some t) \<Rightarrow>
                 if t - t0 > streamGapThreshold then ([], True)
                 else put_item lastEventID qid (read_events env since lines lastEventID [] True)
             | _ \<Rightarrow> put_item lastEventID qid (read_events env since lines lastEventID [] gapChecked)))
      else read_events env since lines lastEventID dataLines gapChecked)"

section \<open>Writing the items\<close>

datatype writer_input = Item string string | Tick | Closed

definition enqueueBatchSize :: nat where "enqueueBatchSize = 1000"

record enqueue_buffer =
  eb_batch :: "string list"
  eb_lastEventID :: string

definition empty_buffer :: enqueue_buffer where
  "empty_buffer = \<lparr>eb_batch = [], eb_lastEventID = []\<rparr>"

definition flush_pipe :: "enqueue_buffer \<Rightarrow> Pipe \<Rightarrow> Pipe" where
  "flush_pipe b p =
     (let p1 = EnqueueEntities (eb_batch b) p in
      if eb_lastEventID b \<noteq> [] then SetSyncState ''last_event_id'' (eb_lastEventID b) p1 else p1)"

definition flushOnce ::
  "'s redis \<Rightarrow> fate \<Rightarrow> enqueue_buffer \<Rightarrow> Writer \<times> 's \<Rightarrow> store_error option \<times> enqueue_buffer \<times> Writer \<times> 's" where
  "flushOnce R f b ws =
     (if eb_batch b = [] then (None, b, ws)
      else (case run_pipe R f (flush_pipe b) ws of
              (Some e, ws') \<Rightarrow> (Some e, b, ws')
            | (None, ws') \<Rightarrow> (None, empty_buffer, ws')))"

text \<open>The writer stops at the first error; the inputs running out is a crash.\<close>

fun enqueue_writer ::
  "'s redis \<Rightarrow> (writer_input \<times> fate) list \<Rightarrow> enqueue_buffer \<Rightarrow> Writer \<times> 's \<Rightarrow> store_error option \<times> Writer \<times> 's" where
  "enqueue_writer R [] b ws = (None, ws)"
| "enqueue_writer R ((Item qid eventID, f) # ins) b ws =
     (let b1 = b\<lparr>eb_batch := (if qid \<in> set (eb_batch b) then eb_batch b else eb_batch b @ [qid]),
                 eb_lastEventID := eventID\<rparr> in
      if enqueueBatchSize \<le> length (eb_batch b1) then
        (case flushOnce R f b1 ws of
           (Some e, _, ws') \<Rightarrow> (Some e, ws')
         | (None, b2, ws') \<Rightarrow> enqueue_writer R ins b2 ws')
      else enqueue_writer R ins b1 ws)"
| "enqueue_writer R ((Tick, f) # ins) b ws =
     (case flushOnce R f b ws of
        (Some e, _, ws') \<Rightarrow> (Some e, ws')
      | (None, b2, ws') \<Rightarrow> enqueue_writer R ins b2 ws')"
| "enqueue_writer R ((Closed, f) # ins) b ws = (case flushOnce R f b ws of (err, _, ws') \<Rightarrow> (err, ws'))"

section \<open>One connection\<close>

datatype stream_error =
    GetState store_error | NoDumpTime | BadDumpTime | ConnectFailed | StreamStatus int
  | EnqueueWriter store_error | StreamTooOld | ScannerError | StreamEnded

definition eventBufferSize :: nat where "eventBufferSize = 1048576"

text \<open>
  The position to start from: the earliest time of the last event, or else the time of the dump.
\<close>

definition start_position ::
  "'s redis \<Rightarrow> event_env \<Rightarrow> (string \<Rightarrow> int option) \<Rightarrow> bool \<Rightarrow> bool \<Rightarrow> 's \<Rightarrow> stream_error + string \<times> int option" where
  "start_position R env parse_time a1 a2 s =
     (case GetSyncState R a1 ''last_event_id'' s of
        Inl e \<Rightarrow> Inl (GetState e)
      | Inr lastEventID \<Rightarrow>
          if lastEventID \<noteq> [] then Inr (lastEventID, extractEventIDTime (decode_offsets env) lastEventID)
          else (case GetSyncState R a2 ''dump_time'' s of
                  Inl e \<Rightarrow> Inl (GetState e)
                | Inr dumpTime \<Rightarrow>
                    if dumpTime = [] then Inl NoDumpTime
                    else (case parse_time dumpTime of
                            None \<Rightarrow> Inl BadDumpTime
                          | Some t \<Rightarrow> Inr ([], Some t))))"

text \<open>
  \<open>upstream\<close> answers with a status, the text of the body and whether reading it ends with an error;
  \<open>weave\<close> puts the ticks and the fates of the writer's pipes between the items; the writer fails
  before the end of the stream when it has an error before its last input.
\<close>

definition connectAndProcess ::
  "'s redis \<Rightarrow> event_env \<Rightarrow> (string \<Rightarrow> int option) \<Rightarrow> bool \<Rightarrow> bool \<Rightarrow> (int option \<Rightarrow> (int \<times> string \<times> bool) option) \<Rightarrow>
   ((string \<times> string) list \<Rightarrow> (writer_input \<times> fate) list) \<Rightarrow> fate \<Rightarrow> fate \<Rightarrow> Writer \<times> 's \<Rightarrow> stream_error \<times> Writer \<times> 's" where
  "connectAndProcess R env parse_time a1 a2 upstream weave f_old f_last ws =
     (case start_position R env parse_time a1 a2 (snd ws) of
        Inl e \<Rightarrow> (e, ws)
      | Inr (lastEventID, since) \<Rightarrow>
          (case upstream since of
             None \<Rightarrow> (ConnectFailed, ws)
           | Some (status, text, read_error) \<Rightarrow>
               if status \<noteq> 200 then (StreamStatus status, ws)
               else
                 let (lines, too_long) = scan_lines eventBufferSize text;
                     (items, old) = read_events env since lines lastEventID [] (since = None);
                     ws1 = (if old then snd (run_pipe R f_old (DelSyncStates [''dump_time'', ''last_event_id'']) ws) else ws)
                 in (case enqueue_writer R (weave items @ [(Closed, f_last)]) empty_buffer ws1 of
                       (err, ws2) \<Rightarrow>
                         (if old then StreamTooOld
                          else (case err of
                                  Some e \<Rightarrow> EnqueueWriter e
                                | None \<Rightarrow> if too_long \<or> read_error then ScannerError else StreamEnded), ws2))))"

section \<open>The position never gets ahead of the queue\<close>

definition eids :: "string list \<Rightarrow> string set" where
  "eids qids = (\<lambda>q. FormatInt (num_of q)) ` set qids"

lemma qid_members: "qid_members qids = Inr ms \<Longrightarrow> set ms = eids qids"
  by (induction qids arbitrary: ms) (auto simp: eids_def num_of_def split: sum.splits)

lemma flush_cmds:
  assumes "eb_batch b \<noteq> []" "eb_lastEventID b \<noteq> []"
  shows "p_cmds (flush_pipe b \<lparr>p_err = None, p_cmds = []\<rparr>) = [] \<and> p_err (flush_pipe b \<lparr>p_err = None, p_cmds = []\<rparr>) \<noteq> None \<or>
    p_err (flush_pipe b \<lparr>p_err = None, p_cmds = []\<rparr>) = None \<and>
    (\<exists>ms. set ms = eids (eb_batch b) \<and> p_cmds (flush_pipe b \<lparr>p_err = None, p_cmds = []\<rparr>) =
       [SAdd pendingKey ms, HSet metaKey ''last_event_id'' (eb_lastEventID b)])"
  using assms
  by (auto simp: flush_pipe_def EnqueueEntities_def SetSyncState_def queue_def fail_def Let_def
      dest: qid_members split: sum.splits)

lemma flush_sticky: "p_err p = Some e \<Longrightarrow> p_err (flush_pipe b p) = Some e"
  by (simp add: flush_pipe_def EnqueueEntities_def SetSyncState_def Let_def)

lemma flush_pipe_ok: "pipe_ok R p \<Longrightarrow> pipe_ok R (flush_pipe b p)"
  by (simp add: flush_pipe_def pipe_ok_ops Let_def)

text \<open>After a flush: nothing happened, or the batch is pending and only then the position moved.\<close>

definition flushed :: "enqueue_buffer \<Rightarrow> astore \<Rightarrow> astore \<Rightarrow> bool" where
  "flushed b a a' \<longleftrightarrow> a_pending a \<subseteq> a_pending a' \<and>
     (a_sync a' ''last_event_id'' = a_sync a ''last_event_id'' \<or>
      eids (eb_batch b) \<subseteq> a_pending a' \<and> a_sync a' ''last_event_id'' = Some (eb_lastEventID b))"

lemma flushed_prefix:
  assumes "set ms = eids (eb_batch b)" "flushed b a a'"
  shows "flushed b a (fold cmd_spec (take n [SAdd pendingKey ms, HSet metaKey ''last_event_id'' (eb_lastEventID b)]) a')"
proof -
  consider "n = 0" | "n = 1" | "2 \<le> n" by linarith
  then show ?thesis using assms by cases (auto simp: flushed_def)
qed

lemma flush_run:
  assumes R: "redis_ok R v" and c: "index_ok R (v (snd ws))" and ne: "eb_batch b \<noteq> []" "eb_lastEventID b \<noteq> []"
    and run: "run_pipe R f (flush_pipe b) ws = (err, ws')"
  shows "index_ok R (v (snd ws')) \<and> flushed b (abstract (v (snd ws))) (abstract (v (snd ws'))) \<and>
    (err = None \<longrightarrow> eids (eb_batch b) \<subseteq> a_pending (abstract (v (snd ws'))) \<and>
       a_sync (abstract (v (snd ws'))) ''last_event_id'' = Some (eb_lastEventID b))"
proof -
  let ?new = "\<lparr>p_err = None, p_cmds = []\<rparr>"
  have new_ok: "pipe_ok R (flush_pipe b ?new)" by (rule flush_pipe_ok) (simp add: pipe_ok_def)
  have s': "snd ws' = snd (snd (run_pipe R f (flush_pipe b) ws))" using run by simp
  obtain ps where ps: "\<forall>p \<in> set ps. \<exists>n. p = take n (p_cmds (flush_pipe b ?new))"
    "abstract (v (snd ws')) = prefixes_spec ps (abstract (v (snd ws)))" "index_ok R (v (snd ws'))"
    unfolding s' by (rule run_pipe_refines[where f = f, OF R c, of "flush_pipe b"]) (use flush_sticky new_ok in auto)
  have fl: "flushed b (abstract (v (snd ws))) (abstract (v (snd ws)))" by (simp add: flushed_def)
  from flush_cmds[OF ne] show ?thesis
  proof (elim disjE conjE exE)
    assume nil: "p_cmds (flush_pipe b ?new) = []" and e: "p_err (flush_pipe b ?new) \<noteq> None"
    obtain e0 where e0: "p_err (flush_pipe b ?new) = Some e0" using e by blast
    obtain le w where l: "loadScripts (f_loads f) (fst ws) = (le, w)" by fastforce
    obtain e1 where "p_err (flush_pipe b \<lparr>p_err = le, p_cmds = []\<rparr>) = Some e1"
      using e0 flush_sticky by (cases le) auto
    with run l have "err \<noteq> None \<and> snd ws' = snd ws"
      by (simp add: run_pipe_def NewPipe_def Exec_def) (metis option.distinct(1) snd_conv)
    with fl c show ?thesis by auto
  next
    fix ms
    assume ok: "p_err (flush_pipe b ?new) = None" and ms: "set ms = eids (eb_batch b)"
      and cmds: "p_cmds (flush_pipe b ?new) = [SAdd pendingKey ms, HSet metaKey ''last_event_id'' (eb_lastEventID b)]"
    have "flushed b (abstract (v (snd ws))) (abstract (v (snd ws')))"
      unfolding ps(2)
      by (rule prefixes_keep[OF ps(1), of "flushed b (abstract (v (snd ws)))"])
        (use flushed_prefix[OF ms] fl in \<open>simp_all only: cmds\<close>)
    moreover have "eids (eb_batch b) \<subseteq> a_pending (abstract (v (snd ws'))) \<and>
        a_sync (abstract (v (snd ws'))) ''last_event_id'' = Some (eb_lastEventID b)" if "err = None"
    proof -
      obtain w' t where ws': "ws' = (w', t)" by fastforce
      have "p_cmds (flush_pipe b ?new) \<noteq> []" unfolding cmds by simp
      from run_pipe_ok[where build = "flush_pipe b", OF flush_sticky run[unfolded that ws'] this ok]
      have t: "t = snd (Exec R (f_attempts f) False (flush_pipe b ?new) (snd ws))" by simp
      have "\<forall>k \<in> set (p_cmds (flush_pipe b ?new)). cmd_ok R k" using new_ok by (simp add: pipe_ok_def)
      from Exec_refines(1)[OF R c this, of "f_attempts f" False, folded t]
      have "abstract (v t) = fold cmd_spec [SAdd pendingKey ms, HSet metaKey ''last_event_id'' (eb_lastEventID b)]
          (prefixes_spec (map (\<lambda>n. take n (p_cmds (flush_pipe b ?new))) (f_attempts f)) (abstract (v (snd ws))))"
        by (simp add: exec_prefixes_def ok prefixes_spec_def cmds)
      then show ?thesis using ms by (simp add: ws' del: abstract_sel)
    qed
    ultimately show ?thesis using ps(3) by blast
  qed
qed

fun items_of :: "(writer_input \<times> fate) list \<Rightarrow> (string \<times> string) list" where
  "items_of [] = []"
| "items_of ((Item qid eventID, f) # ins) = (qid, eventID) # items_of ins"
| "items_of ((Tick, f) # ins) = items_of ins"
| "items_of ((Closed, f) # ins) = []"

definition recorded :: "string option \<Rightarrow> (string \<times> string) list \<Rightarrow> nat \<Rightarrow> astore \<Rightarrow> bool" where
  "recorded p0 its k a \<longleftrightarrow> k \<le> length its \<and> eids (map fst (take k its)) \<subseteq> a_pending a \<and>
     (a_sync a ''last_event_id'' = p0 \<or> 0 < k \<and> a_sync a ''last_event_id'' = Some (snd (its ! (k - 1))))"

lemma recorded_append: "recorded p0 its k a \<Longrightarrow> recorded p0 (its @ rest) k a"
  by (auto simp: recorded_def nth_append)

definition buffered :: "(string \<times> string) list \<Rightarrow> enqueue_buffer \<Rightarrow> astore \<Rightarrow> bool" where
  "buffered its b a \<longleftrightarrow> eids (map fst its) \<subseteq> a_pending a \<union> eids (eb_batch b) \<and>
     (eb_batch b \<noteq> [] \<longrightarrow> its \<noteq> [] \<and> eb_lastEventID b = snd (last its))"

lemma flush_keeps:
  assumes R: "redis_ok R v" and c: "index_ok R (v (snd ws))" and ids: "\<forall>it \<in> set its. snd it \<noteq> []"
    and r: "recorded p0 its k (abstract (v (snd ws)))" and b: "buffered its b (abstract (v (snd ws)))"
    and run: "flushOnce R f b ws = (err, b', ws')"
  shows "index_ok R (v (snd ws')) \<and> (\<exists>k. recorded p0 its k (abstract (v (snd ws'))) \<and>
    (err = None \<longrightarrow> buffered its b' (abstract (v (snd ws'))) \<and> eb_batch b' = [] \<and> eids (map fst its) \<subseteq> a_pending (abstract (v (snd ws')))))"
proof (cases "eb_batch b = []")
  case True
  with run c r b show ?thesis by (auto simp: flushOnce_def buffered_def eids_def)
next
  case False
  with b have l: "its \<noteq> []" "eb_lastEventID b = snd (last its)" by (simp_all add: buffered_def)
  then have "eb_lastEventID b \<noteq> []" using ids by simp
  obtain err0 where p: "run_pipe R f (flush_pipe b) ws = (err0, ws')"
    using run False by (auto simp: flushOnce_def split: option.splits prod.splits)
  then have err: "err0 = err" "err = None \<longrightarrow> b' = empty_buffer"
    using run False by (auto simp: flushOnce_def split: option.splits)
  note fl = flush_run[OF R c False \<open>eb_lastEventID b \<noteq> []\<close> p, unfolded err(1)]
  let ?a = "abstract (v (snd ws))" and ?a' = "abstract (v (snd ws'))"
  have grow: "a_pending ?a \<subseteq> a_pending ?a'" using fl unfolding flushed_def by blast
  have all: "recorded p0 its (length its) ?a' \<and> eids (map fst its) \<subseteq> a_pending ?a'"
    if "eids (eb_batch b) \<subseteq> a_pending ?a'" "a_sync ?a' ''last_event_id'' = Some (eb_lastEventID b)"
  proof -
    have "eids (map fst its) \<subseteq> a_pending ?a'" using that(1) b grow unfolding buffered_def by blast
    moreover have "a_sync ?a' ''last_event_id'' = Some (snd (its ! (length its - 1)))"
      using that(2) l by (simp add: last_conv_nth del: abstract_sel)
    ultimately show ?thesis using l(1) unfolding recorded_def by simp
  qed
  have k: "\<exists>k. recorded p0 its k ?a'"
  proof (cases "a_sync ?a' ''last_event_id'' = a_sync ?a ''last_event_id''")
    case True
    have "eids (map fst (take k its)) \<subseteq> a_pending ?a'" using r grow unfolding recorded_def by blast
    with r have "recorded p0 its k ?a'" unfolding recorded_def True by blast
    then show ?thesis by blast
  next
    case False
    with fl have "eids (eb_batch b) \<subseteq> a_pending ?a'" "a_sync ?a' ''last_event_id'' = Some (eb_lastEventID b)"
      unfolding flushed_def by blast+
    with all show ?thesis by blast
  qed
  show ?thesis
  proof (cases err)
    case None
    with fl all have "recorded p0 its (length its) ?a' \<and> eids (map fst its) \<subseteq> a_pending ?a'" by blast
    with fl err None show ?thesis by (auto simp: buffered_def empty_buffer_def simp del: abstract_sel)
  next
    case (Some e)
    with fl k show ?thesis by simp
  qed
qed

lemma item_keeps:
  assumes "buffered its b a" and "recorded p0 its k a"
  shows "buffered (its @ [(qid, i)]) (b\<lparr>eb_batch := (if qid \<in> set (eb_batch b) then eb_batch b else eb_batch b @ [qid]),
      eb_lastEventID := i\<rparr>) a \<and> recorded p0 (its @ [(qid, i)]) k a"
  using assms recorded_append[of p0 its k a "[(qid, i)]"] by (auto simp: buffered_def eids_def)

lemma writer_keeps:
  assumes R: "redis_ok R v" and ids: "\<forall>it \<in> set (its @ items_of ins). snd it \<noteq> []"
    and c: "index_ok R (v (snd ws))" and r: "recorded p0 its k (abstract (v (snd ws)))"
    and b: "buffered its b (abstract (v (snd ws)))"
    and run: "enqueue_writer R ins b ws = (err, ws')"
  shows "\<exists>k. recorded p0 (its @ items_of ins) k (abstract (v (snd ws'))) \<and>
    (err = None \<and> Closed \<in> fst ` set ins \<longrightarrow> eids (map fst (its @ items_of ins)) \<subseteq> a_pending (abstract (v (snd ws'))))"
  using ids c r b run
proof (induction ins arbitrary: its k b ws)
  case Nil
  then show ?case by auto
next
  case (Cons inp ins)
  obtain x f where inp: "inp = (x, f)" by fastforce
  show ?case
  proof (cases x)
    case (Item qid i)
    let ?b = "b\<lparr>eb_batch := (if qid \<in> set (eb_batch b) then eb_batch b else eb_batch b @ [qid]), eb_lastEventID := i\<rparr>"
    let ?its = "its @ [(qid, i)]"
    have its: "its @ items_of (inp # ins) = ?its @ items_of ins" by (simp add: inp Item)
    have ids: "\<forall>it \<in> set (?its @ items_of ins). snd it \<noteq> []" using Cons.prems(1) by (simp add: inp Item)
    note st = item_keeps[OF Cons.prems(4,3), of qid i]
    show ?thesis
    proof (cases "enqueueBatchSize \<le> length (eb_batch ?b)")
      case False
      then have "enqueue_writer R ins ?b ws = (err, ws')" using Cons.prems(5) by (simp add: inp Item Let_def)
      from Cons.IH[OF ids Cons.prems(2) _ _ this] st show ?thesis unfolding its by (auto simp: inp Item)
    next
      case True
      obtain e b2 ws2 where fl: "flushOnce R f ?b ws = (e, b2, ws2)" by (metis surj_pair)
      have "\<forall>it \<in> set ?its. snd it \<noteq> []" using ids by simp
      from flush_keeps[OF R Cons.prems(2) this conjunct2[OF st] conjunct1[OF st] fl] obtain k2 where
        h: "index_ok R (v (snd ws2))" "recorded p0 ?its k2 (abstract (v (snd ws2)))"
          "e = None \<longrightarrow> buffered ?its b2 (abstract (v (snd ws2)))" by blast
      show ?thesis
      proof (cases e)
        case None
        then have "enqueue_writer R ins b2 ws2 = (err, ws')" using Cons.prems(5) True fl by (simp add: inp Item Let_def)
        from Cons.IH[OF ids h(1,2) _ this] h(3) None show ?thesis unfolding its by (auto simp: inp Item)
      next
        case (Some e')
        then have "err = Some e'" "ws' = ws2" using Cons.prems(5) True fl by (auto simp: inp Item Let_def)
        with recorded_append[OF h(2)] show ?thesis unfolding its by blast
      qed
    qed
  next
    case Tick
    obtain e b2 ws2 where fl: "flushOnce R f b ws = (e, b2, ws2)" by (metis surj_pair)
    have "\<forall>it \<in> set its. snd it \<noteq> []" using Cons.prems(1) by simp
    from flush_keeps[OF R Cons.prems(2) this Cons.prems(3,4) fl] obtain k2 where
      h: "index_ok R (v (snd ws2))" "recorded p0 its k2 (abstract (v (snd ws2)))"
        "e = None \<longrightarrow> buffered its b2 (abstract (v (snd ws2)))" by blast
    have its: "items_of (inp # ins) = items_of ins" by (simp add: inp Tick)
    show ?thesis
    proof (cases e)
      case None
      then have "enqueue_writer R ins b2 ws2 = (err, ws')" using Cons.prems(5) fl by (simp add: inp Tick)
      from Cons.IH[OF _ h(1,2) _ this] h(3) None Cons.prems(1) show ?thesis unfolding its by (auto simp: inp Tick)
    next
      case (Some e')
      then have "err = Some e'" "ws' = ws2" using Cons.prems(5) fl by (auto simp: inp Tick)
      with recorded_append[OF h(2)] show ?thesis unfolding its by blast
    qed
  next
    case Closed
    obtain e b2 ws2 where fl: "flushOnce R f b ws = (e, b2, ws2)" by (metis surj_pair)
    then have "e = err" "ws2 = ws'" using Cons.prems(5) by (auto simp: inp Closed)
    moreover have "\<forall>it \<in> set its. snd it \<noteq> []" using Cons.prems(1) by simp
    ultimately show ?thesis
      using flush_keeps[OF R Cons.prems(2) _ Cons.prems(3,4) fl] by (auto simp: inp Closed simp del: abstract_sel)
  qed
qed

text \<open>
  Claim C10: whatever the database and its connection do, the stored position is the one from before or the
  event ID of an item such that this item and all before it are pending; when the writer ends
  without an error after its channel was closed, every item is pending.
\<close>

theorem enqueue_writer_position:
  assumes R: "redis_ok R v" and c: "index_ok R (v (snd ws))" and ids: "\<forall>it \<in> set (items_of ins). snd it \<noteq> []"
    and run: "enqueue_writer R ins empty_buffer ws = (err, ws')"
  shows "(\<exists>k \<le> length (items_of ins).
      (\<forall>it \<in> set (take k (items_of ins)). FormatInt (num_of (fst it)) \<in> rsets (v (snd ws')) pendingKey) \<and>
      (hashes (v (snd ws')) metaKey ''last_event_id'' = hashes (v (snd ws)) metaKey ''last_event_id'' \<or>
       0 < k \<and> hashes (v (snd ws')) metaKey ''last_event_id'' = Some (snd (items_of ins ! (k - 1))))) \<and>
    (err = None \<and> Closed \<in> fst ` set ins \<longrightarrow>
      (\<forall>it \<in> set (items_of ins). FormatInt (num_of (fst it)) \<in> rsets (v (snd ws')) pendingKey))"
proof -
  let ?p0 = "hashes (v (snd ws)) metaKey ''last_event_id''" and ?its = "items_of ins"
  have "recorded ?p0 [] 0 (abstract (v (snd ws)))" "buffered [] empty_buffer (abstract (v (snd ws)))"
    by (simp_all add: recorded_def buffered_def eids_def empty_buffer_def)
  from writer_keeps[OF R _ c this run] ids obtain k where k: "recorded ?p0 ?its k (abstract (v (snd ws')))"
    "err = None \<and> Closed \<in> fst ` set ins \<longrightarrow> eids (map fst ?its) \<subseteq> rsets (v (snd ws')) pendingKey" by auto
  have sub: "(\<forall>it \<in> set xs. FormatInt (num_of (fst it)) \<in> P) \<longleftrightarrow> eids (map fst xs) \<subseteq> P" for xs P
    by (auto simp: eids_def)
  have "k \<le> length ?its" "eids (map fst (take k ?its)) \<subseteq> rsets (v (snd ws')) pendingKey"
    "hashes (v (snd ws')) metaKey ''last_event_id'' = ?p0 \<or>
     0 < k \<and> hashes (v (snd ws')) metaKey ''last_event_id'' = Some (snd (?its ! (k - 1)))"
    using k(1) by (auto simp: recorded_def)
  with k(2) show ?thesis unfolding sub by blast
qed

section \<open>Which items are sent\<close>

definition event_text :: "string \<times> string \<Rightarrow> string list" where
  "event_text = (\<lambda>(i, data). [''id: '' @ i, ''data: '' @ data, []])"

definition event_items :: "event_env \<Rightarrow> (string \<times> string) list \<Rightarrow> (string \<times> string) list" where
  "event_items env evs = filter (\<lambda>it. fst it \<noteq> []) (map (\<lambda>(i, data). (extractEvent (decode_event env) data, i)) evs)"

fun first_time :: "event_env \<Rightarrow> (string \<times> string) list \<Rightarrow> int option" where
  "first_time env [] = None"
| "first_time env ((i, data) # evs) =
     (case extractEventIDTime (decode_offsets env) i of None \<Rightarrow> first_time env evs | Some t \<Rightarrow> Some t)"

definition starts_late :: "event_env \<Rightarrow> int option \<Rightarrow> (string \<times> string) list \<Rightarrow> bool" where
  "starts_late env since evs \<longleftrightarrow>
     (case (since, first_time env evs) of (Some t0, Some t) \<Rightarrow> t - t0 > streamGapThreshold | _ \<Rightarrow> False)"

lemma event_step:
  "read_events env since (event_text (i, data) @ lines) last_id [] checked =
     (let qid = extractEvent (decode_event env) data;
          time = (if checked then None else extractEventIDTime (decode_offsets env) i)
      in (case (since, time) of
            (Some t0, Some t) \<Rightarrow>
              if t - t0 > streamGapThreshold then ([], True)
              else put_item i qid (read_events env since lines i [] True)
          | _ \<Rightarrow> put_item i qid (read_events env since lines i [] checked)))"
  by (simp add: event_text_def HasPrefix_def TrimPrefix_def Let_def)

lemma read_checked:
  "read_events env since (concat (map event_text evs)) last_id [] True = (event_items env evs, False)"
  by (induction evs arbitrary: last_id)
    (auto simp: event_step[simplified] event_items_def put_item_def Let_def split: option.splits)

text \<open>
  The items sent for a stream of whole events are its relevant events in their order, each with
  the ID of its own event; if the first event with a time is more than an hour after the
  position, the stream is given up there, with only the events before it sent.
\<close>

theorem read_events_exact:
  "read_events env since (concat (map event_text evs)) last_id [] (since = None) =
     (if starts_late env since evs
      then (event_items env (takeWhile (\<lambda>(i, data). extractEventIDTime (decode_offsets env) i = None) evs), True)
      else (event_items env evs, False))"
proof (induction evs arbitrary: last_id)
  case Nil
  then show ?case by (simp add: starts_late_def event_items_def split: option.splits)
next
  case (Cons ev evs)
  obtain i data where ev: "ev = (i, data)" by fastforce
  show ?case
  proof (cases since)
    case None
    then show ?thesis
      using read_checked[of env None "ev # evs" last_id] by (simp add: starts_late_def)
  next
    case (Some t0)
    show ?thesis
    proof (cases "extractEventIDTime (decode_offsets env) i")
      case None
      with Some Cons[of i] show ?thesis
        by (simp add: ev event_step starts_late_def event_items_def put_item_def Let_def
            split: option.splits if_splits)
    next
      case time: (Some t)
      with Some read_checked[of env since evs i] show ?thesis
        by (simp add: ev event_step starts_late_def event_items_def put_item_def Let_def)
    qed
  qed
qed

section \<open>Witness\<close>

theorem enqueue_writer_position_witness:
  "FormatInt 42 \<in> rsets (snd (snd (enqueue_writer mem_redis [(Item ''Q42'' ''e'', good_fate), (Closed, good_fate)]
     empty_buffer (\<lparr>scriptsLoaded = True\<rparr>, no_content)))) pendingKey"
proof -
  let ?ins = "[(Item ''Q42'' ''e'', good_fate), (Closed, good_fate)]" and ?ws = "(\<lparr>scriptsLoaded = True\<rparr>, no_content)"
  obtain err ws' where run: "enqueue_writer mem_redis ?ins empty_buffer ?ws = (err, ws')" by (metis surj_pair)
  have ok: "err = None"
    using run by (auto simp: enqueueBatchSize_def empty_buffer_def flushOnce_def run_pipe_def good_fate_def NewPipe_def
        loadScripts_def flush_pipe_def EnqueueEntities_def SetSyncState_def queue_def Exec_def broken_attempts_def
        example_qid Let_def)
  have idx: "index_ok mem_redis (id (snd ?ws))" by (simp add: example_index)
  have "num_of ''Q42'' = 42" by (simp add: num_of_def example_qid)
  with enqueue_writer_position[OF mem_redis_ok idx _ run] ok run show ?thesis by simp
qed

end
