(* ===== verification/Queue.thy ===== *)
theory Queue
  imports EventStream
begin

text \<open>
  The queue side of \<open>internal/watcher/eventstream.go\<close>: claimed batches are processed and
  acknowledged, requeued when they fail, and failed entities are retried.

  One round of \<open>drainQueue\<close> is described by a record: what other goroutines write before it, the
  call that claims, what the processor does with a batch, and the fates of the pipes. The batch
  fetched ahead is processed when its result is received. The rounds running out is a crash: the
  process stops between two steps and only the database remains.
\<close>

section \<open>Batches\<close>

definition retryBatchSize :: nat where "retryBatchSize = 50"

type_synonym clock = "string \<Rightarrow> string \<times> int"

type_synonym batch_result = "process_error + (string \<Rightarrow> entity_error option)"

fun error_text :: "entity_error \<Rightarrow> string" where
  "error_text (Absent qid) = ''entity '' @ qid @ '' absent from API response''"
| "error_text (ParseFailed qid) = ''parse entity '' @ qid"

definition requeue_pipe :: "string list \<Rightarrow> Pipe \<Rightarrow> Pipe" where
  "requeue_pipe qids p = AckProcessedEntities qids (EnqueueEntities qids p)"

definition requeueOnFailure :: "'s redis \<Rightarrow> fate \<Rightarrow> string list \<Rightarrow> Writer \<times> 's \<Rightarrow> Writer \<times> 's" where
  "requeueOnFailure R f qids ws = (if qids = [] then ws else snd (run_pipe R f (requeue_pipe qids) ws))"

definition record_failure :: "clock \<Rightarrow> (string \<Rightarrow> entity_error option) \<Rightarrow> string \<Rightarrow> Pipe \<Rightarrow> Pipe" where
  "record_failure now errs qid p =
     (case errs qid of
        None \<Rightarrow> p
      | Some perr \<Rightarrow> RecordFailedEntity (fst (now qid)) (snd (now qid)) qid (error_text perr) p)"

definition ack_pipe :: "clock \<Rightarrow> (string \<Rightarrow> entity_error option) \<Rightarrow> string list \<Rightarrow> Pipe \<Rightarrow> Pipe" where
  "ack_pipe now errs qids p = AckProcessedEntities qids (fold (record_failure now errs) qids p)"

text \<open>Whether to go on draining, how long to wait first, and the store.\<close>

definition handleBatchResult ::
  "'s redis \<Rightarrow> fate \<Rightarrow> clock \<Rightarrow> string list \<Rightarrow> batch_result \<Rightarrow> Writer \<times> 's \<Rightarrow> (bool \<times> int) \<times> Writer \<times> 's" where
  "handleBatchResult R f now qids res ws =
     (case res of
        Inl (FetchBatch (RateLimited after maxlag)) \<Rightarrow> ((False, after), requeueOnFailure R f qids ws)
      | Inl _ \<Rightarrow> ((False, 0), requeueOnFailure R f qids ws)
      | Inr errs \<Rightarrow> ((True, 0), snd (run_pipe R f (ack_pipe now errs qids) ws)))"

section \<open>Draining\<close>

record 's drain_round =
  dr_cancelled :: bool
  dr_others :: "'s \<Rightarrow> 's"
  dr_claim :: call
  dr_process :: "string list \<Rightarrow> Writer \<times> 's \<Rightarrow> batch_result \<times> Writer \<times> 's"
  dr_fate :: fate
  dr_fate2 :: fate
  dr_clock :: clock

text \<open>Waiting for a result that is then dropped: what the processor wrote stays written.\<close>

definition finish_fetch :: "'s drain_round \<Rightarrow> string list option \<Rightarrow> Writer \<times> 's \<Rightarrow> Writer \<times> 's" where
  "finish_fetch r pending ws = (case pending of None \<Rightarrow> ws | Some qids \<Rightarrow> snd (dr_process r qids ws))"

definition receive_batch ::
  "'s redis \<Rightarrow> 's drain_round \<Rightarrow> fate \<Rightarrow> string list \<Rightarrow> Writer \<times> 's \<Rightarrow> bool \<times> Writer \<times> 's" where
  "receive_batch R r f qids ws =
     (case dr_process r qids ws of
        (res, ws1) \<Rightarrow> (case handleBatchResult R f (dr_clock r) qids res ws1 of ((go, _), ws2) \<Rightarrow> (go, ws2)))"

fun drainQueue :: "'s redis \<Rightarrow> 's drain_round list \<Rightarrow> string list option \<Rightarrow> Writer \<times> 's \<Rightarrow> Writer \<times> 's" where
  "drainQueue R [] pending ws = ws"
| "drainQueue R (r # rs) pending ws =
     (if dr_cancelled r then finish_fetch r pending ws
      else (case ClaimPendingBatch R (dr_claim r) retryBatchSize (dr_others r (snd ws)) of
              (Inl _, s1) \<Rightarrow> finish_fetch r pending (fst ws, s1)
            | (Inr qids, s1) \<Rightarrow>
                (case (case pending of
                         None \<Rightarrow> (True, fst ws, s1)
                       | Some prev \<Rightarrow> receive_batch R r (dr_fate r) prev (fst ws, s1)) of
                   (False, ws2) \<Rightarrow>
                     (if qids = [] then ws2
                      else requeueOnFailure R (dr_fate2 r) qids (snd (dr_process r qids ws2)))
                 | (True, ws2) \<Rightarrow>
                     if qids = [] then ws2
                     else if length qids < retryBatchSize
                     then snd (receive_batch R r (dr_fate2 r) qids ws2)
                     else drainQueue R rs (Some qids) ws2)))"

section \<open>Failed entities\<close>

definition retry_pipe :: "clock \<Rightarrow> (string \<Rightarrow> entity_error option) \<Rightarrow> string \<Rightarrow> Pipe \<Rightarrow> Pipe" where
  "retry_pipe now errs qid p =
     (case errs qid of
        Some perr \<Rightarrow> RecordFailedEntity (fst (now qid)) (snd (now qid)) qid (error_text perr) p
      | None \<Rightarrow> DeleteFailedEntity qid p)"

text \<open>One tick; each entity has a pipe of its own.\<close>

definition retryFailedEntities ::
  "'s redis \<Rightarrow> bool \<Rightarrow> (string list \<Rightarrow> Writer \<times> 's \<Rightarrow> batch_result \<times> Writer \<times> 's) \<Rightarrow> clock \<Rightarrow> (string \<Rightarrow> fate) \<Rightarrow>
   Writer \<times> 's \<Rightarrow> Writer \<times> 's" where
  "retryFailedEntities R answered process now fates ws =
     (case LastFailedEntities R answered retryBatchSize (snd ws) of
        Inl _ \<Rightarrow> ws
      | Inr qids \<Rightarrow>
          if qids = [] then ws
          else (case process qids ws of
                  (Inl _, ws1) \<Rightarrow> ws1
                | (Inr errs, ws1) \<Rightarrow>
                    fold (\<lambda>qid ws'. snd (run_pipe R (fates qid) (retry_pipe now errs qid) ws')) qids ws1))"

section \<open>Nothing is lost while it is not processed\<close>

definition held :: "content \<Rightarrow> string set" where
  "held c = rsets c pendingKey \<union> rsets c processingKey"

text \<open>What holds between any two steps of the watcher.\<close>

definition watch_inv :: "'s redis \<Rightarrow> ('s \<Rightarrow> content) \<Rightarrow> 's \<Rightarrow> bool" where
  "watch_inv R v s \<longleftrightarrow> queue_inv R v s \<and> index_ok R (v s)"

definition keeps_queue :: "'s redis \<Rightarrow> ('s \<Rightarrow> content) \<Rightarrow> 's drain_round \<Rightarrow> bool" where
  "keeps_queue R v r \<longleftrightarrow>
     (\<forall>s. watch_inv R v s \<longrightarrow> watch_inv R v (dr_others r s) \<and> held (v s) \<subseteq> held (v (dr_others r s))) \<and>
     (\<forall>qids ws. watch_inv R v (snd ws) \<longrightarrow> watch_inv R v (snd (snd (dr_process r qids ws))) \<and>
        held (v (snd (snd (dr_process r qids ws)))) = held (v (snd ws)))"

definition holds :: "'s redis \<Rightarrow> ('s \<Rightarrow> content) \<Rightarrow> string \<Rightarrow> 's \<Rightarrow> bool" where
  "holds R v x s \<longleftrightarrow> watch_inv R v s \<and> x \<in> held (v s)"

lemma claim_keeps:
  assumes "holds R v x s" and run: "ClaimPendingBatch R c limit s = (out, s')"
  shows "holds R v x s'"
proof -
  have q: "queue_inv R v s" and R: "redis_ok R v" and idx: "index_ok R (v s)"
    using assms(1) by (simp_all add: holds_def watch_inv_def queue_inv_def)
  obtain xs s1 where c: "claimScript R pendingKey processingKey limit s = (xs, s1)" by fastforce
  note law = queue_claim[OF q c]
  have "held (v s1) = held (v s)" using law by (auto simp: held_def)
  moreover have "index_ok R (v s1)"
  proof -
    obtain ms s2 where pop: "r_spop R pendingKey limit s = (ms, s2)" by fastforce
    have fin: "finite (rsets (v s) pendingKey)" using q by (simp add: queue_inv_def)
    note pl = redis_spop[OF R fin pop]
    have "s1 = fold (r_sadd R processingKey) ms s2"
      using c pop by (auto simp: claimScript_def split: if_splits)
    then have "v s1 = put_set processingKey (rsets (v s) processingKey \<union> set ms)
        (put_set pendingKey (rsets (v s) pendingKey - set ms) (v s))"
      by (simp add: view_fold_sadd[OF R] pl(4))
    then show ?thesis using idx by (simp add: set_frame)
  qed
  moreover have "s' = s \<or> s' = s1" using run c by (cases c) (auto simp: ClaimPendingBatch_def)
  ultimately show ?thesis using assms(1) law by (auto simp: holds_def watch_inv_def)
qed

text \<open>The pipes of the queue change its sets only as their commands say.\<close>

definition a_held :: "astore \<Rightarrow> string set" where
  "a_held a = a_pending a \<union> a_processing a"

definition a_fin :: "astore \<Rightarrow> bool" where
  "a_fin a \<longleftrightarrow> finite (a_pending a) \<and> finite (a_processing a)"

lemma holds_abstract:
  "redis_ok R v \<Longrightarrow> holds R v x s \<longleftrightarrow> index_ok R (v s) \<and> a_fin (abstract (v s)) \<and> x \<in> a_held (abstract (v s))"
  by (auto simp: holds_def watch_inv_def queue_inv_def held_def a_held_def a_fin_def)

lemma pipe_keeps:
  assumes h: "holds R v x (snd ws)" and keeps: "\<And>p e. p_err p = Some e \<Longrightarrow> p_err (build p) = Some e"
    and ok: "pipe_ok R (build \<lparr>p_err = None, p_cmds = []\<rparr>)"
    and step: "\<And>a n. a_fin a \<Longrightarrow> x \<in> a_held a \<Longrightarrow>
      a_fin (fold cmd_spec (take n (p_cmds (build \<lparr>p_err = None, p_cmds = []\<rparr>))) a) \<and>
      x \<in> a_held (fold cmd_spec (take n (p_cmds (build \<lparr>p_err = None, p_cmds = []\<rparr>))) a)"
  shows "holds R v x (snd (snd (run_pipe R f build ws)))"
proof -
  have R: "redis_ok R v" using h by (simp add: holds_def watch_inv_def queue_inv_def)
  note h' = h[unfolded holds_abstract[OF R]]
  obtain ps where ps: "\<forall>p \<in> set ps. \<exists>n. p = take n (p_cmds (build \<lparr>p_err = None, p_cmds = []\<rparr>))"
    "abstract (v (snd (snd (run_pipe R f build ws)))) = prefixes_spec ps (abstract (v (snd ws)))"
    "index_ok R (v (snd (snd (run_pipe R f build ws))))"
    by (rule run_pipe_refines[where f = f, OF R conjunct1[OF h'], of build]) (use keeps ok in auto)
  have "a_fin (prefixes_spec ps (abstract (v (snd ws)))) \<and> x \<in> a_held (prefixes_spec ps (abstract (v (snd ws))))"
    by (rule prefixes_keep[OF ps(1), of "\<lambda>a. a_fin a \<and> x \<in> a_held a"]) (use step h' in blast)+
  then show ?thesis unfolding holds_abstract[OF R] ps(2) using ps(3) by blast
qed

lemma enqueue_cmds:
  "p_err p = None \<Longrightarrow> p_err (EnqueueEntities qids p) = None \<Longrightarrow> qids \<noteq> [] \<Longrightarrow>
   \<exists>ms. set ms = eids qids \<and> p_cmds (EnqueueEntities qids p) = p_cmds p @ [SAdd pendingKey ms]"
  by (auto simp: EnqueueEntities_def queue_def fail_def dest: qid_members split: sum.splits)

lemma requeue_cmds:
  "p_cmds (requeue_pipe qids \<lparr>p_err = None, p_cmds = []\<rparr>) = [] \<or>
   (\<exists>ms. set ms = eids qids \<and>
     p_cmds (requeue_pipe qids \<lparr>p_err = None, p_cmds = []\<rparr>) = [SAdd pendingKey ms, SRem processingKey ms])"
  by (auto simp: requeue_pipe_def EnqueueEntities_def AckProcessedEntities_def queue_def fail_def
      dest: qid_members split: sum.splits)

lemma requeue_prefix:
  assumes "a_fin a" "x \<in> a_held a"
  shows "a_fin (fold cmd_spec (take n (p_cmds (requeue_pipe qids \<lparr>p_err = None, p_cmds = []\<rparr>))) a) \<and>
    x \<in> a_held (fold cmd_spec (take n (p_cmds (requeue_pipe qids \<lparr>p_err = None, p_cmds = []\<rparr>))) a)"
  using requeue_cmds[of qids]
proof (elim disjE exE conjE)
  fix ms
  assume c: "p_cmds (requeue_pipe qids \<lparr>p_err = None, p_cmds = []\<rparr>) = [SAdd pendingKey ms, SRem processingKey ms]"
  consider "n = 0" | "n = 1" | "2 \<le> n" by linarith
  then show ?thesis
    using assms by cases (auto simp: c a_fin_def a_held_def)
qed (use assms in simp)

definition only_failures :: "cmd list \<Rightarrow> bool" where
  "only_failures cs \<longleftrightarrow> (\<forall>k \<in> set cs. \<exists>z f i e n x. k = RunRecordFailed z f i e n x)"

lemma record_cmd:
  "only_failures (p_cmds p) \<Longrightarrow> only_failures (p_cmds (record_failure now errs q p))"
  by (auto simp: record_failure_def RecordFailedEntity_def queue_def fail_def only_failures_def
      split: option.splits sum.splits)

lemma record_cmds:
  "only_failures (p_cmds p) \<Longrightarrow> only_failures (p_cmds (fold (record_failure now errs) qids p))"
  by (induction qids arbitrary: p) (simp_all add: record_cmd)

lemma ack_cmds:
  "\<exists>fs ms. only_failures fs \<and> set ms \<subseteq> eids qids \<and>
     (p_cmds (ack_pipe now errs qids \<lparr>p_err = None, p_cmds = []\<rparr>) = fs \<or>
      p_cmds (ack_pipe now errs qids \<lparr>p_err = None, p_cmds = []\<rparr>) = fs @ [SRem processingKey ms])"
proof -
  let ?p = "fold (record_failure now errs) qids \<lparr>p_err = None, p_cmds = []\<rparr>"
  have f: "only_failures (p_cmds ?p)" by (rule record_cmds) (simp add: only_failures_def)
  show ?thesis
  proof (cases "qid_members qids")
    case (Inr ms)
    with f qid_members[OF Inr] show ?thesis
      by (auto simp: ack_pipe_def AckProcessedEntities_def queue_def)
  next
    case (Inl e)
    then have "p_cmds (ack_pipe now errs qids \<lparr>p_err = None, p_cmds = []\<rparr>) = p_cmds ?p"
      by (simp add: ack_pipe_def AckProcessedEntities_def fail_def)
    with f show ?thesis by (metis empty_subsetI list.set(1))
  qed
qed

lemma failures_spec: "only_failures cs \<Longrightarrow> fold cmd_spec cs a = a"
  by (induction cs) (auto simp: only_failures_def)

lemma ack_prefix:
  assumes a: "a_fin a" "x \<in> a_held a" and x: "x \<notin> eids qids"
  shows "a_fin (fold cmd_spec (take n (p_cmds (ack_pipe now errs qids \<lparr>p_err = None, p_cmds = []\<rparr>))) a) \<and>
    x \<in> a_held (fold cmd_spec (take n (p_cmds (ack_pipe now errs qids \<lparr>p_err = None, p_cmds = []\<rparr>))) a)"
proof -
  obtain fs ms where f: "only_failures fs" "set ms \<subseteq> eids qids"
    "p_cmds (ack_pipe now errs qids \<lparr>p_err = None, p_cmds = []\<rparr>) = fs \<or>
     p_cmds (ack_pipe now errs qids \<lparr>p_err = None, p_cmds = []\<rparr>) = fs @ [SRem processingKey ms]"
    using ack_cmds by metis
  have t: "only_failures (take k fs)" for k using f(1) by (auto simp: only_failures_def dest: in_set_takeD)
  from f(3) show ?thesis
  proof
    assume "p_cmds (ack_pipe now errs qids \<lparr>p_err = None, p_cmds = []\<rparr>) = fs"
    with a t show ?thesis by (simp add: failures_spec)
  next
    assume c: "p_cmds (ack_pipe now errs qids \<lparr>p_err = None, p_cmds = []\<rparr>) = fs @ [SRem processingKey ms]"
    show ?thesis
    proof (cases "n \<le> length fs")
      case True
      with c a t show ?thesis by (simp add: failures_spec)
    next
      case False
      then have "take n (fs @ [SRem processingKey ms]) = fs @ [SRem processingKey ms]" by simp
      with c a f x show ?thesis by (auto simp: failures_spec a_fin_def a_held_def)
    qed
  qed
qed

lemma sticky:
  "p_err p = Some e \<Longrightarrow> p_err (requeue_pipe qids p) = Some e"
  "p_err p = Some e \<Longrightarrow> p_err (ack_pipe now errs qids p) = Some e"
proof -
  assume e: "p_err p = Some e"
  then show "p_err (requeue_pipe qids p) = Some e"
    by (simp add: requeue_pipe_def EnqueueEntities_def AckProcessedEntities_def)
  have "p_err (fold (record_failure now errs) qids p) = Some e"
    by (rule fold_invariant_set) (use e in \<open>auto simp: record_failure_def RecordFailedEntity_def split: option.splits\<close>)
  then show "p_err (ack_pipe now errs qids p) = Some e" by (simp add: ack_pipe_def AckProcessedEntities_def)
qed

lemma queue_pipes_ok:
  "pipe_ok R p \<Longrightarrow> pipe_ok R (requeue_pipe qids p)"
  "pipe_ok R p \<Longrightarrow> pipe_ok R (ack_pipe now errs qids p)"
proof -
  assume p: "pipe_ok R p"
  then show "pipe_ok R (requeue_pipe qids p)" by (simp add: requeue_pipe_def pipe_ok_ops)
  have "pipe_ok R (fold (record_failure now errs) qids p)"
    by (rule fold_invariant_set) (use p in \<open>auto simp: record_failure_def pipe_ok_ops split: option.splits\<close>)
  then show "pipe_ok R (ack_pipe now errs qids p)" by (simp add: ack_pipe_def pipe_ok_ops)
qed

lemma new_pipe_ok: "pipe_ok R \<lparr>p_err = None, p_cmds = []\<rparr>"
  by (simp add: pipe_ok_def)

lemma requeue_keeps:
  assumes "holds R v x (snd ws)"
  shows "holds R v x (snd (requeueOnFailure R f qids ws))"
  using pipe_keeps[where build = "requeue_pipe qids", OF assms sticky(1) queue_pipes_ok(1)[OF new_pipe_ok] requeue_prefix]
    assms by (simp add: requeueOnFailure_def)

lemma handle_keeps:
  assumes h: "holds R v x (snd ws)" and x: "\<forall>errs. res = Inr errs \<longrightarrow> x \<notin> eids qids"
    and run: "handleBatchResult R f now qids res ws = (go, ws')"
  shows "holds R v x (snd ws')"
proof (cases res)
  case (Inl e)
  then have "ws' = requeueOnFailure R f qids ws"
    using run by (auto simp: handleBatchResult_def split: process_error.splits fetch_error.splits)
  with requeue_keeps[OF h] show ?thesis by simp
next
  case (Inr errs)
  then have ws': "ws' = snd (run_pipe R f (ack_pipe now errs qids) ws)" using run by (simp add: handleBatchResult_def)
  have "x \<notin> eids qids" using x Inr by blast
  from pipe_keeps[where build = "ack_pipe now errs qids", OF h sticky(2) queue_pipes_ok(2)[OF new_pipe_ok]
      ack_prefix[OF _ _ this]]
  show ?thesis by (simp add: ws')
qed

text \<open>A round in which the entity \<open>x\<close> is in no batch that the processor finishes.\<close>

definition unprocessed :: "string \<Rightarrow> 's drain_round \<Rightarrow> bool" where
  "unprocessed x r \<longleftrightarrow> (\<forall>qids ws errs ws'. dr_process r qids ws = (Inr errs, ws') \<longrightarrow> x \<notin> eids qids)"

lemma process_keeps:
  "keeps_queue R v r \<Longrightarrow> holds R v x (snd ws) \<Longrightarrow> holds R v x (snd (snd (dr_process r qids ws)))"
  unfolding keeps_queue_def holds_def by blast

lemma receive_keeps:
  assumes "keeps_queue R v r" "unprocessed x r" "holds R v x (snd ws)"
  shows "holds R v x (snd (snd (receive_batch R r f qids ws)))"
proof -
  obtain res ws1 where p: "dr_process r qids ws = (res, ws1)" by (metis surj_pair)
  obtain g ws2 where hb: "handleBatchResult R f (dr_clock r) qids res ws1 = (g, ws2)" by (metis surj_pair)
  have "holds R v x (snd ws1)" using process_keeps[OF assms(1,3), of qids] p by simp
  moreover have "\<forall>errs. res = Inr errs \<longrightarrow> x \<notin> eids qids" using assms(2) p unfolding unprocessed_def by blast
  ultimately have "holds R v x (snd ws2)" using handle_keeps[OF _ _ hb] by blast
  then show ?thesis using p hb by (simp add: receive_batch_def split: prod.splits)
qed

lemma finish_keeps:
  "keeps_queue R v r \<Longrightarrow> holds R v x (snd ws) \<Longrightarrow> holds R v x (snd (finish_fetch r pending ws))"
  by (cases pending) (simp_all add: finish_fetch_def process_keeps)

lemma drain_keeps:
  assumes "\<forall>r \<in> set rs. keeps_queue R v r \<and> unprocessed x r" "holds R v x (snd ws)"
  shows "holds R v x (snd (drainQueue R rs pending ws))"
  using assms
proof (induction rs arbitrary: pending ws)
  case Nil
  then show ?case by simp
next
  case (Cons r rs)
  then have k: "keeps_queue R v r" "unprocessed x r" by simp_all
  show ?case
  proof (cases "dr_cancelled r")
    case True
    with finish_keeps[OF k(1) Cons.prems(2)] show ?thesis by simp
  next
    case False
    obtain out s1 where c: "ClaimPendingBatch R (dr_claim r) retryBatchSize (dr_others r (snd ws)) = (out, s1)"
      by fastforce
    have "holds R v x (dr_others r (snd ws))" using k(1) Cons.prems(2) by (auto simp: keeps_queue_def holds_def)
    from claim_keeps[OF this c] have h1: "holds R v x (snd (fst ws, s1))" by simp
    show ?thesis
    proof (cases out)
      case (Inl e)
      with False c finish_keeps[OF k(1) h1] show ?thesis by simp
    next
      case (Inr qids)
      obtain go ws2 where r: "(case pending of None \<Rightarrow> (True, fst ws, s1)
          | Some prev \<Rightarrow> receive_batch R r (dr_fate r) prev (fst ws, s1)) = (go, ws2)" by (metis surj_pair)
      have h2: "holds R v x (snd ws2)"
      proof (cases pending)
        case None
        with r h1 show ?thesis by auto
      next
        case (Some prev)
        with r receive_keeps[OF k h1, of "dr_fate r" prev] show ?thesis by simp
      qed
      from False c Inr r Cons.IH[of ws2 "Some qids"] Cons.prems(1) h2
        requeue_keeps[OF process_keeps[OF k(1) h2, of qids], of "dr_fate2 r" qids]
        receive_keeps[OF k h2, of "dr_fate2 r" qids]
      show ?thesis by (cases go) simp_all
    qed
  qed
qed

text \<open>
  Claim C9: an entity in the queue stays in one of its two sets until a batch with it has been processed:
  no failed claim, no failed fetch, no broken pipe and no crash between two steps loses it.
\<close>

theorem drainQueue_keeps:
  assumes "\<forall>r \<in> set rs. keeps_queue R v r \<and> unprocessed x r"
    and "watch_inv R v (snd ws)" "x \<in> rsets (v (snd ws)) pendingKey \<union> rsets (v (snd ws)) processingKey"
  shows "x \<in> rsets (v (snd (drainQueue R rs None ws))) pendingKey \<union>
    rsets (v (snd (drainQueue R rs None ws))) processingKey"
  using drain_keeps[OF assms(1), of ws None] assms(2,3) by (simp add: holds_def held_def)

section \<open>The processor keeps the queue\<close>

definition entity_cmds :: "cmd list \<Rightarrow> bool" where
  "entity_cmds cs \<longleftrightarrow> (\<forall>k \<in> set cs. entity_cmd k \<noteq> None)"

lemma entity_cmd_queue:
  "entity_cmd k \<noteq> None \<Longrightarrow> a_pending (cmd_spec k a) = a_pending a \<and> a_processing (cmd_spec k a) = a_processing a"
  by (auto simp: entity_cmd_def change_entity_def split: cmd.splits)

lemma entity_cmds_queue:
  "entity_cmds cs \<Longrightarrow> a_pending (fold cmd_spec cs a) = a_pending a \<and> a_processing (fold cmd_spec cs a) = a_processing a"
proof (induction cs arbitrary: a)
  case Nil
  then show ?case by simp
next
  case (Cons k cs)
  with entity_cmd_queue[of k a] show ?case by (simp add: entity_cmds_def)
qed

lemma batch_pipe_inv:
  assumes W: "wiki_utf8 W" and cj: "cjson_ok R" and p: "pipe_ok R p" "entity_cmds (p_cmds p)"
  shows "pipe_ok R (batch_pipe (batch_of W results qids) p) \<and> entity_cmds (p_cmds (batch_pipe (batch_of W results qids) p))"
proof -
  have u: "pipe_ok R (UpsertEntity r p) \<and> entity_cmds (p_cmds (UpsertEntity r p))"
    if "r \<in> set (sb_upserts (batch_of W results qids))" "pipe_ok R p \<and> entity_cmds (p_cmds p)" for r p
  proof -
    from that(1) obtain q where "r \<in> set (upsert_of W results q)" by (auto simp: batch_of_def sorted_batch)
    from upsert_ofD[OF this] extract_utf8[OF W] have "\<forall>e \<in> set (er_Mappings r). utf8_ok e" by auto
    from pipe_ok_upsert[OF _ cj this, of p] that(2) show ?thesis
      by (auto simp: UpsertEntity_def queue_def fail_def entity_cmds_def entity_cmd_def split: sum.splits option.splits)
  qed
  have d: "pipe_ok R (DeleteEntity q p) \<and> entity_cmds (p_cmds (DeleteEntity q p))"
    if "pipe_ok R p \<and> entity_cmds (p_cmds p)" for q p
    using that pipe_ok_ops(1)[of R p q]
    by (auto simp: DeleteEntity_def queue_def fail_def entity_cmds_def entity_cmd_def split: sum.splits)
  let ?I = "\<lambda>p. pipe_ok R p \<and> entity_cmds (p_cmds p)"
  have up: "?I (fold UpsertEntity (sb_upserts (batch_of W results qids)) p)"
    by (rule fold_invariant_set[of _ ?I], erule (1) u, rule conjI[OF p])
  show ?thesis
    unfolding batch_pipe_def by (rule fold_invariant_set[of _ ?I], erule d, rule up)
qed

text \<open>The processor of the code, with a client in some state, as one round of the queue has it.\<close>

definition processor ::
  "'s redis \<Rightarrow> wiki_json \<Rightarrow> (string \<Rightarrow> api_reply option) \<Rightarrow> fate \<Rightarrow> WikidataClient \<Rightarrow> string list \<Rightarrow> Writer \<times> 's \<Rightarrow>
   batch_result \<times> Writer \<times> 's" where
  "processor R W up f c qids ws = (case ProcessEntities R W up f qids (c, ws) of (res, _, ws') \<Rightarrow> (res, ws'))"

lemma processor_cases:
  "snd (processor R W up f c qids ws) = ws \<or>
     (\<exists>results. snd (processor R W up f c qids ws) = snd (run_pipe R f (batch_pipe (batch_of W results qids)) ws))"
proof (cases "qids = []")
  case True
  then show ?thesis by (simp add: processor_def ProcessEntities_def)
next
  case False
  obtain r c' where fr: "FetchEntitiesRaw W up qids c = (r, c')" by fastforce
  show ?thesis
  proof (cases r)
    case (Inl e)
    with False fr show ?thesis by (simp add: processor_def ProcessEntities_def)
  next
    case (Inr results)
    let ?b = "batch_of W results qids"
    obtain err ws' where rp: "run_pipe R f (batch_pipe ?b) ws = (err, ws')" by (metis surj_pair)
    have "snd (processor R W up f c qids ws) = (if sb_upserts ?b \<noteq> [] \<or> sb_deletes ?b \<noteq> [] then ws' else ws)"
      using False fr Inr rp by (cases err) (simp_all add: processor_def ProcessEntities_def batch_of_def Let_def)
    with rp show ?thesis by (metis snd_conv)
  qed
qed

lemma processor_keeps_queue:
  assumes W: "wiki_utf8 W" and cj: "cjson_ok R" and h: "watch_inv R v (snd ws)"
  shows "watch_inv R v (snd (snd (processor R W up f c qids ws))) \<and>
    held (v (snd (snd (processor R W up f c qids ws)))) = held (v (snd ws))"
  using processor_cases[of R W up f c qids ws]
proof (elim disjE exE)
  assume "snd (processor R W up f c qids ws) = ws"
  with h show ?thesis by simp
next
  fix results
  assume 2: "snd (processor R W up f c qids ws) = snd (run_pipe R f (batch_pipe (batch_of W results qids)) ws)"
  let ?b = "batch_pipe (batch_of W results qids)" and ?new = "\<lparr>p_err = None, p_cmds = []\<rparr>"
  have R: "redis_ok R v" "index_ok R (v (snd ws))" using h by (simp_all add: watch_inv_def queue_inv_def)
  have ok: "pipe_ok R (?b ?new)" "entity_cmds (p_cmds (?b ?new))"
    using batch_pipe_inv[OF W cj new_pipe_ok, of results qids] by (simp_all add: entity_cmds_def)
  have st: "p_err (?b p) = Some e" if "p_err p = Some e" for p e using that by (simp add: batch_pipe_def ops_keep_error)
  obtain ps where ps: "\<forall>p \<in> set ps. \<exists>n. p = take n (p_cmds (?b ?new))"
    "abstract (v (snd (snd (run_pipe R f ?b ws)))) = prefixes_spec ps (abstract (v (snd ws)))"
    "index_ok R (v (snd (snd (run_pipe R f ?b ws))))"
    by (rule run_pipe_refines[where f = f, OF R, of ?b]) (use st ok in auto)
  have t: "entity_cmds (take n (p_cmds (?b ?new)))" for n
    using ok(2) by (auto simp: entity_cmds_def dest: in_set_takeD)
  have "a_pending (prefixes_spec ps (abstract (v (snd ws)))) = rsets (v (snd ws)) pendingKey \<and>
      a_processing (prefixes_spec ps (abstract (v (snd ws)))) = rsets (v (snd ws)) processingKey"
    by (rule prefixes_keep[OF ps(1)]) (use entity_cmds_queue[OF t] in auto)
  then have "rsets (v (snd (snd (run_pipe R f ?b ws)))) pendingKey = rsets (v (snd ws)) pendingKey"
    "rsets (v (snd (snd (run_pipe R f ?b ws)))) processingKey = rsets (v (snd ws)) processingKey"
    unfolding ps(2)[symmetric] by simp_all
  with h ps(3) 2 show ?thesis by (simp add: watch_inv_def queue_inv_def held_def)
qed

section \<open>A change that arrives during the fetch\<close>

lemma qid_members_ids: "\<forall>n \<in> set ns. int64 n \<Longrightarrow> qid_members (map intToQid ns) = Inr (map FormatInt ns)"
  by (induction ns) simp_all

lemma ack_clean:
  assumes R: "redis_ok R v" and ids: "\<forall>n \<in> set ns. int64 n" and ne: "ns \<noteq> []"
    and f: "f_attempts f = []" "f_lost f = False" and w: "scriptsLoaded w"
    and run: "run_pipe R f (ack_pipe now Map.empty (map intToQid ns)) (w, s) = (err, w', s')"
  shows "rsets (v s') pendingKey = rsets (v s) pendingKey \<and>
    rsets (v s') processingKey = rsets (v s) processingKey - FormatInt ` set ns"
proof -
  have "fold (record_failure now Map.empty) (map intToQid ns) p = p" for p
    by (induction ns) (simp_all add: record_failure_def)
  then have "ack_pipe now Map.empty (map intToQid ns) \<lparr>p_err = None, p_cmds = []\<rparr> =
      \<lparr>p_err = None, p_cmds = [SRem processingKey (map FormatInt ns)]\<rparr>"
    using ids ne by (simp add: ack_pipe_def AckProcessedEntities_def qid_members_ids queue_def)
  then have "s' = fold (r_srem R processingKey) (map FormatInt ns) s"
    using run w f ne by (simp add: run_pipe_def NewPipe_def loadScripts_def Exec_def broken_attempts_def)
  then show ?thesis by (simp add: view_fold_srem[OF R])
qed

text \<open>
  Claim C38: \<open>drainQueue\<close> loses changes: if all entities of a full batch change again while the batch is
  being fetched, they are claimed once more for the fetch ahead, and the acknowledgement of the
  first batch takes them out of the processing set; a crash before the second fetch is done
  leaves them in neither set, although the changes that put them there were never processed.
\<close>

theorem drainQueue_loses_rearrival:
  assumes inv: "watch_inv R v s" and w: "scriptsLoaded w"
    and start: "rsets (v s) pendingKey = A" "rsets (v s) processingKey = {}" "card A = 50"
    and ids: "\<forall>m \<in> A. \<exists>n. int64 n \<and> m = FormatInt n"
    and r1: "\<not> dr_cancelled r1" "dr_claim r1 = Answered" "dr_others r1 = id"
    and r2: "\<not> dr_cancelled r2" "dr_claim r2 = Answered" "f_attempts (dr_fate r2) = []" "\<not> f_lost (dr_fate r2)"
    and again: "\<forall>s. watch_inv R v s \<longrightarrow> queue_inv R v (dr_others r2 s) \<and> rsets (v (dr_others r2 s)) pendingKey = A \<and>
      rsets (v (dr_others r2 s)) processingKey = rsets (v s) processingKey"
    and process: "\<forall>qids s. \<exists>s'. dr_process r2 qids (w, s) = (Inr Map.empty, w, s') \<and>
      rsets (v s') pendingKey = rsets (v s) pendingKey \<and> rsets (v s') processingKey = rsets (v s) processingKey"
  shows "rsets (v (snd (drainQueue R [r1, r2] None (w, s)))) pendingKey \<union>
    rsets (v (snd (drainQueue R [r1, r2] None (w, s)))) processingKey = {}"
proof -
  have R: "redis_ok R v" and q: "queue_inv R v s" using inv by (simp_all add: watch_inv_def queue_inv_def)
  have full: "\<exists>ns s'. ClaimPendingBatch R Answered retryBatchSize t = (Inr (map intToQid ns), s') \<and> length ns = 50 \<and>
      (\<forall>n \<in> set ns. int64 n) \<and> FormatInt ` set ns = A \<and> rsets (v s') pendingKey = {} \<and>
      rsets (v s') processingKey = rsets (v t) processingKey \<union> A"
    if t: "queue_inv R v t" "rsets (v t) pendingKey = A" for t
  proof -
    obtain xs s1 where c: "claimScript R pendingKey processingKey 50 t = (xs, s1)" by fastforce
    note law = queue_claim[OF t(1) c]
    have fin: "finite A" using t by (simp add: queue_inv_def)
    have "set xs \<subseteq> A" "card (set xs) = card A" using law t start(3) by (auto simp: distinct_card)
    then have xs: "set xs = A" using fin by (metis card_subset_eq)
    obtain ns where ns: "parse_members xs = map intToQid ns" "xs = map FormatInt ns" "\<forall>n \<in> set ns. int64 n"
      using parse_members_ids[of xs] ids xs by metis
    have "length ns = 50" using law t start(3) ns(2) by simp
    with ns xs law t c show ?thesis
      by (intro exI[of _ ns] exI[of _ s1]) (simp add: ClaimPendingBatch_def retryBatchSize_def)
  qed
  obtain ns1 s1 where c1: "ClaimPendingBatch R Answered retryBatchSize s = (Inr (map intToQid ns1), s1)"
    "length ns1 = 50" "\<forall>n \<in> set ns1. int64 n" "FormatInt ` set ns1 = A" "rsets (v s1) pendingKey = {}"
    "rsets (v s1) processingKey = A"
    using full[OF q start(1)] start(2) by auto
  have inv1: "watch_inv R v s1"
  proof -
    obtain m where m: "m \<in> A" using start(3) by fastforce
    then have "holds R v m s" using inv start(1) by (simp add: holds_def held_def)
    from claim_keeps[OF this c1(1)] show ?thesis by (simp add: holds_def)
  qed
  let ?s2 = "dr_others r2 s1"
  have s2: "queue_inv R v ?s2" "rsets (v ?s2) pendingKey = A" "rsets (v ?s2) processingKey = A"
    using again inv1 c1(6) by auto
  obtain ns2 s3 where c2: "ClaimPendingBatch R Answered retryBatchSize ?s2 = (Inr (map intToQid ns2), s3)"
    "length ns2 = 50" "rsets (v s3) pendingKey = {}" "rsets (v s3) processingKey = A"
    using full[OF s2(1,2)] s2(3) by auto
  obtain s4 where p: "dr_process r2 (map intToQid ns1) (w, s3) = (Inr Map.empty, w, s4)"
    "rsets (v s4) pendingKey = {}" "rsets (v s4) processingKey = A"
    using process c2(3,4) by metis
  obtain err w' s5 where a: "run_pipe R (dr_fate r2) (ack_pipe (dr_clock r2) Map.empty (map intToQid ns1)) (w, s4) = (err, w', s5)"
    by (metis surj_pair)
  have ne: "ns1 \<noteq> []" "ns2 \<noteq> []" using c1(2) c2(2) by auto
  from ack_clean[OF R c1(3) ne(1) r2(3) _ w a] r2(4) p c1(4)
  have "rsets (v s5) pendingKey = {}" "rsets (v s5) processingKey = {}" by simp_all
  moreover have "drainQueue R [r1, r2] None (w, s) = (w', s5)"
    using r1 r2(1,2) c1(1,2) c2(1,2) p(1) a ne
    by (simp add: receive_batch_def handleBatchResult_def) (simp add: retryBatchSize_def)
  ultimately show ?thesis by simp
qed

section \<open>Witnesses\<close>

definition idle_round :: "content drain_round" where
  "idle_round = \<lparr>dr_cancelled = False, dr_others = id, dr_claim = Answered,
     dr_process = processor mem_redis plain_json (\<lambda>_. None) good_fate fresh_client,
     dr_fate = good_fate, dr_fate2 = good_fate, dr_clock = (\<lambda>_. (''now'', 0))\<rparr>"

lemma example_queue_watch: "watch_inv mem_redis id example_queue"
proof -
  have "index_ok mem_redis example_queue" by (simp add: example_queue_def set_frame example_index)
  with example_queue_inv(1) show ?thesis by (simp add: watch_inv_def)
qed

theorem drainQueue_keeps_witness:
  "FormatInt 42 \<in> rsets (snd (drainQueue mem_redis [idle_round, idle_round] None (\<lparr>scriptsLoaded = True\<rparr>, example_queue))) pendingKey \<union>
     rsets (snd (drainQueue mem_redis [idle_round, idle_round] None (\<lparr>scriptsLoaded = True\<rparr>, example_queue))) processingKey"
proof -
  have W: "wiki_utf8 plain_json" by (simp add: wiki_utf8_def plain_json_def utf8_ok_ascii)
  have k: "keeps_queue mem_redis id idle_round"
    using processor_keeps_queue[OF W mem_cjson_ok, where v = id] by (simp add: keeps_queue_def idle_round_def)
  have u: "unprocessed (FormatInt 42) idle_round"
    by (auto simp: unprocessed_def idle_round_def processor_def ProcessEntities_def FetchEntitiesRaw_def eids_def
        split: if_splits)
  have "FormatInt 42 \<in> rsets (id (snd (\<lparr>scriptsLoaded = True\<rparr>, example_queue))) pendingKey \<union>
      rsets (id (snd (\<lparr>scriptsLoaded = True\<rparr>, example_queue))) processingKey"
    by (simp add: example_queue_def)
  then show ?thesis
    using drainQueue_keeps[of "[idle_round, idle_round]" mem_redis id "FormatInt 42" "(\<lparr>scriptsLoaded = True\<rparr>, example_queue)"]
      k u example_queue_watch by simp
qed

definition fifty :: "string set" where
  "fifty = FormatInt ` {1..50}"

definition busy_round :: "content drain_round" where
  "busy_round = idle_round\<lparr>dr_others := put_set pendingKey fifty, dr_process := (\<lambda>qids ws. (Inr Map.empty, ws))\<rparr>"

theorem drainQueue_loses_rearrival_witness:
  "rsets (snd (drainQueue mem_redis [idle_round, busy_round] None
       (\<lparr>scriptsLoaded = True\<rparr>, put_set pendingKey fifty no_content))) pendingKey = {} \<and>
   FormatInt 7 \<in> rsets (dr_others busy_round no_content) pendingKey"
proof -
  have small: "int64 n" if "n \<in> {1..50}" for n using that by (auto simp: int64_def)
  have "inj_on FormatInt {1..50}" by (rule inj_onI) (metis ParseInt_FormatInt small prod.inject)
  then have card: "card fifty = 50" by (simp add: fifty_def card_image)
  have fin: "finite fifty" by (simp add: fifty_def)
  have inv: "watch_inv mem_redis id (put_set pendingKey fifty no_content)"
    using fin by (simp add: watch_inv_def queue_inv_def mem_redis_ok set_frame example_index)
  have ids: "\<forall>m \<in> fifty. \<exists>n. int64 n \<and> m = FormatInt n" using small unfolding fifty_def by blast
  have again: "\<forall>s. watch_inv mem_redis id s \<longrightarrow> queue_inv mem_redis id (dr_others busy_round s) \<and>
      rsets (id (dr_others busy_round s)) pendingKey = fifty \<and>
      rsets (id (dr_others busy_round s)) processingKey = rsets (id s) processingKey"
    using fin by (simp add: busy_round_def watch_inv_def queue_inv_def key_defs)
  have seven: "FormatInt 7 \<in> fifty" by (simp add: fifty_def)
  show ?thesis
    using drainQueue_loses_rearrival[OF inv _ _ _ card ids _ _ _ _ _ _ _ again,
        of "\<lparr>scriptsLoaded = True\<rparr>" idle_round] seven
    by (simp add: busy_round_def idle_round_def good_fate_def)
qed

end
