(* ===== verification/ReplicaSnapshot.thy ===== *)
theory ReplicaSnapshot
  imports SnapshotGen Replica Processor
begin

text \<open>
  The snapshot from end to end: the text that the generator writes, read by a client. A snapshot
  is a list of items (entities and checkpoints); reading it applies its entities in order, and
  every checkpoint carries the number of entities before it, so the client's own count agrees
  with the file whichever checkpoint it resumed from.
\<close>

section \<open>Items and their lines\<close>

datatype snap_item = Ent int string | Check int int

fun item_line :: "json_codec \<Rightarrow> snap_item \<Rightarrow> string" where
  "item_line J (Ent q m) = entity_line (q, m)"
| "item_line J (Check o' n) = marshal_checkpoint J (checkpoint_of (o', n))"

fun ents :: "snap_item list \<Rightarrow> (int \<times> string) list" where
  "ents [] = []"
| "ents (Ent q m # its) = (q, m) # ents its"
| "ents (Check o' n # its) = ents its"

lemma ents_append [simp]: "ents (xs @ ys) = ents xs @ ents ys"
  by (induction xs rule: ents.induct) simp_all

definition put_ent :: "int \<times> string \<Rightarrow> (string \<Rightarrow> string option) \<Rightarrow> string \<Rightarrow> string option" where
  "put_ent = (\<lambda>(q, m) E. E(FormatInt q \<mapsto> m))"

definition ent_ok :: "'s redis \<Rightarrow> int \<times> string \<Rightarrow> bool" where
  "ent_ok R = (\<lambda>(q, m). 0 \<le> q \<and> int64 q \<and> mappings_ok R m \<and> line_fits snapshotBufferSize (entity_line (q, m)))"

text \<open>The checkpoints of the items agree with a count that starts at \<open>n\<close>.\<close>

fun counted :: "'s redis \<Rightarrow> json_codec \<Rightarrow> int \<Rightarrow> snap_item list \<Rightarrow> bool" where
  "counted R J n [] \<longleftrightarrow> True"
| "counted R J n (Ent q m # its) \<longleftrightarrow> ent_ok R (q, m) \<and> counted R J (n + 1) its"
| "counted R J n (Check o' k # its) \<longleftrightarrow>
     k = n \<and> count_pair (o', k) \<and> line_fits snapshotBufferSize (item_line J (Check o' k)) \<and> counted R J n its"

section \<open>A batch of entities\<close>

definition raw_rec :: "int \<times> string \<Rightarrow> RawEntityRecord" where
  "raw_rec = (\<lambda>(q, m). \<lparr>rr_WikidataID = intToQid q, rr_RawMappings = m\<rparr>)"

definition raw_cmd :: "int \<times> string \<Rightarrow> cmd" where
  "raw_cmd = (\<lambda>(q, m). RunUpsert m (FormatInt q))"

lemma mappings_ok_nonempty: "mappings_ok R m \<Longrightarrow> m \<noteq> []"
  by (auto simp: mappings_ok_def)

lemma raw_queued:
  "p_err p = None \<Longrightarrow> \<forall>x \<in> set xs. ent_ok R x \<Longrightarrow>
   fold UpsertRawEntity (map raw_rec xs) p = p\<lparr>p_cmds := p_cmds p @ map raw_cmd xs\<rparr>"
proof (induction xs arbitrary: p)
  case Nil
  then show ?case by simp
next
  case (Cons x xs)
  then have "UpsertRawEntity (raw_rec x) p = p\<lparr>p_cmds := p_cmds p @ [raw_cmd x]\<rparr>"
    by (cases x) (auto simp: UpsertRawEntity_def raw_rec_def raw_cmd_def queue_def ent_ok_def mappings_ok_def)
  with Cons show ?case by simp
qed

lemma raw_sticky: "p_err p = Some e \<Longrightarrow> p_err (fold UpsertRawEntity rs p) = Some e"
  by (induction rs) (simp_all add: UpsertRawEntity_def)

lemma raw_entities: "a_entities (fold cmd_spec (map raw_cmd xs) a) = fold put_ent xs (a_entities a)"
  by (induction xs arbitrary: a) (auto simp: raw_cmd_def put_ent_def change_entity_entities)

lemma put_ent_agree:
  "\<forall>eid. eid \<notin> (\<lambda>(q, m). FormatInt q) ` set xs \<longrightarrow> E eid = E' eid \<Longrightarrow> fold put_ent xs E = fold put_ent xs E'"
proof (induction xs arbitrary: E E')
  case Nil
  then show ?case by auto
next
  case (Cons x xs)
  obtain q m where x: "x = (q, m)" by fastforce
  have "fold put_ent xs (put_ent x E) = fold put_ent xs (put_ent x E')"
    by (rule Cons.IH) (use Cons.prems in \<open>auto simp: x put_ent_def\<close>)
  then show ?case by simp
qed

lemma put_ents_outside: "eid \<notin> (\<lambda>(q, m). FormatInt q) ` set xs \<Longrightarrow> fold put_ent xs E eid = E eid"
  by (induction xs arbitrary: E) (auto simp: put_ent_def split: prod.splits)

text \<open>Parts of a batch that were applied before make no difference once it is applied in full.\<close>

lemma raw_prefixes:
  "a_entities (prefixes_spec (map (\<lambda>n. take n (map raw_cmd xs)) ns @ [map raw_cmd xs]) a) = fold put_ent xs (a_entities a)"
proof -
  let ?touched = "(\<lambda>(q, m). FormatInt q) ` set xs"
  have part: "\<forall>eid. eid \<notin> ?touched \<longrightarrow>
      a_entities (prefixes_spec (map (\<lambda>n. take n (map raw_cmd xs)) ns) a) eid = a_entities a eid"
  proof (induction ns arbitrary: a)
    case Nil
    then show ?case by (simp add: prefixes_spec_def)
  next
    case (Cons n ns)
    have "a_entities (fold cmd_spec (take n (map raw_cmd xs)) a) eid = a_entities a eid" if "eid \<notin> ?touched" for eid
      unfolding take_map raw_entities by (rule put_ents_outside) (use that in \<open>auto dest: in_set_takeD\<close>)
    with Cons show ?case by (simp add: prefixes_spec_def)
  qed
  have "a_entities (prefixes_spec (map (\<lambda>n. take n (map raw_cmd xs)) ns @ [map raw_cmd xs]) a) =
      fold put_ent xs (a_entities (prefixes_spec (map (\<lambda>n. take n (map raw_cmd xs)) ns) a))"
    by (simp add: prefixes_spec_def raw_entities)
  also have "\<dots> = fold put_ent xs (a_entities a)" using put_ent_agree[OF part] .
  finally show ?thesis .
qed

lemma put_pipe:
  assumes R: "redis_ok R v" and c: "index_ok R (v (snd ws))" and st: "\<And>p e. p_err p = Some e \<Longrightarrow> p_err (build p) = Some e"
    and p: "build \<lparr>p_err = None, p_cmds = []\<rparr> = \<lparr>p_err = None, p_cmds = map raw_cmd xs\<rparr>"
    and ok: "\<forall>x \<in> set xs. cmd_ok R (raw_cmd x)" and ne: "xs \<noteq> []"
    and run: "run_pipe R f build ws = (None, ws')"
  shows "index_ok R (v (snd ws')) \<and> entities (v (snd ws')) = fold put_ent xs (entities (v (snd ws)))"
proof -
  let ?new = "\<lparr>p_err = None, p_cmds = []\<rparr>"
  obtain w' t where ws': "ws' = (w', t)" by fastforce
  have "p_cmds (build ?new) \<noteq> []" "p_err (build ?new) = None" unfolding p using ne by simp_all
  from run_pipe_ok[where build = build, OF st run[unfolded ws'] this]
  have t: "t = snd (Exec R (f_attempts f) False (build ?new) (snd ws))" by simp
  have "\<forall>k \<in> set (p_cmds (build ?new)). cmd_ok R k" unfolding p using ok by auto
  note ref = Exec_refines[OF R c this, of "f_attempts f" False, folded t]
  have "a_entities (abstract (v t)) = fold put_ent xs (a_entities (abstract (v (snd ws))))"
    unfolding ref(1) exec_prefixes_def p using raw_prefixes by simp
  with ref(2) show ?thesis by (simp add: ws')
qed

lemma flush_raw:
  assumes R: "redis_ok R v" and c: "index_ok R (v (snd ws))" and ok: "\<forall>x \<in> set xs. ent_ok R x" and ne: "xs \<noteq> []"
    and run: "run_pipe R f (fold UpsertRawEntity (map raw_rec xs)) ws = (None, ws')"
  shows "index_ok R (v (snd ws')) \<and> entities (v (snd ws')) = fold put_ent xs (entities (v (snd ws)))"
proof -
  have p: "fold UpsertRawEntity (map raw_rec xs) \<lparr>p_err = None, p_cmds = []\<rparr> = \<lparr>p_err = None, p_cmds = map raw_cmd xs\<rparr>"
    using raw_queued[OF _ ok, of "\<lparr>p_err = None, p_cmds = []\<rparr>"] by simp
  have "\<forall>x \<in> set xs. cmd_ok R (raw_cmd x)" using ok by (auto simp: raw_cmd_def ent_ok_def)
  from put_pipe[where build = "fold UpsertRawEntity (map raw_rec xs)", OF R c raw_sticky p this ne run] show ?thesis .
qed

section \<open>Pipes that only set metadata\<close>

definition meta_cmds :: "cmd list \<Rightarrow> bool" where
  "meta_cmds cs \<longleftrightarrow> (\<forall>k \<in> set cs. (\<exists>f x. k = HSet metaKey f x) \<or> (\<exists>fs. k = HDel metaKey fs))"

lemma meta_cmds_entities: "meta_cmds cs \<Longrightarrow> a_entities (fold cmd_spec cs a) = a_entities a"
proof (induction cs arbitrary: a)
  case Nil
  then show ?case by simp
next
  case (Cons k cs)
  then have "a_entities (cmd_spec k a) = a_entities a" by (auto simp: meta_cmds_def)
  with Cons show ?case by (simp add: meta_cmds_def)
qed

lemma meta_pipe_keeps:
  assumes R: "redis_ok R v" and c: "index_ok R (v (snd ws))"
    and st: "\<And>p e. p_err p = Some e \<Longrightarrow> p_err (build p) = Some e"
    and m: "meta_cmds (p_cmds (build \<lparr>p_err = None, p_cmds = []\<rparr>))"
  shows "index_ok R (v (snd (snd (run_pipe R f build ws)))) \<and>
    entities (v (snd (snd (run_pipe R f build ws)))) = entities (v (snd ws))"
proof -
  let ?cs = "p_cmds (build \<lparr>p_err = None, p_cmds = []\<rparr>)"
  have "pipe_ok R (build \<lparr>p_err = None, p_cmds = []\<rparr>)" using m by (auto simp: pipe_ok_def meta_cmds_def)
  then obtain ps where ps: "\<forall>p \<in> set ps. \<exists>n. p = take n ?cs"
    "abstract (v (snd (snd (run_pipe R f build ws)))) = prefixes_spec ps (abstract (v (snd ws)))"
    "index_ok R (v (snd (snd (run_pipe R f build ws))))"
    by - (rule run_pipe_refines[where f = f, OF R c, of build], use st in auto)
  have t: "meta_cmds (take n ?cs)" for n using m by (auto simp: meta_cmds_def dest: in_set_takeD)
  have "a_entities (prefixes_spec ps (abstract (v (snd ws)))) = entities (v (snd ws))"
    by (rule prefixes_keep[OF ps(1)]) (use meta_cmds_entities[OF t] in auto)
  then have "a_entities (abstract (v (snd (snd (run_pipe R f build ws))))) = entities (v (snd ws))"
    unfolding ps(2) .
  with ps(3) show ?thesis by simp
qed

lemmas pipe_queues = SetSyncState_def DelSyncStates_def queue_def

lemma snap_pipes:
  "meta_cmds (p_cmds (checkpoint_pipe cp \<lparr>p_err = None, p_cmds = []\<rparr>))"
  "meta_cmds (p_cmds (start_pipe etag o' n \<lparr>p_err = None, p_cmds = []\<rparr>))"
  "p_err p = Some e \<Longrightarrow> p_err (checkpoint_pipe cp p) = Some e"
  "p_err p = Some e \<Longrightarrow> p_err (start_pipe etag o' n p) = Some e"
  "p_err p = Some e \<Longrightarrow> p_err (done_pipe i n p) = Some e"
  by (simp_all add: checkpoint_pipe_def start_pipe_def done_pipe_def pipe_queues meta_cmds_def)

lemma done_cmds:
  "done_pipe i n \<lparr>p_err = None, p_cmds = []\<rparr> = \<lparr>p_err = None, p_cmds =
     [HSet metaKey ''last_replicated_id'' i, HSet metaKey ''state'' ''streaming'',
      HSet metaKey ''schema_version'' SchemaVersion, HSet metaKey ''entity_count'' (FormatInt n),
      HDel metaKey [''snapshot_etag'', ''snapshot_resume_offset'', ''snapshot_resume_entities'',
        ''snapshot_entities_applied'', ''snapshot_entities_per_frame'']]\<rparr>"
  by (simp add: done_pipe_def pipe_queues)

text \<open>What the metadata says after a snapshot.\<close>

definition settled :: "string \<Rightarrow> astore \<Rightarrow> bool" where
  "settled i a \<longleftrightarrow> a_sync a ''last_replicated_id'' = Some i \<and> a_sync a ''state'' = Some ''streaming'' \<and>
     a_sync a ''schema_version'' = Some SchemaVersion \<and> a_sync a ''snapshot_etag'' = None \<and>
     a_sync a ''snapshot_resume_offset'' = None"

lemma done_run:
  assumes R: "redis_ok R v" and c: "index_ok R (v (snd ws))"
    and run: "run_pipe R f (done_pipe i n) ws = (None, ws')"
  shows "index_ok R (v (snd ws')) \<and> entities (v (snd ws')) = entities (v (snd ws)) \<and> settled i (abstract (v (snd ws')))"
proof -
  let ?new = "\<lparr>p_err = None, p_cmds = []\<rparr>"
  have m: "meta_cmds (p_cmds (done_pipe i n ?new))" unfolding done_cmds by (simp add: meta_cmds_def)
  have k: "index_ok R (v (snd ws')) \<and> entities (v (snd ws')) = entities (v (snd ws))"
    using meta_pipe_keeps[where build = "done_pipe i n", OF R c snap_pipes(5) m, of f] run by simp
  obtain w' t where ws': "ws' = (w', t)" by fastforce
  have ok: "\<forall>k \<in> set (p_cmds (done_pipe i n ?new)). cmd_ok R k" unfolding done_cmds by simp
  from run_pipe_ok[where build = "done_pipe i n", OF snap_pipes(5) run[unfolded ws']]
  have "t = snd (Exec R (f_attempts f) False (done_pipe i n ?new) (snd ws))" by (simp add: done_cmds)
  from Exec_refines(1)[OF R c ok, of "f_attempts f" False, folded this]
  have "\<exists>b. abstract (v t) = fold cmd_spec (p_cmds (done_pipe i n ?new)) b"
    by (auto simp: exec_prefixes_def prefixes_spec_def done_cmds)
  then have "settled i (abstract (v t))" by (auto simp: done_cmds settled_def simp del: abstract_sel)
  with k show ?thesis by (simp add: ws')
qed

section \<open>Reading the lines\<close>

definition reading :: "'s redis \<Rightarrow> ('s \<Rightarrow> content) \<Rightarrow> (string \<Rightarrow> string option) \<Rightarrow> snap_item list \<Rightarrow> 's snap_state \<Rightarrow> bool" where
  "reading R v E its st \<longleftrightarrow> index_ok R (v (snd (sn_ws st))) \<and> \<not> sn_done st \<and>
     (\<exists>xs. sn_batch st = map raw_rec xs \<and> (\<forall>x \<in> set xs. ent_ok R x) \<and>
        fold put_ent xs (entities (v (snd (sn_ws st)))) = fold put_ent (ents its) E \<and>
        sn_applied st + int (length xs) = int (length (ents its)))"

lemma flush_reading:
  assumes R: "redis_ok R v" and r: "reading R v E its st" and run: "flushBatch R st = (None, st')"
  shows "reading R v E its st' \<and> sn_batch st' = [] \<and> sn_applied st' = int (length (ents its)) \<and>
    entities (v (snd (sn_ws st'))) = fold put_ent (ents its) E"
proof -
  obtain xs where xs: "index_ok R (v (snd (sn_ws st)))" "\<not> sn_done st" "sn_batch st = map raw_rec xs"
    "\<forall>x \<in> set xs. ent_ok R x" "fold put_ent xs (entities (v (snd (sn_ws st)))) = fold put_ent (ents its) E"
    "sn_applied st + int (length xs) = int (length (ents its))"
    using r by (auto simp: reading_def)
  show ?thesis
  proof (cases "xs = []")
    case True
    with xs run show ?thesis by (auto simp: flushBatch_def reading_def)
  next
    case False
    obtain err ws' where p: "run_pipe R (fst (next_fate (sn_fates st))) (fold UpsertRawEntity (map raw_rec xs)) (sn_ws st) = (err, ws')"
      by (metis surj_pair)
    have none: "err = None" using run p False xs(3) by (cases err) (simp_all add: flushBatch_def)
    then have st': "st' = st\<lparr>sn_ws := ws', sn_fates := snd (next_fate (sn_fates st)),
        sn_applied := sn_applied st + int (length xs), sn_batch := []\<rparr>"
      using run p False xs(3) by (auto simp: flushBatch_def)
    from flush_raw[OF R xs(1,4) False p[unfolded none]] xs(2,5,6) show ?thesis
      by (simp add: st' reading_def)
  qed
qed

lemma entity_line_class:
  assumes "0 \<le> q"
  shows "ClassifySnapshotLine (entity_line (q, m)) = LineEntity"
proof -
  obtain d ds where d: "FormatInt q = d # ds" by (meson FormatInt_nonempty neq_Nil_conv)
  then have "is_digit d" using FormatInt_nonneg_digits[OF assms] by simp
  moreover from this have "d \<noteq> CHR ''{''" by auto
  ultimately show ?thesis by (simp add: entity_line(1) d ClassifySnapshotLine_def)
qed

lemma entity_reading:
  assumes r: "reading R v E its st" and x: "ent_ok R (q, m)"
  shows "reading R v E (its @ [Ent q m]) (st\<lparr>sn_batch := sn_batch st @ [raw_rec (q, m)]\<rparr>)"
    and "snapshot_line R J base (item_line J (Ent q m)) st =
      (let st1 = st\<lparr>sn_batch := sn_batch st @ [raw_rec (q, m)]\<rparr> in
       if snapshotBatchSize \<le> length (sn_batch st1) then flushBatch R st1 else (None, st1))"
proof -
  obtain xs where xs: "sn_batch st = map raw_rec xs" "\<forall>x \<in> set xs. ent_ok R x"
    "fold put_ent xs (entities (v (snd (sn_ws st)))) = fold put_ent (ents its) E"
    "sn_applied st + int (length xs) = int (length (ents its))"
    and i: "index_ok R (v (snd (sn_ws st)))" "\<not> sn_done st"
    using r by (auto simp: reading_def)
  then show "reading R v E (its @ [Ent q m]) (st\<lparr>sn_batch := sn_batch st @ [raw_rec (q, m)]\<rparr>)"
    using x unfolding reading_def by (intro conjI exI[of _ "xs @ [(q, m)]"]) simp_all
  have "0 \<le> q" "int64 q" "m \<noteq> []" using x by (auto simp: ent_ok_def mappings_ok_def)
  then have "ParseSnapshotEntityLine (entity_line (q, m)) = Inr (q, m)" "ClassifySnapshotLine (entity_line (q, m)) = LineEntity"
    using entity_line_class[of q m] by (simp_all add: entity_line(1) parse_entity_line)
  with i(2) show "snapshot_line R J base (item_line J (Ent q m)) st =
      (let st1 = st\<lparr>sn_batch := sn_batch st @ [raw_rec (q, m)]\<rparr> in
       if snapshotBatchSize \<le> length (sn_batch st1) then flushBatch R st1 else (None, st1))"
    by (simp add: snapshot_line_def Let_def raw_rec_def)
qed

lemma line_reading:
  assumes R: "redis_ok R v" and J: "json_ok J" and r: "reading R v E its st"
    and ok: "counted R J (base + int (length (ents its))) [it]"
    and run: "snapshot_line R J base (item_line J it) st = (None, st')"
  shows "reading R v E (its @ [it]) st'"
proof (cases it)
  case (Ent q m)
  with ok have x: "ent_ok R (q, m)" by simp
  note e = entity_reading[OF r x]
  from run e(2)[of J base] have "flushBatch R (st\<lparr>sn_batch := sn_batch st @ [raw_rec (q, m)]\<rparr>) = (None, st') \<or>
      st' = st\<lparr>sn_batch := sn_batch st @ [raw_rec (q, m)]\<rparr>"
    by (auto simp: Ent Let_def split: if_splits)
  with e(1) flush_reading[OF R e(1)] show ?thesis by (auto simp: Ent)
next
  case (Check o' n)
  let ?line = "marshal_checkpoint J (checkpoint_of (o', n))"
  from ok Check have n: "n = base + int (length (ents its))" "count_pair (o', n)" by auto
  note j = json_ok_checkpoint[OF J n(2)]
  have "\<not> sn_done st" "ClassifySnapshotLine ?line = LineControl"
    using r j(1) by (simp_all add: reading_def json_line_def)
  then have cl: "control_line R J base ?line st = (None, st')" using run by (simp add: Check snapshot_line_def)
  obtain e st1 where fl: "flushBatch R st = (e, st1)" by fastforce
  have "e = None" using cl fl by (cases e) (simp_all add: control_line_def)
  note f = flush_reading[OF R r fl[unfolded this]]
  obtain e2 ws' where p: "run_pipe R (fst (next_fate (sn_fates st1))) (checkpoint_pipe (checkpoint_of (o', n))) (sn_ws st1) = (e2, ws')"
    by (metis surj_pair)
  have "cp_EntitiesBefore (checkpoint_of (o', n)) = n" by (simp add: checkpoint_of_def)
  then have st': "st' = st1\<lparr>sn_ws := ws', sn_fates := snd (next_fate (sn_fates st1))\<rparr>"
    using cl fl \<open>e = None\<close> j(2,3) n(1) f p by (simp add: control_line_def Let_def)
  have "index_ok R (v (snd (sn_ws st1)))" using f by (simp add: reading_def)
  from meta_pipe_keeps[where build = "checkpoint_pipe (checkpoint_of (o', n))", OF R this snap_pipes(3,1),
      of "fst (next_fate (sn_fates st1))"]
  have "index_ok R (v (snd ws'))" "entities (v (snd ws')) = entities (v (snd (sn_ws st1)))" by (simp_all add: p)
  with f show ?thesis by (simp add: reading_def st' Check)
qed

lemma lines_reading:
  assumes R: "redis_ok R v" and J: "json_ok J"
    and "reading R v E its st" "counted R J (base + int (length (ents its))) its2"
    and "for_each (snapshot_line R J base) (map (item_line J) its2 @ rest) st = (None, st')"
  shows "\<exists>st1. reading R v E (its @ its2) st1 \<and> for_each (snapshot_line R J base) rest st1 = (None, st')"
  using assms(3-)
proof (induction its2 arbitrary: its st)
  case Nil
  then show ?case by auto
next
  case (Cons it its2)
  obtain e st1 where s: "snapshot_line R J base (item_line J it) st = (e, st1)" by fastforce
  have "e = None" using Cons.prems(3) s by (cases e) simp_all
  have one: "counted R J (base + int (length (ents its))) [it]" "counted R J (base + int (length (ents (its @ [it])))) its2"
    using Cons.prems(2) by (cases it; simp add: algebra_simps)+
  from line_reading[OF R J Cons.prems(1) one(1) s[unfolded \<open>e = None\<close>]]
  have "reading R v E (its @ [it]) st1" .
  from Cons.IH[OF this one(2)] Cons.prems(3) s \<open>e = None\<close> show ?case by simp
qed

definition snapshot_text :: "json_codec \<Rightarrow> snap_item list \<Rightarrow> string \<times> int \<Rightarrow> string" where
  "snapshot_text J its dn = unlines (map (item_line J) its @ [marshal_done J (done_of dn)])"

lemma counted_fits: "counted R J n its \<Longrightarrow> \<forall>l \<in> set (map (item_line J) its). line_fits snapshotBufferSize l"
proof (induction its arbitrary: n)
  case Nil
  then show ?case by simp
next
  case (Cons it its)
  then show ?case by (cases it) (auto simp: ent_ok_def)
qed

lemma apply_reading:
  assumes R: "redis_ok R v" and J: "json_ok J" and c: "index_ok R (v (snd ws))"
    and its: "counted R J base its" and dn: "done_pair (i, n)" "line_fits snapshotBufferSize (marshal_done J (done_of (i, n)))"
    and run: "apply_snapshot R J base (snapshot_text J its (i, n), read_error) fates ws = (Inr out, ws')"
  shows "out = i \<and> \<not> read_error \<and> n = base + int (length (ents its)) \<and> index_ok R (v (snd ws')) \<and>
    entities (v (snd ws')) = fold put_ent (ents its) (entities (v (snd ws))) \<and> settled i (abstract (v (snd ws')))"
proof -
  let ?st0 = "\<lparr>sn_batch = [], sn_applied = 0, sn_done = False, sn_id = [], sn_ws = ws, sn_fates = fates\<rparr>"
  let ?dl = "marshal_done J (done_of (i, n))"
  have "\<forall>l \<in> set (map (item_line J) its @ [?dl]). line_fits snapshotBufferSize l"
    using counted_fits[OF its] dn(2) by auto
  then have scan: "scan_lines snapshotBufferSize (snapshot_text J its (i, n)) = (map (item_line J) its @ [?dl], False)"
    unfolding snapshot_text_def by (rule scan_unlines)
  obtain e st where fe: "for_each (snapshot_line R J base) (map (item_line J) its @ [?dl]) ?st0 = (e, st)" by fastforce
  have e: "e = None" using run scan fe by (cases e) (auto simp: apply_snapshot_def)
  have start: "reading R v (entities (v (snd ws))) [] ?st0" using c by (simp add: reading_def)
  from lines_reading[OF R J start _ fe[unfolded e]] its obtain st1 where
    st1: "reading R v (entities (v (snd ws))) its st1" "for_each (snapshot_line R J base) [?dl] st1 = (None, st)" by auto
  note jd = json_ok_done[OF J dn(1)]
  have cl: "control_line R J base ?dl st1 = (None, st)"
    using st1 jd(1) by (auto simp: snapshot_line_def reading_def json_line_def split: prod.splits option.splits)
  obtain e2 st2 where fl: "flushBatch R st1 = (e2, st2)" by fastforce
  have e2: "e2 = None" using cl fl by (cases e2) (simp_all add: control_line_def)
  note f = flush_reading[OF R st1(1) fl[unfolded e2]]
  have st: "n = base + int (length (ents its))" "st = st2\<lparr>sn_id := i, sn_done := True\<rparr>"
    using cl fl e2 jd(2,3) f
    by (auto simp: control_line_def Let_def SnapshotControlTypeDone_def SnapshotControlTypeCheckpoint_def done_of_def split: if_splits)
  obtain e3 ws3 where p: "run_pipe R (fst (next_fate (sn_fates st2))) (done_pipe i (base + sn_applied st2)) (sn_ws st2) = (e3, ws3)"
    by (metis surj_pair)
  have "flushBatch R st = (None, st)" using f by (simp add: flushBatch_def st(2))
  then have res: "apply_snapshot R J base (snapshot_text J its (i, n), read_error) fates ws =
      (if read_error then (Inl ScanFailed, sn_ws st) else (case e3 of Some e \<Rightarrow> (Inl (StoreFailed ''set metadata'' e), ws3) | None \<Rightarrow> (Inr i, ws3)))"
    using scan fe e p by (simp add: apply_snapshot_def st(2) split: option.splits)
  with run have out: "out = i" "\<not> read_error" "e3 = None" "ws' = ws3"
    by (auto split: if_splits option.splits)
  have "index_ok R (v (snd (sn_ws st2)))" using f by (simp add: reading_def)
  from done_run[OF R this p[unfolded out(3)]] f st(1) out show ?thesis by simp
qed

section \<open>A connection that holds\<close>

text \<open>
  With nothing going wrong on the connection every step succeeds. What the server could still
  refuse is to count an entity; the counter has room if the total is far from \<open>2 ^ 63\<close>.
\<close>

definition room :: "('s \<Rightarrow> content) \<Rightarrow> 's \<Rightarrow> nat \<Rightarrow> bool" where
  "room v s n \<longleftrightarrow> count_ok (v s) \<and> entity_total (v s) + int n + 16 < 2 ^ 63"

lemma good_pipe:
  assumes "p_err (build \<lparr>p_err = None, p_cmds = []\<rparr>) = None"
    and "first_error (fst (run_cmds R (p_cmds (build \<lparr>p_err = None, p_cmds = []\<rparr>)) (snd ws))) = None"
  shows "\<exists>w. run_pipe R good_fate build ws =
    (None, w, snd (run_cmds R (p_cmds (build \<lparr>p_err = None, p_cmds = []\<rparr>)) (snd ws)))"
proof -
  obtain w where "NewPipe (f_loads good_fate) (fst ws) = (\<lparr>p_err = None, p_cmds = []\<rparr>, w)"
    by (cases "scriptsLoaded (fst ws)") (simp_all add: NewPipe_def loadScripts_def good_fate_def numeral_3_eq_3)
  with assms show ?thesis
    by (cases "run_cmds R (p_cmds (build \<lparr>p_err = None, p_cmds = []\<rparr>)) (snd ws)")
      (auto simp: run_pipe_def Exec_def good_fate_def broken_attempts_def)
qed

lemma first_error_cmds:
  "first_error (fst (run_cmds R [] s)) = None"
  "first_error (fst (run_cmds R (k # cs) s)) = None \<longleftrightarrow>
     fst (exec_cmd R k s) = None \<and> first_error (fst (run_cmds R cs (snd (exec_cmd R k s)))) = None"
proof -
  show "first_error (fst (run_cmds R [] s)) = None" by simp
  show "first_error (fst (run_cmds R (k # cs) s)) = None \<longleftrightarrow>
     fst (exec_cmd R k s) = None \<and> first_error (fst (run_cmds R cs (snd (exec_cmd R k s)))) = None"
    by (cases "exec_cmd R k s"; cases "fst (exec_cmd R k s)") (auto simp: Let_def split: prod.splits)
qed

lemma meta_replies:
  "\<forall>k \<in> set cs. (\<exists>f x. k = HSet metaKey f x) \<or> (\<exists>fs. k = HDel metaKey fs \<and> fs \<noteq> []) \<Longrightarrow>
   first_error (fst (run_cmds R cs s)) = None"
proof (induction cs arbitrary: s)
  case Nil
  then show ?case by simp
next
  case (Cons k cs)
  then have "fst (exec_cmd R k s) = None" by auto
  with Cons show ?case by (simp add: first_error_cmds del: run_cmds.simps)
qed

lemma upsert_replies:
  assumes R: "redis_ok R v" and "index_ok R (v s)" "\<forall>x \<in> set xs. cmd_ok R (raw_cmd x)" "room v s (length xs + n)"
  shows "first_error (fst (run_cmds R (map raw_cmd xs) s)) = None \<and> room v (snd (run_cmds R (map raw_cmd xs) s)) n"
  using assms(2-)
proof (induction xs arbitrary: s)
  case Nil
  then show ?case by simp
next
  case (Cons x xs)
  obtain q m where x: "x = (q, m)" by fastforce
  have ok: "cmd_ok R (raw_cmd x)" "counts_alone (raw_cmd x)" using Cons.prems(2) by (auto simp: x raw_cmd_def)
  have r: "count_ok (v s)" "entity_total (v s) + 1 < 2 ^ 63" using Cons.prems(3) by (simp_all add: room_def)
  let ?s' = "snd (exec_cmd R (raw_cmd x) s)"
  have "room v ?s' (length xs + n)"
    using exec_cmd_counts[OF R Cons.prems(1) ok r] Cons.prems(3) by (simp add: room_def)
  moreover have "index_ok R (v ?s')" using exec_cmd_refines[OF R Cons.prems(1) ok(1)] by blast
  ultimately have rest: "first_error (fst (run_cmds R (map raw_cmd xs) ?s')) = None \<and>
      room v (snd (run_cmds R (map raw_cmd xs) ?s')) n"
    using Cons.IH Cons.prems(2) by simp
  have "eid_ok (FormatInt q)" "mappings_ok R m"
    using ok(1) by (simp_all add: x raw_cmd_def canonical_eid_ok)
  then obtain i where "fst (upsertScript R changelogKey m (FormatInt q) s) = LuaInt i"
    using upsert_counts(1)[OF R Cons.prems(1) _ _ r(1), of "FormatInt q" m] r(2) by (simp add: entity_total_def)
  then have "fst (exec_cmd R (raw_cmd x) s) = None"
    by (auto simp: x raw_cmd_def script_result_def split: prod.splits lua_reply.splits)
  with rest show ?case by (simp add: first_error_cmds del: run_cmds.simps)
qed

lemma meta_room:
  assumes R: "redis_ok R v" and c: "index_ok R (v s)" and m: "meta_cmds cs" "\<forall>k \<in> set cs. counts_alone k" "length cs \<le> 16"
    and r: "room v s n"
  shows "room v (snd (run_cmds R cs s)) n"
proof -
  have ok: "\<forall>k \<in> set cs. cmd_ok R k \<and> counts_alone k" using m by (auto simp: meta_cmds_def)
  have n: "count_ok (v s)" "entity_total (v s) + int (length cs) < 2 ^ 63" using r m(3) by (simp_all add: room_def)
  have "abstract (v (snd (run_cmds R cs s))) = fold cmd_spec cs (abstract (v s))"
    using run_cmds_refines[OF R c] ok by blast
  then have "entities (v (snd (run_cmds R cs s))) = entities (v s)"
    using meta_cmds_entities[OF m(1), of "abstract (v s)"] by (metis abstract_sel(1))
  with run_cmds_counts[OF R c ok n] r show ?thesis by (simp add: room_def entity_total_def)
qed

lemma meta_good:
  assumes R: "redis_ok R v" and c: "index_ok R (v (snd ws))" and r: "room v (snd ws) n"
    and st: "\<And>p e. p_err p = Some e \<Longrightarrow> p_err (build p) = Some e"
    and p: "p_err (build \<lparr>p_err = None, p_cmds = []\<rparr>) = None" "length (p_cmds (build \<lparr>p_err = None, p_cmds = []\<rparr>)) \<le> 16"
    and m: "\<forall>k \<in> set (p_cmds (build \<lparr>p_err = None, p_cmds = []\<rparr>)). \<exists>f x. k = HSet metaKey f x \<and> f \<noteq> ''entity_count''"
  shows "\<exists>w s. run_pipe R good_fate build ws = (None, w, s) \<and> index_ok R (v s) \<and>
    entities (v s) = entities (v (snd ws)) \<and> room v s n"
proof -
  let ?cs = "p_cmds (build \<lparr>p_err = None, p_cmds = []\<rparr>)"
  have mc: "meta_cmds ?cs" "\<forall>k \<in> set ?cs. counts_alone k" using m by (auto simp: meta_cmds_def)
  have "first_error (fst (run_cmds R ?cs (snd ws))) = None" by (rule meta_replies) (use m in auto)
  from good_pipe[where build = build, OF p(1) this] obtain w where w: "run_pipe R good_fate build ws = (None, w, snd (run_cmds R ?cs (snd ws)))" by blast
  from meta_pipe_keeps[where build = build, OF R c st mc(1), of good_fate] meta_room[OF R c mc p(2) r] w
  show ?thesis by auto
qed

definition alive :: "('s \<Rightarrow> content) \<Rightarrow> nat \<Rightarrow> 's snap_state \<Rightarrow> bool" where
  "alive v n st \<longleftrightarrow> sn_fates st = [] \<and> room v (snd (sn_ws st)) (length (sn_batch st) + n)"

lemma flush_alive:
  assumes R: "redis_ok R v" and r: "reading R v E its st" and a: "alive v n st"
  shows "\<exists>st'. flushBatch R st = (None, st') \<and> alive v n st'"
proof -
  obtain xs where xs: "index_ok R (v (snd (sn_ws st)))" "sn_batch st = map raw_rec xs" "\<forall>x \<in> set xs. ent_ok R x"
    using r by (auto simp: reading_def)
  let ?b = "fold UpsertRawEntity (map raw_rec xs)" and ?new = "\<lparr>p_err = None, p_cmds = []\<rparr>"
  have p: "?b ?new = \<lparr>p_err = None, p_cmds = map raw_cmd xs\<rparr>" using raw_queued[OF _ xs(3), of ?new] by simp
  have ok: "\<forall>x \<in> set xs. cmd_ok R (raw_cmd x)" using xs(3) by (auto simp: raw_cmd_def ent_ok_def)
  have "room v (snd (sn_ws st)) (length xs + n)" "sn_fates st = []" using a xs(2) by (simp_all add: alive_def)
  from upsert_replies[OF R xs(1) ok this(1)] this(2) good_pipe[of ?b R "sn_ws st"] xs(2)
  show ?thesis using a by (auto simp: flushBatch_def p alive_def)
qed

lemma line_alive:
  assumes R: "redis_ok R v" and J: "json_ok J" and r: "reading R v E its st"
    and ok: "counted R J (base + int (length (ents its))) [it]"
    and a: "alive v (length (ents [it]) + n) st"
  shows "\<exists>st'. snapshot_line R J base (item_line J it) st = (None, st') \<and> alive v n st'"
proof (cases it)
  case (Ent q m)
  with ok have x: "ent_ok R (q, m)" by simp
  note e = entity_reading[OF r x]
  have a1: "alive v n (st\<lparr>sn_batch := sn_batch st @ [raw_rec (q, m)]\<rparr>)" using a Ent by (simp add: alive_def)
  from flush_alive[OF R e(1) a1] a1 e(2)[of J base] show ?thesis by (auto simp: Ent Let_def)
next
  case (Check o' k)
  let ?line = "marshal_checkpoint J (checkpoint_of (o', k))" and ?b = "checkpoint_pipe (checkpoint_of (o', k))"
  from ok Check have k: "k = base + int (length (ents its))" "count_pair (o', k)" by auto
  note j = json_ok_checkpoint[OF J k(2)]
  have cl: "\<not> sn_done st" "ClassifySnapshotLine ?line = LineControl"
    using r j(1) by (simp_all add: reading_def json_line_def)
  obtain st1 where fl: "flushBatch R st = (None, st1)" "alive v n st1"
    using flush_alive[OF R r, of n] a Check by auto
  note f = flush_reading[OF R r fl(1)]
  have i: "index_ok R (v (snd (sn_ws st1)))" using f by (simp add: reading_def)
  have cmds: "p_cmds (?b \<lparr>p_err = None, p_cmds = []\<rparr>) =
      [HSet metaKey ''snapshot_resume_offset'' (FormatInt o'), HSet metaKey ''snapshot_resume_entities'' (FormatInt k)]"
    "p_err (?b \<lparr>p_err = None, p_cmds = []\<rparr>) = None"
    by (simp_all add: checkpoint_pipe_def pipe_queues checkpoint_of_def)
  then obtain w where p: "run_pipe R good_fate ?b (sn_ws st1) =
      (None, w, snd (run_cmds R (p_cmds (?b \<lparr>p_err = None, p_cmds = []\<rparr>)) (snd (sn_ws st1))))"
    using good_pipe[of ?b R "sn_ws st1"] by (auto simp: meta_replies)
  have "room v (snd (run_cmds R (p_cmds (?b \<lparr>p_err = None, p_cmds = []\<rparr>)) (snd (sn_ws st1)))) (length (sn_batch st1) + n)"
    by (rule meta_room[OF R i snap_pipes(1)]) (use fl(2) in \<open>simp_all add: cmds alive_def\<close>)
  then have "alive v n (st1\<lparr>sn_ws := (w, snd (run_cmds R (p_cmds (?b \<lparr>p_err = None, p_cmds = []\<rparr>)) (snd (sn_ws st1)))), sn_fates := []\<rparr>)"
    by (simp add: alive_def)
  moreover have "cp_EntitiesBefore (checkpoint_of (o', k)) = k" "sn_fates st1 = []"
    using fl(2) by (simp_all add: checkpoint_of_def alive_def)
  ultimately show ?thesis
    using cl fl j(2,3) k(1) f p by (simp add: Check snapshot_line_def control_line_def Let_def del: run_cmds.simps)
qed

lemma lines_alive:
  assumes R: "redis_ok R v" and J: "json_ok J"
    and "reading R v E its st" "counted R J (base + int (length (ents its))) its2" "alive v (length (ents its2) + n) st"
  shows "\<exists>st1. for_each (snapshot_line R J base) (map (item_line J) its2 @ rest) st =
      for_each (snapshot_line R J base) rest st1 \<and> reading R v E (its @ its2) st1 \<and> alive v n st1"
  using assms(3-)
proof (induction its2 arbitrary: its st)
  case Nil
  then show ?case by auto
next
  case (Cons it its2)
  have one: "counted R J (base + int (length (ents its))) [it]" "counted R J (base + int (length (ents (its @ [it])))) its2"
    using Cons.prems(2) by (cases it; simp add: algebra_simps)+
  have "length (ents (it # its2)) = length (ents [it]) + length (ents its2)"
    by (cases it) simp_all
  then have "alive v (length (ents [it]) + (length (ents its2) + n)) st" using Cons.prems(3) by (simp add: add.assoc)
  from line_alive[OF R J Cons.prems(1) one(1) this] obtain st1 where
    st1: "snapshot_line R J base (item_line J it) st = (None, st1)" "alive v (length (ents its2) + n) st1" by blast
  from line_reading[OF R J Cons.prems(1) one(1) st1(1)] have "reading R v E (its @ [it]) st1" .
  from Cons.IH[OF this one(2) st1(2)] st1(1) show ?case by simp
qed

lemma apply_alive:
  assumes R: "redis_ok R v" and J: "json_ok J" and c: "index_ok R (v (snd ws))"
    and its: "counted R J base its" and n: "n = base + int (length (ents its))"
    and dn: "done_pair (i, n)" "line_fits snapshotBufferSize (marshal_done J (done_of (i, n)))"
    and a: "room v (snd ws) (length (ents its))"
  shows "fst (apply_snapshot R J base (snapshot_text J its (i, n), False) [] ws) = Inr i"
proof -
  let ?st0 = "\<lparr>sn_batch = [], sn_applied = 0, sn_done = False, sn_id = [], sn_ws = ws, sn_fates = []\<rparr>"
  let ?dl = "marshal_done J (done_of (i, n))"
  have "\<forall>l \<in> set (map (item_line J) its @ [?dl]). line_fits snapshotBufferSize l"
    using counted_fits[OF its] dn(2) by auto
  then have scan: "scan_lines snapshotBufferSize (snapshot_text J its (i, n)) = (map (item_line J) its @ [?dl], False)"
    unfolding snapshot_text_def by (rule scan_unlines)
  have start: "reading R v (entities (v (snd ws))) [] ?st0" using c by (simp add: reading_def)
  have "alive v (length (ents its) + 0) ?st0" using a by (simp add: alive_def)
  from lines_alive[OF R J start _ this, of base "[?dl]"] its obtain st1 where
    st1: "for_each (snapshot_line R J base) (map (item_line J) its @ [?dl]) ?st0 = for_each (snapshot_line R J base) [?dl] st1"
      "reading R v (entities (v (snd ws))) its st1" "alive v 0 st1" by auto
  note jd = json_ok_done[OF J dn(1)]
  obtain st2 where fl: "flushBatch R st1 = (None, st2)" "alive v 0 st2" using flush_alive[OF R st1(2,3)] by blast
  note f = flush_reading[OF R st1(2) fl(1)]
  let ?st3 = "st2\<lparr>sn_id := i, sn_done := True\<rparr>"
  have "\<not> sn_done st1" "ClassifySnapshotLine ?dl = LineControl" using st1(2) jd(1) by (simp_all add: reading_def json_line_def)
  then have one: "snapshot_line R J base ?dl st1 = (None, ?st3)"
    using fl jd(2,3) f n
    by (simp add: snapshot_line_def control_line_def Let_def SnapshotControlTypeDone_def SnapshotControlTypeCheckpoint_def done_of_def)
  have "flushBatch R ?st3 = (None, ?st3)" "sn_fates ?st3 = []" using f fl(2) by (simp_all add: flushBatch_def alive_def)
  moreover obtain w s where "run_pipe R good_fate (done_pipe i (base + sn_applied ?st3)) (sn_ws ?st3) = (None, w, s)"
    using good_pipe[of "done_pipe i (base + sn_applied ?st3)" R "sn_ws ?st3"] by (auto simp: done_cmds meta_replies)
  ultimately show ?thesis using scan st1(1) one by (simp add: apply_snapshot_def)
qed

end
