(* ===== verification/SnapshotRoundtrip.thy ===== *)
theory SnapshotRoundtrip
  imports ReplicaSnapshot
begin

text \<open>
  The snapshot that an upstream generates, fetched by a replica: \<open>generate_frames\<close> on one side,
  \<open>fetchSnapshot\<close> on the other, with the HTTP file server in between. A fetch that succeeds leaves
  exactly the entities that the upstream's scan returned, whether it read the whole file or went
  on from a checkpoint of an earlier attempt (\<open>fetchSnapshot_installs\<close>); and a checkpoint of which
  only one of its two fields was stored stops the replica for good (\<open>fetchSnapshot_stuck\<close>).
\<close>

section \<open>What the generator writes\<close>

definition item_of :: "SnapshotEntity \<Rightarrow> snap_item" where
  "item_of x = Ent (se_QID x) (se_RawMappings x)"

definition pair_of :: "SnapshotEntity \<Rightarrow> int \<times> string" where
  "pair_of x = (se_QID x, se_RawMappings x)"

lemma ents_items [simp]: "ents (map item_of xs) = map pair_of xs"
  by (induction xs) (simp_all add: item_of_def pair_of_def)

text \<open>A frame: a checkpoint and entities. \<open>before\<close> are the frames before it.\<close>

definition frame_text :: "json_codec \<Rightarrow> snap_item list \<Rightarrow> string" where
  "frame_text J its = unlines (map (item_line J) its)"

definition frame_of :: "json_codec \<Rightarrow> (string \<Rightarrow> string) \<Rightarrow> snap_item list list \<Rightarrow> SnapshotEntity list \<Rightarrow> snap_item list" where
  "frame_of J compress before xs =
     Check (compressed_size compress (map (frame_text J) before)) (int (length (ents (concat before)))) # map item_of xs"

definition framed :: "json_codec \<Rightarrow> (string \<Rightarrow> string) \<Rightarrow> snap_item list list \<Rightarrow> bool" where
  "framed J compress fss \<longleftrightarrow> (\<forall>j < length fss. \<exists>xs. fss ! j = frame_of J compress (take j fss) xs)"

lemma framed_snoc: "framed J compress (fss @ [f]) \<longleftrightarrow> framed J compress fss \<and> (\<exists>xs. f = frame_of J compress fss xs)"
  by (auto simp: framed_def nth_append less_Suc_eq)

definition generated :: "json_codec \<Rightarrow> (string \<Rightarrow> string) \<Rightarrow> nat \<Rightarrow> SnapshotEntity list \<Rightarrow> gen_state \<Rightarrow> bool" where
  "generated J compress fsz es g \<longleftrightarrow> (\<exists>fss xs. framed J compress fss \<and> g_frames g = map (frame_text J) fss \<and>
     (\<forall>f \<in> set fss. length (ents f) = fsz) \<and> g_inFrame g = length xs \<and>
     g_cur g = frame_text J (frame_of J compress fss xs) \<and>
     map pair_of es = ents (concat fss) @ map pair_of xs \<and> g_count g = int (length es))"

lemma checkpoint_line: "AppendSnapshotCheckpointLine J o' n = item_line J (Check o' n) @ [newline]"
  by (simp add: AppendSnapshotCheckpointLine_def checkpoint_of_def)

lemma frame_text_cons: "frame_text J (it # its) = item_line J it @ newline # frame_text J its"
  by (simp add: frame_text_def)

lemma frame_text_nil [simp]: "frame_text J [] = []"
  by (simp add: frame_text_def)

lemma frame_grow:
  "frame_text J (frame_of J compress fss (xs @ [x])) =
     frame_text J (frame_of J compress fss xs) @ AppendSnapshotEntityLine (se_QID x) (se_RawMappings x)"
  by (simp add: frame_of_def frame_text_def item_of_def entity_line(2))

lemma frame_fresh:
  "frame_text J (frame_of J compress fss []) =
     AppendSnapshotCheckpointLine J (compressed_size compress (map (frame_text J) fss)) (int (length (ents (concat fss))))"
  by (simp add: frame_of_def frame_text_cons checkpoint_line)

lemma generated_start: "generated J compress fsz [] (gen_start J)"
proof -
  have "g_cur (gen_start J) = frame_text J (frame_of J compress [] [])"
    unfolding frame_fresh by (simp add: gen_start_def compressed_size_def)
  then show ?thesis unfolding generated_def
    by (intro exI[of _ "[]"]) (simp add: gen_start_def framed_def)
qed

lemma generated_entity:
  assumes "generated J compress fsz es g"
  shows "generated J compress fsz (es @ [x]) (gen_entity J compress fsz x g)"
proof -
  obtain fss xs where g: "framed J compress fss" "g_frames g = map (frame_text J) fss"
    "g_cur g = frame_text J (frame_of J compress fss xs)" "map pair_of es = ents (concat fss) @ map pair_of xs"
    "g_count g = int (length es)" "\<forall>f \<in> set fss. length (ents f) = fsz" "g_inFrame g = length xs"
    using assms by (auto simp: generated_def)
  show ?thesis
  proof (cases "g_inFrame g = fsz")
    case False
    then show ?thesis unfolding generated_def
      by (intro exI[of _ fss] exI[of _ "xs @ [x]"]) (simp add: g gen_entity_def Let_def frame_grow pair_of_def)
  next
    case True
    let ?fss = "fss @ [frame_of J compress fss xs]"
    have e: "ents (concat ?fss) = map pair_of es" by (simp add: frame_of_def g(4))
    have len: "length (ents (concat ?fss)) = length es" unfolding e by simp
    have cur: "AppendSnapshotCheckpointLine J (compressed_size compress (map (frame_text J) ?fss)) (int (length es)) =
        frame_text J (frame_of J compress ?fss [])"
      unfolding frame_fresh len ..
    have "framed J compress ?fss" using g(1) by (auto simp: framed_snoc)
    moreover have "g_cur (gen_entity J compress fsz x g) = frame_text J (frame_of J compress ?fss ([] @ [x]))"
      unfolding frame_grow cur[symmetric] using True g by (simp add: gen_entity_def Let_def)
    ultimately show ?thesis unfolding generated_def
      by (intro exI[of _ ?fss] exI[of _ "[x]"]) (use True g e in \<open>simp add: gen_entity_def Let_def\<close>)
  qed
qed

lemma generated_entities:
  "generated J compress fsz es g \<Longrightarrow> generated J compress fsz (es @ xs) (fold (gen_entity J compress fsz) xs g)"
proof (induction xs arbitrary: es g)
  case Nil
  then show ?case by simp
next
  case (Cons x xs)
  from Cons.IH[OF generated_entity[OF Cons.prems, of x]] show ?case by simp
qed

text \<open>The entities a scan has returned when it ends.\<close>

fun scanned :: "(nat \<Rightarrow> nat \<Rightarrow> 's \<Rightarrow> (string \<times> string) list \<times> nat) \<Rightarrow> (bool \<times> bool \<times> 's) list \<Rightarrow> nat \<Rightarrow> SnapshotEntity list" where
  "scanned hscan [] cursor = []"
| "scanned hscan ((cancelled, answered, s) # scans) cursor =
     (case hscan cursor 1000 s of (fvs, next) \<Rightarrow>
        scan_entities fvs @ (if next = 0 then [] else scanned hscan scans next))"

lemma generated_scan:
  "generated J compress SnapshotFrameSize es g \<Longrightarrow> gen_scan hscan J compress scans cursor g = Inr g' \<Longrightarrow>
   generated J compress SnapshotFrameSize (es @ scanned hscan scans cursor) g'"
proof (induction scans arbitrary: es g cursor)
  case Nil
  then show ?case by simp
next
  case (Cons sc scans)
  obtain cancelled answered s where sc: "sc = (cancelled, answered, s)" by (metis surj_pair)
  obtain fvs nxt where h: "hscan cursor 1000 s = (fvs, nxt)" by fastforce
  let ?g = "fold (gen_entity J compress SnapshotFrameSize) (scan_entities fvs) g"
  have ok: "\<not> cancelled" "answered" using Cons.prems(2) by (auto simp: sc ScanEntities_def split: if_splits)
  note gg = generated_entities[OF Cons.prems(1), of "scan_entities fvs"]
  show ?case
  proof (cases "nxt = 0")
    case True
    with Cons.prems(2) ok h gg show ?thesis by (simp add: sc ScanEntities_def Let_def)
  next
    case False
    then have "gen_scan hscan J compress scans nxt ?g = Inr g'"
      using Cons.prems(2) ok h by (simp add: sc ScanEntities_def Let_def)
    from Cons.IH[OF gg this] False h show ?thesis by (simp add: sc)
  qed
qed

section \<open>The file as a client sees it\<close>

text \<open>What the client needs of a snapshot: valid entities and lines that fit its buffer.\<close>

definition readable ::
  "'s redis \<Rightarrow> json_codec \<Rightarrow> (string \<Rightarrow> string) \<Rightarrow> SnapshotEntity list \<Rightarrow> string \<Rightarrow> string list \<Rightarrow> bool" where
  "readable R J compress es lastID frames \<longleftrightarrow>
     (\<forall>x \<in> set es. ent_ok R (pair_of x)) \<and> plain_id lastID \<and>
     int64 (int (length es)) \<and> int64 (compressed_size compress frames) \<and>
     length (marshal_done J (done_of (lastID, int (length es)))) < snapshotBufferSize \<and>
     (\<forall>j < length frames. length (marshal_checkpoint J
        (checkpoint_of (compressed_size compress (take j frames), int (j * SnapshotFrameSize)))) < snapshotBufferSize)"

lemma counted_append: "counted R J n (a @ b) \<longleftrightarrow> counted R J n a \<and> counted R J (n + int (length (ents a))) b"
  by (induction R J n a rule: counted.induct) (auto simp: algebra_simps)

lemma counted_items: "counted R J n (map item_of xs) \<longleftrightarrow> (\<forall>x \<in> set xs. ent_ok R (pair_of x))"
  by (induction xs arbitrary: n) (simp_all add: item_of_def pair_of_def)

lemma concat_frame_text: "concat (map (frame_text J) fss) = frame_text J (concat fss)"
  by (induction fss) (simp_all add: frame_text_def)

lemma frame_sizes:
  assumes "\<forall>f \<in> set (butlast fss). length (ents f) = fsz" "j < length fss"
  shows "length (ents (concat (take j fss))) = j * fsz"
  using assms(2)
proof (induction j)
  case 0
  then show ?case by simp
next
  case (Suc j)
  have "fss ! j \<in> set (butlast fss)"
    using Suc.prems nth_butlast[of j fss] nth_mem[of j "butlast fss"] by simp
  with Suc assms(1) show ?case by (simp add: take_Suc_conv_app_nth)
qed

lemma take_frames:
  assumes "fss \<noteq> []" "frames = map (frame_text J) (butlast fss) @ [frame_text J (last fss) @ z]" "j < length frames"
  shows "take j frames = map (frame_text J) (take j fss)" "concat (drop j frames) = frame_text J (concat (drop j fss)) @ z"
proof -
  have j: "j \<le> length fss - 1" "j < length fss" using assms by (simp_all add: less_Suc_eq_le)
  then show "take j frames = map (frame_text J) (take j fss)"
    by (simp add: assms(2) take_map take_butlast)
  have "drop j fss = drop j (butlast fss) @ [last fss]"
    using j assms(1) append_butlast_last_id[OF assms(1)]
    by (metis append_Nil2 diff_is_0_eq drop0 drop_append length_butlast)
  then show "concat (drop j frames) = frame_text J (concat (drop j fss)) @ z"
    using j by (simp add: assms(2) drop_map concat_frame_text frame_text_def)
qed

lemma counted_from:
  assumes fr: "framed J compress fss" and fs: "\<forall>f \<in> set (butlast fss). length (ents f) = fsz"
    and ok: "\<forall>x \<in> set (ents (concat fss)). ent_ok R x"
    and cp: "\<forall>j < length fss. count_pair (compressed_size compress (map (frame_text J) (take j fss)), int (j * fsz)) \<and>
      line_fits snapshotBufferSize (item_line J (Check (compressed_size compress (map (frame_text J) (take j fss))) (int (j * fsz))))"
    and j: "j \<le> length fss"
  shows "counted R J (int (length (ents (concat (take j fss))))) (concat (drop j fss))"
  using j
proof (induction rule: inc_induct)
  case base
  then show ?case by simp
next
  case (step j)
  obtain xs where x: "fss ! j = frame_of J compress (take j fss) xs" using fr step(2) by (auto simp: framed_def)
  have "set (map pair_of xs) \<subseteq> set (ents (concat fss))"
  proof -
    have "concat fss = concat (take j fss) @ fss ! j @ concat (drop (Suc j) fss)"
      using id_take_nth_drop[OF step(2)] by (metis concat.simps(2) concat_append)
    then show ?thesis by (auto simp: x frame_of_def)
  qed
  then have "\<forall>y \<in> set xs. ent_ok R (pair_of y)" using ok by auto
  moreover have "length (ents (concat (take (Suc j) fss))) = length (ents (concat (take j fss))) + length xs"
    using step(2) by (simp add: take_Suc_conv_app_nth x frame_of_def)
  moreover have "drop j fss = fss ! j # drop (Suc j) fss" using step(2) by (simp add: Cons_nth_drop_Suc)
  moreover have "length (ents (concat (take j fss))) = j * fsz" by (rule frame_sizes[OF fs step(2)])
  ultimately show ?case
    using step(2,3) cp x by (simp add: frame_of_def counted_append counted_items)
qed

text \<open>A generated file is a list of frames; the end of the last one is the done line.\<close>

definition file_frames ::
  "json_codec \<Rightarrow> (string \<Rightarrow> string) \<Rightarrow> SnapshotEntity list \<Rightarrow> string \<Rightarrow> string list \<Rightarrow> snap_item list list \<Rightarrow> bool" where
  "file_frames J compress es lastID frames fss \<longleftrightarrow>
     framed J compress fss \<and> (\<forall>f \<in> set (butlast fss). length (ents f) = SnapshotFrameSize) \<and> fss \<noteq> [] \<and>
     ents (concat fss) = map pair_of es \<and>
     frames = map (frame_text J) (butlast fss) @
       [frame_text J (last fss) @ AppendSnapshotDoneLine J lastID (int (length es))]"

lemma generated_frames:
  assumes gen: "generate_frames R hscan J compress answers scans s = Inr (lastID, frames)"
  obtains fss where "file_frames J compress (scanned hscan scans 0) lastID frames fss"
proof -
  let ?es = "scanned hscan scans 0"
  obtain g where g: "gen_scan hscan J compress scans 0 (gen_start J) = Inr g" "frames = gen_finish J lastID g"
    using gen by (auto simp: generate_frames_def split: prod.splits sum.splits if_splits)
  from generated_scan[OF generated_start g(1)] obtain fss0 xs where
    f: "framed J compress fss0" "g_frames g = map (frame_text J) fss0"
      "\<forall>f \<in> set fss0. length (ents f) = SnapshotFrameSize" "g_cur g = frame_text J (frame_of J compress fss0 xs)"
      "map pair_of ?es = ents (concat fss0) @ map pair_of xs" "g_count g = int (length ?es)"
    by (auto simp: generated_def)
  show thesis
    by (rule that[of "fss0 @ [frame_of J compress fss0 xs]"])
      (use f in \<open>auto simp: file_frames_def framed_snoc frame_of_def g(2) gen_finish_def\<close>)
qed

lemma file_frames_facts:
  assumes F: "file_frames J compress es lastID frames fss"
  shows "length frames = length fss"
    and "k < length fss \<Longrightarrow> length (ents (concat (take k fss))) = k * SnapshotFrameSize"
    and "k < length fss \<Longrightarrow> ents (concat (drop k fss)) = map pair_of (drop (k * SnapshotFrameSize) es)"
    and "k < length fss \<Longrightarrow> k * SnapshotFrameSize \<le> length es"
    and "k < length fss \<Longrightarrow> take k frames = map (frame_text J) (take k fss)"
    and "k < length fss \<Longrightarrow> concat (drop k frames) =
      frame_text J (concat (drop k fss)) @ AppendSnapshotDoneLine J lastID (int (length es))"
proof -
  have f: "\<forall>f \<in> set (butlast fss). length (ents f) = SnapshotFrameSize" "fss \<noteq> []" "ents (concat fss) = map pair_of es"
    "frames = map (frame_text J) (butlast fss) @ [frame_text J (last fss) @ AppendSnapshotDoneLine J lastID (int (length es))]"
    using F by (simp_all add: file_frames_def)
  show len: "length frames = length fss" using f(2,4) by simp
  have split: "map pair_of es = ents (concat (take k fss)) @ ents (concat (drop k fss))" for k
    by (metis f(3) append_take_drop_id concat_append ents_append)
  assume k: "k < length fss"
  then show size: "length (ents (concat (take k fss))) = k * SnapshotFrameSize" by (rule frame_sizes[OF f(1)])
  show "ents (concat (drop k fss)) = map pair_of (drop (k * SnapshotFrameSize) es)"
    using arg_cong[OF split[of k], of "drop (k * SnapshotFrameSize)"] size by (simp add: drop_map)
  show "k * SnapshotFrameSize \<le> length es" using arg_cong[OF split[of k], of length] size by simp
  show "take k frames = map (frame_text J) (take k fss)" "concat (drop k frames) =
      frame_text J (concat (drop k fss)) @ AppendSnapshotDoneLine J lastID (int (length es))"
    using take_frames[OF f(2,4)] k len by simp_all
qed

lemma compressed_part: "compressed_size compress (take k frames) \<le> compressed_size compress frames"
proof -
  have "map compress frames = map compress (take k frames) @ map compress (drop k frames)"
    by (metis append_take_drop_id map_append)
  then show ?thesis by (simp add: compressed_size_def)
qed

text \<open>Its checkpoints fit the client's integers and its buffer.\<close>

lemma file_checkpoints:
  assumes J: "json_ok J" and F: "file_frames J compress es lastID frames fss" and ok: "readable R' J compress es lastID frames"
    and k: "k < length fss"
  shows "count_pair (compressed_size compress (map (frame_text J) (take k fss)), int (k * SnapshotFrameSize)) \<and>
    line_fits snapshotBufferSize (item_line J (Check (compressed_size compress (map (frame_text J) (take k fss))) (int (k * SnapshotFrameSize))))"
proof -
  let ?o = "compressed_size compress (take k frames)"
  note f = file_frames_facts[OF F]
  have o': "0 \<le> ?o" by (simp add: compressed_size_def)
  have "int64 ?o" "int64 (int (length es))"
    using ok o' compressed_part[of compress k frames] by (auto simp: readable_def int64_def)
  moreover have "int (k * SnapshotFrameSize) \<le> int (length es)" using f(4)[OF k] by (rule zle_int[THEN iffD2])
  ultimately have c: "count_pair (?o, int (k * SnapshotFrameSize))"
    using o' unfolding count_pair_def int64_def fst_conv snd_conv by (intro conjI; linarith)
  moreover have "length (item_line J (Check ?o (int (k * SnapshotFrameSize)))) < snapshotBufferSize"
    using ok k f(1) by (simp add: readable_def)
  ultimately show ?thesis
    using json_ok_checkpoint(1)[OF J c] f(5)[OF k] by (simp add: line_fits_def json_line_def)
qed

lemma generated_file:
  assumes J: "json_ok J" and gen: "generate_frames R hscan J compress answers scans s = Inr (lastID, frames)"
    and ok: "readable R' J compress (scanned hscan scans 0) lastID frames" and j: "j < length frames"
  obtains its where
    "concat (drop j frames) = snapshot_text J its (lastID, int (length (scanned hscan scans 0)))"
    "counted R' J (int (j * SnapshotFrameSize)) its"
    "ents its = map pair_of (drop (j * SnapshotFrameSize) (scanned hscan scans 0))"
    "j * SnapshotFrameSize \<le> length (scanned hscan scans 0)"
proof -
  let ?es = "scanned hscan scans 0"
  obtain fss where F: "file_frames J compress ?es lastID frames fss" using generated_frames[OF gen] .
  note f = file_frames_facts[OF F]
  have jl: "j < length fss" using j f(1) by simp
  have "\<forall>x \<in> set (ents (concat fss)). ent_ok R' x" using F ok by (auto simp: file_frames_def readable_def)
  moreover have "framed J compress fss" "\<forall>f \<in> set (butlast fss). length (ents f) = SnapshotFrameSize"
    using F by (simp_all add: file_frames_def)
  ultimately have "counted R' J (int (length (ents (concat (take j fss))))) (concat (drop j fss))"
    using counted_from[where fsz = SnapshotFrameSize] file_checkpoints[OF J F ok] jl by (meson less_imp_le)
  then have "counted R' J (int (j * SnapshotFrameSize)) (concat (drop j fss))" unfolding f(2)[OF jl] .
  with that[of "concat (drop j fss)"] f(3,4,6)[OF jl] show thesis
    by (simp add: snapshot_text_def frame_text_def AppendSnapshotDoneLine_def done_of_def unlines_def)
qed

section \<open>Serving ranges\<close>

text \<open>
  What \<open>http.ServeContent\<close> makes of a file with an ETag: a range is honoured if the \<open>If-Range\<close>
  tag is the file's.
\<close>

definition ServeContent :: "string \<Rightarrow> string \<Rightarrow> (int \<times> string) option \<Rightarrow> http_reply" where
  "ServeContent etag content req =
     (let reply = (\<lambda>status body. \<lparr>hr_Status = status, hr_ETag = etag, hr_ContentEncoding = ''identity'', hr_Body = body\<rparr>)
      in case req of
           None \<Rightarrow> reply 200 content
         | Some (offset, tag) \<Rightarrow>
             if tag \<noteq> etag \<or> content = [] then reply 200 content
             else if int (length content) \<le> offset then reply 416 []
             else reply 206 (drop (nat offset) content))"

lemma drop_compressed:
  "drop (nat (compressed_size compress (take j frames))) (concat (map compress frames)) = concat (map compress (drop j frames))"
proof -
  have "concat (map compress frames) = concat (map compress (take j frames)) @ concat (map compress (drop j frames))"
    by (metis append_take_drop_id concat_append map_append)
  then show ?thesis by (simp add: compressed_size_def)
qed

section \<open>The client's part\<close>

lemma reset_run:
  assumes R: "redis_ok R v" and run: "reset_db R c f ws = (None, ws')"
  shows "index_ok R (v (snd ws')) \<and> entities (v (snd ws')) = (\<lambda>_. None)"
proof -
  let ?b = "SetSyncState ''schema_version'' SchemaVersion"
  obtain ok s where sd: "send c (r_flushdb R) (snd ws) = (ok, s)" by fastforce
  have ok using run sd by (cases ok) (simp_all add: reset_db_def)
  with sd have "s = r_flushdb R (snd ws)" by (cases c) auto
  then have e: "v (snd (fst ws, s)) = no_content" by (simp add: redis_hash[OF R])
  obtain err w2 where p: "run_pipe R f ?b (fst ws, s) = (err, w2)" by (metis surj_pair)
  have "w2 = ws'" using run sd \<open>ok\<close> p by (cases err) (simp_all add: reset_db_def)
  have "index_ok R (v (snd (fst ws, s)))" unfolding e by (rule index_ok_empty)
  from meta_pipe_keeps[where build = ?b, OF R this, of f] p \<open>w2 = ws'\<close> e
  show ?thesis by (auto simp: pipe_queues meta_cmds_def no_content_def)
qed

lemma start_run:
  assumes R: "redis_ok R v" and c: "index_ok R (v (snd ws))"
  shows "index_ok R (v (snd (snd (run_pipe R f (start_pipe etag o' n) ws)))) \<and>
    entities (v (snd (snd (run_pipe R f (start_pipe etag o' n) ws)))) = entities (v (snd ws))"
  by (rule meta_pipe_keeps[where build = "start_pipe etag o' n", OF R c snap_pipes(4,2)])

lemma put_all:
  assumes "\<forall>eid. eid \<notin> (\<lambda>(q, m). FormatInt q) ` set (drop n xs) \<longrightarrow> E eid = fold put_ent (take n xs) E0 eid"
  shows "fold put_ent (drop n xs) E = fold put_ent xs E0"
proof -
  have "fold put_ent (drop n xs) E = fold put_ent (drop n xs) (fold put_ent (take n xs) E0)"
    using put_ent_agree[OF assms] .
  also have "\<dots> = fold put_ent (take n xs @ drop n xs) E0" by (simp only: fold_append comp_apply)
  finally show ?thesis by simp
qed

definition snapshot_keys :: "string list" where
  "snapshot_keys = [''snapshot_etag'', ''snapshot_resume_offset'', ''snapshot_resume_entities'', ''snapshot_entities_applied'']"

text \<open>
  A resume is sound if, whenever it names the file, it names one of its checkpoints, and the
  entities before that checkpoint are in the store.
\<close>

definition resumable ::
  "(string \<Rightarrow> string) \<Rightarrow> string \<Rightarrow> SnapshotEntity list \<Rightarrow> string list \<Rightarrow> string \<times> int \<times> int \<times> bool \<Rightarrow>
   (string \<Rightarrow> string option) \<Rightarrow> bool" where
  "resumable compress etag es frames = (\<lambda>(tag, offset, n, requested) E.
     requested \<and> tag = etag \<longrightarrow>
       (\<exists>j < length frames. offset = compressed_size compress (take j frames) \<and> n = int (j * SnapshotFrameSize) \<and>
          (\<forall>eid. eid \<notin> (\<lambda>x. FormatInt (se_QID x)) ` set (drop (j * SnapshotFrameSize) es) \<longrightarrow>
             E eid = fold put_ent (map pair_of (take (j * SnapshotFrameSize) es)) (\<lambda>_. None) eid)))"

lemma fetch_step:
  assumes R: "redis_ok R v" and J: "json_ok J"
    and gen: "generate_frames R' hscan J compress answers scans s = Inr (lastID, frames)"
    and ok: "readable R J compress (scanned hscan scans 0) lastID frames" and j: "j < length frames"
    and c: "index_ok R (v (snd ws1))"
    and out: "apply_snapshot R J (int (j * SnapshotFrameSize)) (concat (drop j frames), False) fates ws1 = (Inr i, ws')"
    and E: "fold put_ent (map pair_of (drop (j * SnapshotFrameSize) (scanned hscan scans 0))) (entities (v (snd ws1))) = E"
  shows "i = lastID \<and> index_ok R (v (snd ws')) \<and> entities (v (snd ws')) = E \<and> settled lastID (abstract (v (snd ws')))"
proof -
  let ?es = "scanned hscan scans 0"
  obtain its where its: "concat (drop j frames) = snapshot_text J its (lastID, int (length ?es))"
    "counted R J (int (j * SnapshotFrameSize)) its" "ents its = map pair_of (drop (j * SnapshotFrameSize) ?es)"
    using generated_file[OF J gen ok j] by metis
  have dn: "done_pair (lastID, int (length ?es))" using ok by (simp add: done_pair_def readable_def)
  then have "line_fits snapshotBufferSize (marshal_done J (done_of (lastID, int (length ?es))))"
    using json_ok_done(1)[OF J dn] ok by (simp add: line_fits_def json_line_def readable_def)
  from apply_reading[OF R J c its(2) dn this out[unfolded its(1)]] its(3) E show ?thesis by simp
qed

lemma fetch_installs:
  assumes R: "redis_ok R v" and c: "index_ok R (v (snd ws))" and J: "json_ok J"
    and gen: "generate_frames R' hscan J compress answers scans s = Inr (lastID, frames)"
    and ok: "readable R J compress (scanned hscan scans 0) lastID frames"
    and zstd: "\<forall>j < length frames. inflate (concat (map compress (drop j frames))) = Some (concat (drop j frames), False)"
    and res: "resumable compress etag (scanned hscan scans 0) frames
      (resume_state (GetSyncStates R answered snapshot_keys (snd ws))) (entities (v (snd ws)))"
    and run: "fetchSnapshot R J inflate (\<lambda>req. Some (ServeContent etag (concat (map compress frames)) req)) answered call fates ws =
      (Inr i, ws')"
  shows "i = lastID \<and> index_ok R (v (snd ws')) \<and>
    entities (v (snd ws')) = fold put_ent (map pair_of (scanned hscan scans 0)) (\<lambda>_. None) \<and>
    settled lastID (abstract (v (snd ws')))"
proof -
  let ?es = "scanned hscan scans 0" and ?content = "concat (map compress frames)" and ?S = SnapshotFrameSize
  obtain tag offset n requested where rs: "resume_state (GetSyncStates R answered snapshot_keys (snd ws)) = (tag, offset, n, requested)"
    by (metis surj_pair)
  note rs' = rs[unfolded snapshot_keys_def]
  have ne: "frames \<noteq> []"
    using gen by (auto simp: generate_frames_def gen_finish_def split: prod.splits sum.splits if_splits)
  let ?req = "if requested then Some (offset, tag) else None"
  let ?resp = "ServeContent etag ?content ?req"
  have status: "hr_Status ?resp = 200 \<or> hr_Status ?resp = 206 \<or> hr_Status ?resp = 416" "hr_ETag ?resp = etag"
    by (auto simp: ServeContent_def Let_def)
  have plain: "hr_Status (ServeContent etag ?content None) = 200" by (simp add: ServeContent_def Let_def)
  show ?thesis
  proof (cases "requested \<and> hr_Status ?resp = 206")
    case True
    then have tag: "requested" "tag = etag" "hr_Body ?resp = drop (nat offset) ?content"
      by (auto simp: ServeContent_def Let_def split: if_splits)
    then obtain j where j: "j < length frames" "offset = compressed_size compress (take j frames)" "n = int (j * ?S)"
      "\<forall>eid. eid \<notin> (\<lambda>x. FormatInt (se_QID x)) ` set (drop (j * ?S) ?es) \<longrightarrow>
         entities (v (snd ws)) eid = fold put_ent (map pair_of (take (j * ?S) ?es)) (\<lambda>_. None) eid"
      using res by (auto simp: resumable_def rs)
    have body: "inflate (hr_Body ?resp) = Some (concat (drop j frames), False)"
      using zstd j(1) by (simp add: tag(3) j(2) drop_compressed)
    obtain e ws1 where p: "run_pipe R (fst (next_fate fates)) (start_pipe etag offset n) ws = (e, ws1)" by (metis surj_pair)
    have "apply_snapshot R J n (concat (drop j frames), False) (snd (next_fate fates)) ws1 = (Inr i, ws')"
      using run True status body p rs' by (simp add: fetchSnapshot_def Let_def split: if_splits)
    note a = this[unfolded j(3)]
    have st: "index_ok R (v (snd ws1))" "entities (v (snd ws1)) = entities (v (snd ws))"
      using start_run[OF R c, of "fst (next_fate fates)" etag offset n] p by simp_all
    have "fold put_ent (map pair_of (drop (j * ?S) ?es)) (entities (v (snd ws1))) = fold put_ent (map pair_of ?es) (\<lambda>_. None)"
      unfolding st(2) drop_map[symmetric] by (rule put_all)
        (use j(4) in \<open>simp add: drop_map take_map image_image pair_of_def\<close>)
    from fetch_step[OF R J gen ok j(1) st(1) a this] show ?thesis .
  next
    case False
    have body: "hr_Status ?resp = 200 \<Longrightarrow> hr_Body ?resp = ?content"
      by (auto simp: ServeContent_def Let_def split: if_splits)
    obtain e0 ws0 where r0: "reset_db R call (fst (next_fate fates)) ws = (e0, ws0)" by (metis surj_pair)
    let ?f1 = "snd (next_fate fates)"
    obtain e ws1 where p: "run_pipe R (fst (next_fate ?f1)) (start_pipe etag 0 0) ws0 = (e, ws1)" by (metis surj_pair)
    have two: "hr_Status ?resp = 200" "e0 = None"
      using run False status plain rs' r0 by (auto simp: fetchSnapshot_def Let_def split: if_splits option.splits)
    have infl: "inflate ?content = Some (concat frames, False)" using zstd ne by (cases frames) auto
    have a: "apply_snapshot R J (int (0 * ?S)) (concat (drop 0 frames), False) (snd (next_fate ?f1)) ws1 = (Inr i, ws')"
      using run two body[OF two(1)] infl status p rs' r0 by (simp add: fetchSnapshot_def Let_def split: if_splits)
    note st0 = reset_run[OF R r0[unfolded two(2)]]
    have st: "index_ok R (v (snd ws1))" "entities (v (snd ws1)) = (\<lambda>_. None)"
      using start_run[OF R conjunct1[OF st0], of "fst (next_fate ?f1)" etag 0 0] p st0 by simp_all
    have "0 < length frames" using ne by simp
    from fetch_step[OF R J gen ok this st(1) a] st(2) show ?thesis by simp
  qed
qed

section \<open>Success\<close>

lemma reset_good:
  assumes R: "redis_ok R v" and n: "int n + 16 < 2 ^ 63"
  shows "\<exists>w s. reset_db R Answered good_fate ws = (None, w, s) \<and> index_ok R (v s) \<and> room v s n"
proof -
  let ?ws = "(fst ws, r_flushdb R (snd ws))"
  have e: "v (snd ?ws) = no_content" by (simp add: redis_hash[OF R])
  then have "index_ok R (v (snd ?ws))" "room v (snd ?ws) n"
    using n index_ok_empty count_ok_empty by (simp_all add: room_def entity_total_def no_content_def)
  from meta_good[where build = "SetSyncState ''schema_version'' SchemaVersion", OF R this]
  obtain w s where "run_pipe R good_fate (SetSyncState ''schema_version'' SchemaVersion) ?ws = (None, w, s)"
    "index_ok R (v s)" "room v s n" by (auto simp: pipe_queues)
  then show ?thesis by (simp add: reset_db_def)
qed

lemma start_good:
  assumes R: "redis_ok R v" and c: "index_ok R (v (snd ws))" and r: "room v (snd ws) n"
  shows "\<exists>w s. run_pipe R good_fate (start_pipe etag o' k) ws = (None, w, s) \<and> index_ok R (v s) \<and> room v s n"
proof -
  from meta_good[where build = "start_pipe etag o' k", OF R c r snap_pipes(4)]
  show ?thesis by (auto simp: start_pipe_def pipe_queues)
qed

lemma apply_file:
  assumes R: "redis_ok R v" and J: "json_ok J"
    and gen: "generate_frames R' hscan J compress answers scans s = Inr (lastID, frames)"
    and ok: "readable R J compress (scanned hscan scans 0) lastID frames" and j: "j < length frames"
    and c: "index_ok R (v (snd ws1))" and r: "room v (snd ws1) (length (scanned hscan scans 0))"
  shows "fst (apply_snapshot R J (int (j * SnapshotFrameSize)) (concat (drop j frames), False) [] ws1) = Inr lastID"
proof -
  let ?es = "scanned hscan scans 0"
  obtain its where its: "concat (drop j frames) = snapshot_text J its (lastID, int (length ?es))"
    "counted R J (int (j * SnapshotFrameSize)) its" "ents its = map pair_of (drop (j * SnapshotFrameSize) ?es)"
    "j * SnapshotFrameSize \<le> length ?es"
    using generated_file[OF J gen ok j] by metis
  have dn: "done_pair (lastID, int (length ?es))" using ok by (simp add: done_pair_def readable_def)
  then have fits: "line_fits snapshotBufferSize (marshal_done J (done_of (lastID, int (length ?es))))"
    using json_ok_done(1)[OF J dn] ok by (simp add: line_fits_def json_line_def readable_def)
  have n: "int (length ?es) = int (j * SnapshotFrameSize) + int (length (ents its))"
    using its(4) unfolding its(3) by (simp add: of_nat_diff del: of_nat_mult)
  have "int (length (ents its)) \<le> int (length ?es)" unfolding its(3) by simp
  then have "room v (snd ws1) (length (ents its))" using r unfolding room_def by linarith
  from apply_alive[OF R J c its(2) n dn fits this] show ?thesis unfolding its(1) .
qed

lemma drop_frames_compressed:
  assumes "\<forall>f \<in> set frames. compress f \<noteq> []" "j < length frames"
  shows "compressed_size compress (take j frames) < int (length (concat (map compress frames)))"
proof -
  have "concat (map compress frames) =
      concat (map compress (take j frames)) @ compress (frames ! j) @ concat (map compress (drop (Suc j) frames))"
    using id_take_nth_drop[OF assms(2)] by (metis concat.simps(2) concat_append list.simps(9) map_append)
  moreover have "compress (frames ! j) \<noteq> []" using assms by simp
  ultimately show ?thesis by (cases "compress (frames ! j)") (simp_all add: compressed_size_def)
qed

lemma fetch_succeeds:
  assumes R: "redis_ok R v" and c: "index_ok R (v (snd ws))" and J: "json_ok J"
    and gen: "generate_frames R' hscan J compress answers scans s = Inr (lastID, frames)"
    and ok: "readable R J compress (scanned hscan scans 0) lastID frames"
    and zstd: "\<forall>j < length frames. inflate (concat (map compress (drop j frames))) = Some (concat (drop j frames), False)"
    and full: "\<forall>f \<in> set frames. compress f \<noteq> []" and etag: "etag \<noteq> []"
    and res: "resumable compress etag (scanned hscan scans 0) frames
      (resume_state (GetSyncStates R answered snapshot_keys (snd ws))) (entities (v (snd ws)))"
    and r: "room v (snd ws) (length (scanned hscan scans 0))"
  shows "fst (fetchSnapshot R J inflate (\<lambda>req. Some (ServeContent etag (concat (map compress frames)) req))
      answered Answered [] ws) = Inr lastID"
proof -
  let ?es = "scanned hscan scans 0" and ?content = "concat (map compress frames)" and ?S = SnapshotFrameSize
  obtain tag offset n requested where rs: "resume_state (GetSyncStates R answered snapshot_keys (snd ws)) = (tag, offset, n, requested)"
    by (metis surj_pair)
  note rs' = rs[unfolded snapshot_keys_def]
  have ne: "frames \<noteq> []"
    using gen by (auto simp: generate_frames_def gen_finish_def split: prod.splits sum.splits if_splits)
  then have content: "?content \<noteq> []" using full by (cases frames) auto
  show ?thesis
  proof (cases "requested \<and> tag = etag")
    case True
    then obtain j where j: "j < length frames" "offset = compressed_size compress (take j frames)" "n = int (j * ?S)"
      using res by (auto simp: resumable_def rs)
    have serve: "ServeContent etag ?content (Some (offset, etag)) =
        \<lparr>hr_Status = 206, hr_ETag = etag, hr_ContentEncoding = ''identity'', hr_Body = concat (map compress (drop j frames))\<rparr>"
      using True content drop_frames_compressed[OF full j(1)] by (simp add: ServeContent_def Let_def j(2) drop_compressed)
    obtain w t where st: "run_pipe R good_fate (start_pipe etag offset n) ws = (None, w, t)" "index_ok R (v t)" "room v t (length ?es)"
      using start_good[OF R c r] by blast
    have "fst (apply_snapshot R J n (concat (drop j frames), False) [] (w, t)) = Inr lastID"
      using apply_file[OF R J gen ok j(1), of "(w, t)"] st(2,3) j(3) by simp
    then show ?thesis
      using True rs' st(1) zstd j(1) etag by (simp add: fetchSnapshot_def Let_def serve)
  next
    case False
    then have serve: "ServeContent etag ?content (if requested then Some (offset, tag) else None) =
        \<lparr>hr_Status = 200, hr_ETag = etag, hr_ContentEncoding = ''identity'', hr_Body = ?content\<rparr>"
      by (simp add: ServeContent_def Let_def)
    have "int (length ?es) + 16 < 2 ^ 63" using r by (simp add: room_def entity_total_def)
    from reset_good[OF R this] obtain w0 s0 where s0: "reset_db R Answered good_fate ws = (None, w0, s0)" "index_ok R (v s0)" "room v s0 (length ?es)" by blast
    obtain w t where st: "run_pipe R good_fate (start_pipe etag 0 0) (w0, s0) = (None, w, t)" "index_ok R (v t)" "room v t (length ?es)"
      using start_good[OF R, of "(w0, s0)"] s0 by (metis snd_conv)
    have "0 < length frames" using ne by simp
    from apply_file[OF R J gen ok this, of "(w, t)"] st(2,3)
    have "fst (apply_snapshot R J 0 (concat frames, False) [] (w, t)) = Inr lastID" by simp
    moreover have "inflate ?content = Some (concat frames, False)" using zstd ne by (cases frames) auto
    ultimately show ?thesis
      using rs' st(1) s0(1) etag by (simp add: fetchSnapshot_def Let_def serve)
  qed
qed

text \<open>
  Claim C7: a replica that fetches a snapshot which the upstream generated, whole or from a
  checkpoint that an earlier attempt had reached, ends with exactly the entities that the
  upstream's scan returned (the last value of each), with the snapshot's stream position as its
  own, in the streaming state, with the index in order and the progress of the fetch forgotten.
\<close>

theorem fetchSnapshot_installs:
  assumes "redis_ok R v" and "index_ok R (v (snd ws))" and "json_ok J"
    and "generate_frames R' hscan J compress answers scans s = Inr (lastID, frames)"
    and "readable R J compress (scanned hscan scans 0) lastID frames"
    and "\<forall>j < length frames. inflate (concat (map compress (drop j frames))) = Some (concat (drop j frames), False)"
    and "resumable compress etag (scanned hscan scans 0) frames
      (resume_state (GetSyncStates R answered snapshot_keys (snd ws))) (entities (v (snd ws)))"
    and "fetchSnapshot R J inflate (\<lambda>req. Some (ServeContent etag (concat (map compress frames)) req)) answered call fates ws =
      (Inr i, ws')"
  shows "i = lastID \<and> index_ok R (v (snd ws')) \<and>
    entities (v (snd ws')) = fold put_ent (map pair_of (scanned hscan scans 0)) (\<lambda>_. None) \<and>
    settled lastID (abstract (v (snd ws')))"
  by (rule fetch_installs[OF assms])

text \<open>
  Claim C23: if the connection to the database holds, the file is served, and the entity counter
  has room, the fetch succeeds, from the start or from a checkpoint; it does not stop at a
  checkpoint, at the end of a frame or at the end of the file.
\<close>

theorem fetchSnapshot_succeeds:
  assumes "redis_ok R v" and "index_ok R (v (snd ws))" and "json_ok J"
    and "generate_frames R' hscan J compress answers scans s = Inr (lastID, frames)"
    and "readable R J compress (scanned hscan scans 0) lastID frames"
    and "\<forall>j < length frames. inflate (concat (map compress (drop j frames))) = Some (concat (drop j frames), False)"
    and "\<forall>f \<in> set frames. compress f \<noteq> []" and "etag \<noteq> []"
    and "resumable compress etag (scanned hscan scans 0) frames
      (resume_state (GetSyncStates R answered snapshot_keys (snd ws))) (entities (v (snd ws)))"
    and "room v (snd ws) (length (scanned hscan scans 0))"
  shows "fst (fetchSnapshot R J inflate (\<lambda>req. Some (ServeContent etag (concat (map compress frames)) req))
      answered Answered [] ws) = Inr lastID"
  by (rule fetch_succeeds[OF assms])

section \<open>A torn checkpoint\<close>

text \<open>
  The two fields of a checkpoint are set by a pipe that is no transaction and whose error is
  ignored, so a lost connection can leave the offset of one checkpoint beside the count of an
  earlier one.
\<close>

lemma torn_checkpoint:
  "prefixes_spec [take 1 (p_cmds (checkpoint_pipe cp \<lparr>p_err = None, p_cmds = []\<rparr>))] a =
     a\<lparr>a_sync := (a_sync a)(''snapshot_resume_offset'' \<mapsto> FormatInt (cp_Offset cp))\<rparr>"
  by (simp add: prefixes_spec_def checkpoint_pipe_def pipe_queues)

text \<open>One attempt after another, each with the fates of its pipes.\<close>

fun attempts ::
  "(fate list \<Rightarrow> Writer \<times> 's \<Rightarrow> (replica_error + string) \<times> Writer \<times> 's) \<Rightarrow> fate list list \<Rightarrow> Writer \<times> 's \<Rightarrow>
   (replica_error + string) list \<times> Writer \<times> 's" where
  "attempts fetch [] ws = ([], ws)"
| "attempts fetch (fs # fss) ws =
     (case fetch fs ws of (r, ws1) \<Rightarrow> (case attempts fetch fss ws1 of (rs, ws2) \<Rightarrow> (r # rs, ws2)))"

definition progress :: "string \<Rightarrow> int \<Rightarrow> int \<Rightarrow> (string \<Rightarrow> string option) \<Rightarrow> bool" where
  "progress etag offset n m \<longleftrightarrow> m ''snapshot_etag'' = Some etag \<and>
     m ''snapshot_resume_offset'' = Some (FormatInt offset) \<and> m ''snapshot_resume_entities'' = Some (FormatInt n)"

lemma progress_resume:
  assumes R: "redis_ok R v" and p: "progress etag offset n (a_sync (abstract (v s)))"
    and ok: "etag \<noteq> []" "0 < offset" "int64 offset" "int64 n"
  shows "resume_state (GetSyncStates R True snapshot_keys s) = (etag, offset, n, True)"
  using p ok by (simp add: resume_state_def GetSyncStates_def snapshot_keys_def progress_def redis_hash[OF R])

text \<open>Setting the same values again, in part or in full, changes nothing.\<close>

lemma start_again:
  assumes R: "redis_ok R v" and c: "index_ok R (v (snd ws))" and p: "progress etag offset n (a_sync (abstract (v (snd ws))))"
  shows "progress etag offset n (a_sync (abstract (v (snd (snd (run_pipe R f (start_pipe etag offset n) ws))))))"
proof -
  let ?cs = "p_cmds (start_pipe etag offset n \<lparr>p_err = None, p_cmds = []\<rparr>)"
  let ?keep = "\<lambda>a. progress etag offset n (a_sync a)"
  have "pipe_ok R (start_pipe etag offset n \<lparr>p_err = None, p_cmds = []\<rparr>)"
    by (simp add: pipe_ok_def start_pipe_def pipe_queues)
  then obtain ps where ps: "\<forall>p \<in> set ps. \<exists>n. p = take n ?cs"
    "abstract (v (snd (snd (run_pipe R f (start_pipe etag offset n) ws)))) = prefixes_spec ps (abstract (v (snd ws)))"
    by - (rule run_pipe_refines[where f = f, OF R c, of "start_pipe etag offset n"], use snap_pipes(4) in auto)
  have step: "?keep (fold cmd_spec cs a)" if "?keep a" "set cs \<subseteq> set ?cs" for cs a
    using that
  proof (induction cs arbitrary: a)
    case Nil
    then show ?case by simp
  next
    case (Cons k cs)
    then have "?keep (cmd_spec k a)" by (auto simp: progress_def start_pipe_def pipe_queues)
    with Cons show ?case by simp
  qed
  have part: "?keep (fold cmd_spec (take k ?cs) a)" if "?keep a" for a k
    by (rule step[OF that set_take_subset])
  have "?keep (prefixes_spec ps (abstract (v (snd ws))))"
    by (rule prefixes_keep[where I = ?keep, OF ps(1) part p])
  with ps(2) show ?thesis by simp
qed

lemma stuck_once:
  assumes R: "redis_ok R v" and J: "json_ok J" and c: "index_ok R (v (snd ws))"
    and p: "progress etag offset n (a_sync (abstract (v (snd ws))))"
    and ok: "etag \<noteq> []" "0 < offset" "int64 n" "count_pair (offset, k)" "n \<noteq> k"
    and fits: "length (marshal_checkpoint J (checkpoint_of (offset, k))) < snapshotBufferSize"
    and up: "upstream (Some (offset, etag)) = Some resp" "hr_Status resp = 206" "hr_ETag resp = etag"
    and body: "inflate (hr_Body resp) = Some (marshal_checkpoint J (checkpoint_of (offset, k)) @ newline # rest, read_error)"
    and run: "fetchSnapshot R J inflate upstream True call fates ws = (r, ws')"
  shows "r = Inl (CheckpointMismatch offset n k) \<and> index_ok R (v (snd ws')) \<and>
    progress etag offset n (a_sync (abstract (v (snd ws')))) \<and> entities (v (snd ws')) = entities (v (snd ws))"
proof -
  let ?line = "marshal_checkpoint J (checkpoint_of (offset, k))"
  have "int64 offset" using ok(4) by (simp add: count_pair_def)
  note rs = progress_resume[OF R p ok(1,2) this ok(3), unfolded snapshot_keys_def]
  obtain e ws1 where st: "run_pipe R (fst (next_fate fates)) (start_pipe etag offset n) ws = (e, ws1)" by (metis surj_pair)
  note j = json_ok_checkpoint[OF J ok(4)]
  have "\<forall>l \<in> set [?line]. line_fits snapshotBufferSize l" using j(1) fits by (simp add: line_fits_def json_line_def)
  from scan_unlines_rest[OF this, of rest] obtain ls e2 where
    sc: "scan_lines snapshotBufferSize (?line @ newline # rest) = (?line # ls, e2)" by (auto split: prod.splits)
  have cl: "ClassifySnapshotLine ?line = LineControl" using j(1) by (simp add: json_line_def)
  have "apply_snapshot R J n (?line @ newline # rest, read_error) (snd (next_fate fates)) ws1 = (Inl (CheckpointMismatch offset n k), ws1)"
    using sc cl j ok(5) by (simp add: apply_snapshot_def snapshot_line_def control_line_def flushBatch_def Let_def checkpoint_of_def)
  then have "r = Inl (CheckpointMismatch offset n k)" "ws' = ws1"
    using run rs up body st ok by (simp_all add: fetchSnapshot_def Let_def)
  with start_run[OF R c, of "fst (next_fate fates)" etag offset n] start_again[OF R c p, of "fst (next_fate fates)"] st
  show ?thesis by simp
qed

text \<open>
  Claim C37: once the stored offset is that of one checkpoint and the stored count is not the one
  that belongs to it, every further attempt against the same snapshot fails with a checkpoint
  mismatch, however often it is repeated; the progress stays as it is and the store gets no
  entity. (A resume is only given up when the upstream publishes another snapshot.)
\<close>

theorem fetchSnapshot_stuck:
  assumes R: "redis_ok R v" and J: "json_ok J" and c: "index_ok R (v (snd ws))"
    and p: "progress etag offset n (a_sync (abstract (v (snd ws))))"
    and ok: "etag \<noteq> []" "0 < offset" "int64 n" "count_pair (offset, k)" "n \<noteq> k"
    and fits: "length (marshal_checkpoint J (checkpoint_of (offset, k))) < snapshotBufferSize"
    and up: "upstream (Some (offset, etag)) = Some resp" "hr_Status resp = 206" "hr_ETag resp = etag"
    and body: "inflate (hr_Body resp) = Some (marshal_checkpoint J (checkpoint_of (offset, k)) @ newline # rest, read_error)"
    and run: "attempts (fetchSnapshot R J inflate upstream True call) fss ws = (rs, ws')"
  shows "rs = replicate (length fss) (Inl (CheckpointMismatch offset n k)) \<and>
    progress etag offset n (a_sync (abstract (v (snd ws')))) \<and> entities (v (snd ws')) = entities (v (snd ws))"
  using c p run
proof (induction fss arbitrary: ws rs)
  case Nil
  then show ?case by auto
next
  case (Cons fs fss)
  obtain r ws1 where one: "fetchSnapshot R J inflate upstream True call fs ws = (r, ws1)" by (metis surj_pair)
  obtain rs2 ws2 where more': "attempts (fetchSnapshot R J inflate upstream True call) fss ws1 = (rs2, ws2)" by (metis surj_pair)
  note s = stuck_once[OF R J Cons.prems(1,2) ok fits up body one]
  have "rs = r # rs2" "ws2 = ws'" using Cons.prems(3) one more' by simp_all
  with s Cons.IH[of ws1 rs2] more' show ?case by (simp del: abstract_sel)
qed

section \<open>Witnesses\<close>

text \<open>One entity, scanned in one turn, in one frame that is not compressed.\<close>

definition example_scan :: "nat \<Rightarrow> nat \<Rightarrow> content \<Rightarrow> (string \<times> string) list \<times> nat" where
  "example_scan cursor n c = ([(''42'', ''[]'')], 0)"

abbreviation example_scans :: "(bool \<times> bool \<times> content) list" where
  "example_scans \<equiv> [(False, True, example_log)]"

abbreviation example_lines :: string where
  "example_lines \<equiv> snapshot_text text_codec [Check 0 0, Ent 42 ''[]''] (sid_str (3, 0), 1)"

lemma example_scanned: "scanned example_scan [(False, True, c)] 0 = [\<lparr>se_QID = 42, se_RawMappings = ''[]''\<rparr>]"
proof -
  have "FormatInt 42 = ''42''" by code_simp
  then have "ParseInt ''42'' = (42, None)" using ParseInt_FormatInt[of 42] by (simp add: int64_def)
  then show ?thesis by (simp add: example_scan_def)
qed

lemma example_file:
  assumes info: "StreamInfo mem_redis True True True c = Inr (first, sid_str (3, 0), n)"
  shows "generate_frames mem_redis example_scan text_codec id (True, True, True) [(False, True, c')] c =
     Inr (sid_str (3, 0), [example_lines])"
proof -
  have "scan_entities [(''42'', ''[]'')] = [\<lparr>se_QID = 42, se_RawMappings = ''[]''\<rparr>]"
    using example_scanned by (simp add: example_scan_def)
  then have "gen_scan example_scan text_codec id [(False, True, c')] 0 (gen_start text_codec) =
      Inr (gen_entity text_codec id SnapshotFrameSize \<lparr>se_QID = 42, se_RawMappings = ''[]''\<rparr> (gen_start text_codec))"
    by (simp add: ScanEntities_def example_scan_def Let_def)
  moreover have "sid_str (3, 0) \<noteq> []" by (simp add: sid_str_def)
  ultimately show ?thesis
    by (simp add: generate_frames_def info gen_finish_def gen_entity_def gen_start_def SnapshotFrameSize_def
        snapshot_text_def checkpoint_line AppendSnapshotDoneLine_def done_of_def entity_line(2) Let_def)
qed

lemma example_frames:
  "generate_frames mem_redis example_scan text_codec id (True, True, True) example_scans example_log =
     Inr (sid_str (3, 0), [example_lines])"
proof -
  have i: "ids_ok example_stream" by simp
  have "StreamInfo mem_redis True True True example_log = Inr (sid_str (1, 0), sid_str (3, 0), 3)"
    using stream_info[OF mem_redis_ok i, of example_log] by (simp add: example_stream_def)
  then show ?thesis by (rule example_file)
qed

lemma example_numbers:
  "sid_str (3, 0) = ''3-0''" "FormatInt 0 = ''0''" "FormatInt 1 = ''1''" "FormatInt 42 = ''42''"
  by code_simp+

lemma example_controls:
  "marshal_checkpoint text_codec (checkpoint_of (0, 0)) = ''{\"type\":\"checkpoint\",\"v\":1,\"offset\":0,\"entities_before\":0}''"
  "marshal_done text_codec (done_of (''3-0'', 1)) = ''{\"type\":\"done\",\"v\":1,\"stream_id\":\"3-0\",\"entities\":1}''"
  by (simp_all add: text_codec_def checkpoint_text_def done_text_def control_text_def checkpoint_of_def done_of_def
      control_defs example_numbers)

lemma example_ent: "ent_ok mem_redis (42, ''[]'')"
proof -
  have "dec_strings ''[]'' = Some []" by code_simp
  then have "mappings_ok mem_redis ''[]''" by (simp add: mappings_ok_def)
  moreover have "line_fits snapshotBufferSize (entity_line (42, ''[]''))"
    by (simp add: line_fits_def entity_line(1) example_numbers drop_cr_def snapshotBufferSize_def)
  ultimately show ?thesis by (simp add: ent_ok_def int64_def)
qed

lemma example_readable: "readable mem_redis text_codec id (scanned example_scan [(False, True, c)] 0) (sid_str (3, 0)) [example_lines]"
proof -
  have "plain_id ''3-0''" by code_simp
  then have "plain_id (sid_str (3, 0))" by (simp only: example_numbers)
  moreover have "int64 (compressed_size id [example_lines])"
    by (simp add: compressed_size_def snapshot_text_def example_controls entity_line(1) example_numbers example_controls int64_def)
  ultimately show ?thesis
    unfolding example_scanned using example_ent by (simp add: readable_def pair_of_def example_controls example_numbers snapshotBufferSize_def
        compressed_size_def int64_def)
qed

lemma example_fresh:
  "resumable id ''\"s\"'' es frames (resume_state (GetSyncStates mem_redis True snapshot_keys no_content)) E"
  by (simp add: resume_state_def GetSyncStates_def snapshot_keys_def resumable_def no_content_def)

lemma example_room: "room id no_content 1"
  using count_ok_empty by (simp add: room_def entity_total_def no_content_def)

abbreviation example_start :: "Writer \<times> content" where
  "example_start \<equiv> (\<lparr>scriptsLoaded = False\<rparr>, no_content)"

lemma example_fetch:
  "index_ok mem_redis (id (snd example_start))"
  "\<forall>j < length [example_lines]. Some (concat (map id (drop j [example_lines])), False) = Some (concat (drop j [example_lines]), False)"
  "\<forall>f \<in> set [example_lines]. id f \<noteq> []"
  "resumable id ''\"s\"'' (scanned example_scan example_scans 0) [example_lines]
      (resume_state (GetSyncStates mem_redis True snapshot_keys (snd example_start))) (entities (id (snd example_start)))"
  "room id (snd example_start) (length (scanned example_scan example_scans 0))"
  unfolding example_scanned using example_fresh example_room by (simp_all add: index_ok_empty snapshot_text_def)

theorem fetchSnapshot_succeeds_witness:
  "fst (fetchSnapshot mem_redis text_codec (\<lambda>b. Some (b, False)) (\<lambda>req. Some (ServeContent ''\"s\"'' example_lines req))
     True Answered [] example_start) = Inr (sid_str (3, 0))"
  using fetchSnapshot_succeeds[OF mem_redis_ok example_fetch(1) text_codec_ok example_frames example_readable
      example_fetch(2,3) _ example_fetch(4,5)] by simp

theorem fetchSnapshot_installs_witness:
  "\<exists>w s. fetchSnapshot mem_redis text_codec (\<lambda>b. Some (b, False)) (\<lambda>req. Some (ServeContent ''\"s\"'' example_lines req))
     True Answered [] example_start = (Inr (sid_str (3, 0)), w, s) \<and> entities s = [''42'' \<mapsto> ''[]'']"
proof -
  from fetch_succeeds[OF mem_redis_ok example_fetch(1) text_codec_ok example_frames example_readable
      example_fetch(2,3) _ example_fetch(4,5)]
  obtain w s where run: "fetchSnapshot mem_redis text_codec (\<lambda>b. Some (b, False))
      (\<lambda>req. Some (ServeContent ''\"s\"'' (concat (map id [example_lines])) req)) True Answered [] example_start = (Inr (sid_str (3, 0)), w, s)"
    by (metis (no_types, lifting) list.distinct(1) fst_conv surj_pair)
  from fetchSnapshot_installs[OF mem_redis_ok example_fetch(1) text_codec_ok example_frames example_readable
      example_fetch(2,4) run] run
  show ?thesis unfolding example_scanned by (simp add: pair_of_def put_ent_def example_numbers)
qed

text \<open>The offset of a checkpoint after four entities, and the count of the one before it.\<close>

definition torn_db :: content where
  "torn_db = put_hash metaKey [''snapshot_etag'' \<mapsto> ''\"s\"'', ''snapshot_resume_offset'' \<mapsto> FormatInt 42,
     ''snapshot_resume_entities'' \<mapsto> FormatInt 0] no_content"

definition torn_reply :: http_reply where
  "torn_reply = \<lparr>hr_Status = 206, hr_ETag = ''\"s\"'', hr_ContentEncoding = [],
     hr_Body = marshal_checkpoint text_codec (checkpoint_of (42, 1)) @ newline # []\<rparr>"

theorem fetchSnapshot_stuck_witness:
  "fst (attempts (fetchSnapshot mem_redis text_codec (\<lambda>b. Some (b, False)) (\<lambda>req. Some torn_reply) True Answered)
     [[], [], []] (\<lparr>scriptsLoaded = True\<rparr>, torn_db)) = replicate 3 (Inl (CheckpointMismatch 42 0 1))"
proof -
  let ?ws = "(\<lparr>scriptsLoaded = True\<rparr>, torn_db)"
  let ?run = "attempts (fetchSnapshot mem_redis text_codec (\<lambda>b. Some (b, False)) (\<lambda>req. Some torn_reply) True Answered) [[], [], []] ?ws"
  have c: "index_ok mem_redis (id (snd ?ws))"
    using meta_frame(1)[of torn_db _ no_content mem_redis] index_ok_empty by (simp add: torn_db_def)
  have p: "progress ''\"s\"'' 42 0 (a_sync (abstract (id (snd ?ws))))"
    by (simp add: progress_def torn_db_def)
  have pair: "count_pair (42, 1)" by (simp add: count_pair_def int64_def)
  have fits: "length (marshal_checkpoint text_codec (checkpoint_of (42, 1))) < snapshotBufferSize"
    by (simp add: text_codec_def checkpoint_text_def control_text_def checkpoint_of_def control_defs example_numbers
        snapshotBufferSize_def)
  obtain rs ws' where run: "?run = (rs, ws')" by (metis surj_pair)
  have "rs = replicate (length ([[], [], []] :: fate list list)) (Inl (CheckpointMismatch 42 0 1)) \<and>
      progress ''\"s\"'' 42 0 (a_sync (abstract (id (snd ws')))) \<and> entities (id (snd ws')) = entities (id (snd ?ws))"
    by (rule fetchSnapshot_stuck[where resp = torn_reply and rest = "[]" and read_error = False, OF mem_redis_ok text_codec_ok c p _ _ _ pair _ fits _ _ _ _ run])
      (simp_all add: torn_reply_def int64_def)
  with run show ?thesis by (simp add: numeral_3_eq_3 del: attempts.simps)
qed

end
