(* ===== verification/DumpReader.thy ===== *)
theory DumpReader
  imports Wikidata
begin

text \<open>
  The readers of \<open>internal/watcher/seed.go\<close>: the download that resumes after a lost connection
  (\<open>resumableBody\<close>), the byte counter (\<open>countingReader\<close>) and the channel between decompression
  and parsing (\<open>chanReader\<close>). All of them are readers of one contract, the locale \<open>io_reader\<close>:
  what they return is, piece by piece, the text they have left, and an end of file means that
  nothing is left.
\<close>

section \<open>The contract of a reader\<close>

datatype dump_error =
    DumpChanged | TooManyResumes | ResumeFailed | RangeUnsupported | ResumeStatus int
  | DumpCancelled | BodyBroken | NoDecompressor | CorruptData

datatype read_end = AtEof | Failed dump_error

text \<open>
  \<open>rd e s\<close> is one call of \<open>Read\<close>; \<open>e\<close> is what the call depends on besides the state: the size
  of the buffer or the network. The calls running out means that the consumer stops reading.
\<close>

fun read_all :: "('e \<Rightarrow> 's \<Rightarrow> (string \<times> read_end option) \<times> 's) \<Rightarrow> 'e list \<Rightarrow> 's \<Rightarrow> string \<times> read_end option" where
  "read_all rd [] s = ([], None)"
| "read_all rd (e # es) s =
     (case rd e s of
        ((x, Some end), s') \<Rightarrow> (x, Some end)
      | ((x, None), s') \<Rightarrow> (case read_all rd es s' of (y, end) \<Rightarrow> (x @ y, end)))"

locale io_reader =
  fixes rd :: "'e \<Rightarrow> 's \<Rightarrow> (string \<times> read_end option) \<times> 's"
    and ok :: "'e \<Rightarrow> bool"
    and rest :: "'s \<Rightarrow> string \<Rightarrow> bool"
  assumes piece: "ok e \<Longrightarrow> rest s t \<Longrightarrow> rd e s = ((x, None), s') \<Longrightarrow> \<exists>t'. t = x @ t' \<and> rest s' t'"
    and ended: "ok e \<Longrightarrow> rest s t \<Longrightarrow> rd e s = ((x, Some AtEof), s') \<Longrightarrow> t = x"
    and failed: "ok e \<Longrightarrow> rest s t \<Longrightarrow> rd e s = ((x, Some (Failed err)), s') \<Longrightarrow> \<exists>t'. t = x @ t'"
begin

lemma all_read:
  "\<forall>e \<in> set es. ok e \<Longrightarrow> rest s t \<Longrightarrow> read_all rd es s = (y, end) \<Longrightarrow>
   (\<exists>t'. t = y @ t') \<and> (end = Some AtEof \<longrightarrow> y = t)"
proof (induction es arbitrary: s t y)
  case Nil
  then show ?case by simp
next
  case (Cons e es)
  obtain x fin s' where r: "rd e s = ((x, fin), s')" by (metis surj_pair)
  show ?case
  proof (cases fin)
    case None
    obtain y' end' where rest': "read_all rd es s' = (y', end')" by fastforce
    with Cons.prems(3) r None have y: "y = x @ y'" "end = end'" by simp_all
    obtain t' where t': "t = x @ t'" "rest s' t'"
      using piece[OF _ Cons.prems(2) r[unfolded None]] Cons.prems(1) by auto
    have "\<forall>e \<in> set es. ok e" using Cons.prems(1) by simp
    from Cons.IH[OF this t'(2)] rest' y t'(1) show ?thesis by auto
  next
    case (Some en)
    then have y: "y = x" "end = Some en" using Cons.prems(3) r by simp_all
    show ?thesis
    proof (cases en)
      case AtEof
      with ended[OF _ Cons.prems(2)] r Some Cons.prems(1) y show ?thesis by auto
    next
      case (Failed err)
      with failed[OF _ Cons.prems(2)] r Some Cons.prems(1) y show ?thesis by auto
    qed
  qed
qed

end

section \<open>Waiting before a retry\<close>

definition dumpResumeMaxRetries :: nat where "dumpResumeMaxRetries = 10"
definition dumpResumeBaseDelay :: int where "dumpResumeBaseDelay = 5 * second"
definition dumpResumeMaxDelay :: int where "dumpResumeMaxDelay = 2 * minute"
definition dumpResumeBackoffFactor :: int where "dumpResumeBackoffFactor = 2"

fun resume_delay :: "nat \<Rightarrow> int \<Rightarrow> int" where
  "resume_delay 0 delay = delay"
| "resume_delay (Suc n) delay =
     (let delay' = wrap64 (delay * dumpResumeBackoffFactor) in
      if delay' > dumpResumeMaxDelay then dumpResumeMaxDelay else resume_delay n delay')"

text \<open>The loop runs from 1 to below \<open>retries\<close>.\<close>

definition dumpResumeRetryDelay :: "nat \<Rightarrow> int" where
  "dumpResumeRetryDelay retries = resume_delay (retries - 1) dumpResumeBaseDelay"

definition dumpWriteMaxRetries :: nat where "dumpWriteMaxRetries = 5"
definition dumpWriteBaseDelay :: int where "dumpWriteBaseDelay = 2 * second"

definition dumpWriteRetryDelay :: "nat \<Rightarrow> int" where
  "dumpWriteRetryDelay attempt =
     (if attempt = 0 then 0 else wrap64 (push_bit (attempt - 1) dumpWriteBaseDelay))"

text \<open>
  \<open>waitForContext\<close>: whether the context is done before the wait is over; a wait of zero only
  looks.
\<close>

definition waitForContext :: "bool \<Rightarrow> bool \<Rightarrow> int \<Rightarrow> dump_error option" where
  "waitForContext is_done done_while d =
     (if d \<le> 0 then (if is_done then Some DumpCancelled else None)
      else (if is_done \<or> done_while then Some DumpCancelled else None))"

section \<open>The download\<close>

text \<open>A connection is the list of what its reads return; after them it is at its end.\<close>

datatype body_end = BodyEof | BodyError

type_synonym body = "(string \<times> body_end option) list"

record resumableBody =
  rb_body :: body
  rb_etag :: string
  rb_offset :: int
  rb_retries :: nat

definition newResumableBody :: "body \<Rightarrow> string \<Rightarrow> resumableBody" where
  "newResumableBody b etag = \<lparr>rb_body = b, rb_etag = etag, rb_offset = 0, rb_retries = 0\<rparr>"

text \<open>
  The network at one call: whether the context is cancelled during the wait, and the answer of
  the server to a range request from an offset under an ETag.
\<close>

record network =
  nw_cancelled :: bool
  nw_server :: "int \<Rightarrow> string \<Rightarrow> (int \<times> body) option"

definition reconnect :: "network \<Rightarrow> resumableBody \<Rightarrow> dump_error option \<times> resumableBody" where
  "reconnect nw rb =
     (let rb1 = rb\<lparr>rb_retries := Suc (rb_retries rb)\<rparr> in
      if rb_retries rb1 > dumpResumeMaxRetries then (Some TooManyResumes, rb1)
      else (case waitForContext (nw_cancelled nw) (nw_cancelled nw) (dumpResumeRetryDelay (rb_retries rb1)) of
              Some e \<Rightarrow> (Some e, rb1)
            | None \<Rightarrow>
                (case nw_server nw (rb_offset rb1) (rb_etag rb1) of
                   None \<Rightarrow> (Some ResumeFailed, rb1)
                 | Some (status, b) \<Rightarrow>
                     if status = 206 then (None, rb1\<lparr>rb_body := b\<rparr>)
                     else if status = 412 \<or> status = 416 then (Some DumpChanged, rb1)
                     else if status = 200 then (Some RangeUnsupported, rb1)
                     else (Some (ResumeStatus status), rb1))))"

fun next_read :: "body \<Rightarrow> (string \<times> body_end option) \<times> body" where
  "next_read [] = (([], Some BodyEof), [])"
| "next_read (r # rs) = (r, rs)"

definition resumable_Read :: "network \<Rightarrow> resumableBody \<Rightarrow> (string \<times> read_end option) \<times> resumableBody" where
  "resumable_Read nw rb =
     (case next_read (rb_body rb) of
        ((x, err), b) \<Rightarrow>
          let rb1 = rb\<lparr>rb_body := b, rb_offset := rb_offset rb + int (length x),
                       rb_retries := (if x \<noteq> [] then 0 else rb_retries rb)\<rparr> in
          (case err of
             None \<Rightarrow> ((x, None), rb1)
           | Some BodyEof \<Rightarrow> ((x, Some AtEof), rb1)
           | Some BodyError \<Rightarrow>
               if rb_etag rb = [] then ((x, Some (Failed BodyBroken)), rb1)
               else (case reconnect nw rb1 of
                       (Some e, rb2) \<Rightarrow> ((x, Some (Failed e)), rb2)
                     | (None, rb2) \<Rightarrow> ((x, None), rb2))))"

text \<open>
  What a server promises that answers range requests with \<open>If-Match\<close>: the body is the file from
  the offset on, unless it is cut off.
\<close>

fun sends :: "string \<Rightarrow> body \<Rightarrow> bool" where
  "sends t [] \<longleftrightarrow> t = []"
| "sends t ((x, None) # b) \<longleftrightarrow> take (length x) t = x \<and> sends (drop (length x) t) b"
| "sends t ((x, Some BodyEof) # b) \<longleftrightarrow> t = x"
| "sends t ((x, Some BodyError) # b) \<longleftrightarrow> take (length x) t = x"

definition honest :: "string \<Rightarrow> string \<Rightarrow> network \<Rightarrow> bool" where
  "honest file etag nw \<longleftrightarrow>
     (\<forall>n b. nw_server nw (int n) etag = Some (206, b) \<longrightarrow> sends (drop n file) b)"

definition body_left :: "string \<Rightarrow> string \<Rightarrow> resumableBody \<Rightarrow> string \<Rightarrow> bool" where
  "body_left file etag rb t \<longleftrightarrow> rb_etag rb = etag \<and> rb_retries rb \<le> dumpResumeMaxRetries \<and>
     (\<exists>n \<le> length file. rb_offset rb = int n \<and> t = drop n file) \<and> sends t (rb_body rb)"

lemma reconnect_cases:
  assumes "reconnect nw rb = (None, rb')"
  obtains b where "rb' = rb\<lparr>rb_retries := Suc (rb_retries rb), rb_body := b\<rparr>" "rb_retries rb < dumpResumeMaxRetries"
    "nw_server nw (rb_offset rb) (rb_etag rb) = Some (206, b)"
  using assms by (auto simp: reconnect_def Let_def split: if_splits option.splits)

lemma sends_piece:
  assumes "sends t b" "next_read b = ((x, err), b')" "err \<noteq> Some BodyEof"
  shows "take (length x) t = x" "err = None \<Longrightarrow> sends (drop (length x) t) b'"
  using assms by (cases "(t, b)" rule: sends.cases; auto)+

lemma sends_end: "sends t b \<Longrightarrow> next_read b = ((x, Some BodyEof), b') \<Longrightarrow> t = x"
  by (cases "(t, b)" rule: sends.cases) auto

lemma resumable_step:
  assumes h: "honest file etag nw" and l: "body_left file etag rb t" and r: "resumable_Read nw rb = ((x, fin), rb')"
  shows "(fin = None \<longrightarrow> (\<exists>t'. t = x @ t' \<and> body_left file etag rb' t')) \<and> (fin = Some AtEof \<longrightarrow> t = x) \<and> (\<exists>t'. t = x @ t')"
proof -
  obtain y err b where n: "next_read (rb_body rb) = ((y, err), b)" by (metis surj_pair)
  obtain k where k: "k \<le> length file" "rb_offset rb = int k" "t = drop k file" "sends t (rb_body rb)" "rb_etag rb = etag"
    "rb_retries rb \<le> dumpResumeMaxRetries"
    using l by (auto simp: body_left_def)
  let ?rb1 = "rb\<lparr>rb_body := b, rb_offset := rb_offset rb + int (length y), rb_retries := (if y \<noteq> [] then 0 else rb_retries rb)\<rparr>"
  have x: "x = y" using r n by (auto simp: resumable_Read_def Let_def split: option.splits body_end.splits if_splits prod.splits)
  show ?thesis
  proof (cases "err = Some BodyEof")
    case True
    with r n have "fin = Some AtEof" by (simp add: resumable_Read_def Let_def)
    with sends_end[OF k(4)] n True x show ?thesis by auto
  next
    case False
    note p = sends_piece[OF k(4) n False]
    define k' where "k' = k + length y"
    have t: "t = y @ drop k' file" using p(1) unfolding k(3) k'_def by (metis append_take_drop_id drop_drop add.commute)
    have "length y \<le> length t" using p(1) by (metis length_take min.cobounded1)
    then have k': "k' \<le> length file" "rb_offset rb + int (length y) = int k'" using k by (auto simp: k'_def)
    have left: "body_left file etag rb' (drop k' file)" if "fin = None"
    proof (cases err)
      case None
      have "rb' = ?rb1" using r n None by (auto simp: resumable_Read_def Let_def)
      moreover have "sends (drop (length y) t) b" using p(2) None .
      moreover have "drop (length y) t = drop k' file" using t by (metis append_eq_conv_conj)
      ultimately show ?thesis using k k' by (auto simp: body_left_def)
    next
      case (Some e)
      with False have e: "err = Some BodyError" by (cases e) auto
      with r n that have rc: "reconnect nw ?rb1 = (None, rb')"
        by (auto simp: resumable_Read_def Let_def split: if_splits prod.splits option.splits)
      from reconnect_cases[OF rc] obtain b' where
        b': "rb' = ?rb1\<lparr>rb_retries := Suc (rb_retries ?rb1), rb_body := b'\<rparr>" "rb_retries ?rb1 < dumpResumeMaxRetries"
          "nw_server nw (rb_offset ?rb1) (rb_etag ?rb1) = Some (206, b')" by metis
      have "sends (drop k' file) b'" using h b'(3) k(5) k'(2) by (simp add: honest_def)
      with b' k k' show ?thesis by (auto simp: body_left_def)
    qed
    have "fin \<noteq> Some AtEof"
      using r n False by (auto simp: resumable_Read_def Let_def split: option.splits body_end.splits if_splits prod.splits)
    with left t x show ?thesis by auto
  qed
qed

interpretation download: io_reader resumable_Read "honest f etag" "body_left f etag" for f etag
proof (unfold_locales, goal_cases)
  case (1 e s t x s')
  from resumable_step[OF this] show ?case by blast
next
  case (2 e s t x s')
  from resumable_step[OF this] show ?case by blast
next
  case (3 e s t x err s')
  from resumable_step[OF this] show ?case by blast
qed

section \<open>Counting\<close>

record 's countingReader =
  cr_r :: 's
  cr_bytes :: int

definition counting_Read ::
  "('e \<Rightarrow> 's \<Rightarrow> (string \<times> read_end option) \<times> 's) \<Rightarrow> 'e \<Rightarrow> 's countingReader \<Rightarrow> (string \<times> read_end option) \<times> 's countingReader" where
  "counting_Read rd e c =
     (case rd e (cr_r c) of (r, s') \<Rightarrow> (r, \<lparr>cr_r = s', cr_bytes = cr_bytes c + int (length (fst r))\<rparr>))"

context io_reader begin

lemma counted: "io_reader (counting_Read rd) ok (\<lambda>c. rest (cr_r c))"
proof (unfold_locales, goal_cases)
  case (1 e c t x c')
  then obtain s' where "rd e (cr_r c) = ((x, None), s')" "cr_r c' = s'" by (auto simp: counting_Read_def split: prod.splits)
  with 1 piece show ?case by blast
next
  case (2 e c t x c')
  then obtain s' where "rd e (cr_r c) = ((x, Some AtEof), s')" by (auto simp: counting_Read_def split: prod.splits)
  with 2 ended show ?case by blast
next
  case (3 e c t x err c')
  then obtain s' where "rd e (cr_r c) = ((x, Some (Failed err)), s')" by (auto simp: counting_Read_def split: prod.splits)
  with 3 failed show ?case by blast
qed

end

interpretation counted: io_reader "counting_Read resumable_Read" "honest f etag" "\<lambda>c. body_left f etag (cr_r c)"
  for f etag
  by (rule download.counted)

section \<open>The channel between decompression and parsing\<close>

text \<open>
  The chunks in the channel, the error sent before it was closed, and the rest of the current
  chunk; the pool of buffers has no effect on what is read.
\<close>

record chanReader =
  ch_chunks :: "string list"
  ch_err :: "dump_error option"
  ch_cur :: string

fun next_chunk :: "string \<Rightarrow> string list \<Rightarrow> (string \<times> string list) option" where
  "next_chunk [] [] = None"
| "next_chunk [] (c # cs) = next_chunk c cs"
| "next_chunk (x # xs) cs = Some (x # xs, cs)"

definition chan_Read :: "nat \<Rightarrow> chanReader \<Rightarrow> (string \<times> read_end option) \<times> chanReader" where
  "chan_Read n r =
     (case next_chunk (ch_cur r) (ch_chunks r) of
        None \<Rightarrow>
          (case ch_err r of
             Some e \<Rightarrow> (([], Some (Failed e)), r\<lparr>ch_chunks := [], ch_err := None\<rparr>)
           | None \<Rightarrow> (([], Some AtEof), r\<lparr>ch_chunks := []\<rparr>))
      | Some (cur, cs) \<Rightarrow> ((take n cur, None), r\<lparr>ch_chunks := cs, ch_cur := drop n cur\<rparr>))"

lemma next_chunk_Some: "next_chunk cur cs = Some (cur', cs') \<Longrightarrow> cur @ concat cs = cur' @ concat cs' \<and> cur' \<noteq> []"
  by (induction cur cs rule: next_chunk.induct) auto

lemma next_chunk_None: "next_chunk cur cs = None \<Longrightarrow> cur @ concat cs = []"
  by (induction cur cs rule: next_chunk.induct) auto

definition chan_left :: "chanReader \<Rightarrow> string \<Rightarrow> bool" where
  "chan_left r t \<longleftrightarrow> t = ch_cur r @ concat (ch_chunks r)"

interpretation channel: io_reader chan_Read "\<lambda>_. True" chan_left
proof (unfold_locales, goal_cases)
  case (1 n r t x r')
  then obtain cur cs where "next_chunk (ch_cur r) (ch_chunks r) = Some (cur, cs)" "x = take n cur"
    "r' = r\<lparr>ch_chunks := cs, ch_cur := drop n cur\<rparr>"
    by (auto simp: chan_Read_def split: option.splits)
  with 1 next_chunk_Some[of "ch_cur r" "ch_chunks r" cur cs] show ?case by (auto simp: chan_left_def)
next
  case (2 n r t x r')
  then have "next_chunk (ch_cur r) (ch_chunks r) = None" "x = []" by (auto simp: chan_Read_def split: option.splits)
  with 2 next_chunk_None show ?case by (auto simp: chan_left_def)
next
  case (3 n r t x err r')
  then have "x = []" by (auto simp: chan_Read_def split: option.splits)
  then show ?case by simp
qed

text \<open>The error of the producer is not lost: it comes after everything that was sent before it.\<close>

lemma channel_delivers:
  "\<forall>n \<in> set ns. 0 < n \<Longrightarrow> length (ch_cur r @ concat (ch_chunks r)) < length ns \<Longrightarrow>
   read_all chan_Read ns r = (ch_cur r @ concat (ch_chunks r),
     Some (case ch_err r of None \<Rightarrow> AtEof | Some e \<Rightarrow> Failed e))"
proof (induction ns arbitrary: r)
  case Nil
  then show ?case by simp
next
  case (Cons n ns)
  show ?case
  proof (cases "next_chunk (ch_cur r) (ch_chunks r)")
    case None
    with next_chunk_None[OF None] show ?thesis by (auto simp: chan_Read_def split: option.splits)
  next
    case (Some p)
    obtain cur cs where p: "p = (cur, cs)" by fastforce
    note c = next_chunk_Some[OF Some[unfolded p]]
    let ?r = "r\<lparr>ch_chunks := cs, ch_cur := drop n cur\<rparr>"
    have "0 < n" using Cons.prems(1) by simp
    with c have "length (ch_cur ?r @ concat (ch_chunks ?r)) < length ns"
      using Cons.prems(2) by (cases cur) auto
    from Cons.IH[OF _ this] Cons.prems(1) show ?thesis using Some p c by (simp add: chan_Read_def)
  qed
qed

lemma download_whole:
  assumes "\<forall>nw \<in> set nws. honest file etag nw" and "sends file b"
    and "read_all (counting_Read resumable_Read) nws \<lparr>cr_r = newResumableBody b etag, cr_bytes = 0\<rparr> = (y, end)"
  shows "(\<exists>t. file = y @ t) \<and> (end = Some AtEof \<longrightarrow> y = file)"
proof -
  have "body_left file etag (newResumableBody b etag) file"
    using assms(2) by (auto simp: body_left_def newResumableBody_def intro!: exI[of _ 0])
  with counted.all_read[OF assms(1) _ assms(3)] show ?thesis by simp
qed

text \<open>
  What is read of the download, over however many connections, is a piece of the file
  from its start, without gaps or repetitions, and the end is only reported at the end of the file.
\<close>

theorem download_exact:
  assumes "\<forall>nw \<in> set nws. honest file etag nw" and "sends file b"
    and "read_all (counting_Read resumable_Read) nws \<lparr>cr_r = newResumableBody b etag, cr_bytes = 0\<rparr> = (y, end)"
  shows "(\<exists>t. file = y @ t) \<and> (end = Some AtEof \<longrightarrow> y = file)"
  by (rule download_whole[OF assms])

section \<open>Witness\<close>

text \<open>A connection that breaks after two bytes, and one from there.\<close>

definition example_network :: network where
  "example_network = \<lparr>nw_cancelled = False,
     nw_server = (\<lambda>off tag. if off = 2 \<and> tag = ''e'' then Some (206, [(''cd'', None)]) else None)\<rparr>"

theorem download_exact_witness:
  "read_all (counting_Read resumable_Read) (replicate 3 example_network)
     \<lparr>cr_r = newResumableBody [(''ab'', Some BodyError)] ''e'', cr_bytes = 0\<rparr> = (''abcd'', Some AtEof) \<and>
   (\<exists>t. ''abcd'' = ''abcd'' @ t)"
proof -
  have h: "\<forall>nw \<in> set (replicate 3 example_network). honest ''abcd'' ''e'' nw"
    by (auto simp: honest_def example_network_def)
  have s: "sends ''abcd'' [(''ab'', Some BodyError)]" by simp
  have run: "read_all (counting_Read resumable_Read) (replicate 3 example_network)
     \<lparr>cr_r = newResumableBody [(''ab'', Some BodyError)] ''e'', cr_bytes = 0\<rparr> = (''abcd'', Some AtEof)"
    by (simp add: numeral_3_eq_3 counting_Read_def resumable_Read_def newResumableBody_def reconnect_def
        example_network_def waitForContext_def dumpResumeMaxRetries_def Let_def)
  from download_exact[OF h s run] run show ?thesis by blast
qed

end
