(* ===== verification/Seed.thy ===== *)
theory Seed
  imports DumpReader ReplicaSnapshot
begin

text \<open>
  \<open>internal/watcher/seed.go\<close>: the bulk import of a dump. The text of the dump is what the readers
  of \<open>DumpReader\<close> deliver; a background writer stores its entities in batches, each with retries.
  The result is about the mark that a seed leaves: \<open>dump_time\<close> is set only when every entity of
  the dump is in the store, wherever the import stops.

  Decompressors, the HTTP client, the clock and SHA-256 are parameters. The interleaving of
  parsing and writing has no effect on the store: the writer sees the entities in order, and
  stops at its first error.
\<close>

section \<open>Where the dump is\<close>

definition DumpFormatGZ :: string where "DumpFormatGZ = ''gz''"
definition DumpFormatBZ2 :: string where "DumpFormatBZ2 = ''bz2''"

definition dumpDateLookbackDays :: nat where "dumpDateLookbackDays = 14"
definition dumpStaleThreshold :: int where "dumpStaleThreshold = 7 * 24 * 60 * minute"

definition dump_url :: "string \<Rightarrow> string \<Rightarrow> string" where
  "dump_url fmt date = ''https://dumps.wikimedia.org/wikidatawiki/entities/'' @ date @ ''/wikidata-'' @ date @
     ''-all.json.'' @ fmt"

text \<open>\<open>dates n\<close> is the date of \<open>n\<close> days ago; \<open>head\<close> answers a \<open>HEAD\<close> request with a status.\<close>

fun find_dump :: "string \<Rightarrow> (nat \<Rightarrow> string) \<Rightarrow> (string \<Rightarrow> int option) \<Rightarrow> nat list \<Rightarrow> string \<times> string \<times> bool" where
  "find_dump fmt dates head [] = ([], [], False)"
| "find_dump fmt dates head (n # ns) =
     (if head (dump_url fmt (dates n)) = Some 200
      then (dump_url fmt (dates n), dates n, int n * 24 * 60 * minute > dumpStaleThreshold)
      else find_dump fmt dates head ns)"

definition findDatedDumpURL :: "string \<Rightarrow> (nat \<Rightarrow> string) \<Rightarrow> (string \<Rightarrow> int option) \<Rightarrow> string \<times> string \<times> bool" where
  "findDatedDumpURL fmt dates head = find_dump fmt dates head [0..<Suc dumpDateLookbackDays]"

definition NewSeeder :: "string \<Rightarrow> string" where
  "NewSeeder format = (if format = [] then DumpFormatGZ else format)"

section \<open>Decompression\<close>

text \<open>
  A decompressor turns the bytes of the download, and the way they end, into chunks and an end of
  its own; opening it can fail.
\<close>

type_synonym decompressor = "string \<times> read_end \<Rightarrow> (string list \<times> read_end) option"

definition newDecompressor :: "decompressor \<Rightarrow> decompressor \<Rightarrow> string \<Rightarrow> decompressor" where
  "newDecompressor gunzip bunzip fmt input =
     (if fmt = DumpFormatGZ then gunzip input
      else if fmt = DumpFormatBZ2 then bunzip input
      else None)"

text \<open>The goroutine that fills the channel; it stops after \<open>k\<close> chunks when the context is cancelled there.\<close>

definition decompress_ahead :: "decompressor \<Rightarrow> decompressor \<Rightarrow> string \<Rightarrow> nat option \<Rightarrow> string \<times> read_end \<Rightarrow> chanReader" where
  "decompress_ahead gunzip bunzip fmt cancel input =
     (case newDecompressor gunzip bunzip fmt input of
        None \<Rightarrow> \<lparr>ch_chunks = [], ch_err = Some NoDecompressor, ch_cur = []\<rparr>
      | Some (chunks, end) \<Rightarrow>
          (case cancel of
             Some k \<Rightarrow> \<lparr>ch_chunks = take k chunks, ch_err = Some DumpCancelled, ch_cur = []\<rparr>
           | None \<Rightarrow> \<lparr>ch_chunks = chunks, ch_err = (case end of AtEof \<Rightarrow> None | Failed e \<Rightarrow> Some e), ch_cur = []\<rparr>))"

definition dumpScannerBufSize :: nat where "dumpScannerBufSize = 16 * 1024 * 1024"
definition dumpMaxLineSize :: nat where "dumpMaxLineSize = 4 * 1024 * 1024"
definition dumpBatchSize :: nat where "dumpBatchSize = 2000"

text \<open>What the scanner gets; every call returns a byte at least, so the calls are enough.\<close>

definition dump_text :: "chanReader \<Rightarrow> string \<times> bool" where
  "dump_text r =
     (case read_all chan_Read (replicate (Suc (length (ch_cur r @ concat (ch_chunks r)))) dumpScannerBufSize) r of
        (text, end) \<Rightarrow> (text, end \<noteq> Some AtEof))"

section \<open>The lines of a dump\<close>

definition dump_line :: "wiki_json \<Rightarrow> string \<Rightarrow> EntityRecord list" where
  "dump_line W raw =
     (let line = TrimSpace raw in
      if line = [] \<or> hd line = CHR ''['' \<or> hd line = CHR '']'' then []
      else if length line > dumpMaxLineSize then []
      else
        (case ParseEntityJSON W (if last line = CHR '','' then butlast line else line) of
           Inl _ \<Rightarrow> []
         | Inr None \<Rightarrow> []
         | Inr (Some ent) \<Rightarrow> [\<lparr>er_WikidataID = we_ID ent, er_Mappings = we_Mappings ent\<rparr>]))"

section \<open>The background writer\<close>

text \<open>One attempt to write a batch: cancellation before it, its pipe, and cancellation in it.\<close>

record seed_try =
  sd_wait :: bool
  sd_fate :: fate
  sd_cancelled :: bool

fun next_try :: "seed_try list \<Rightarrow> seed_try \<times> seed_try list" where
  "next_try [] = (\<lparr>sd_wait = False, sd_fate = good_fate, sd_cancelled = False\<rparr>, [])"
| "next_try (t # ts) = (t, ts)"

datatype write_error = WriteCancelled | AfterAttempts store_error

fun seed_attempts ::
  "'s redis \<Rightarrow> EntityRecord list \<Rightarrow> nat \<Rightarrow> nat \<Rightarrow> store_error \<Rightarrow> seed_try list \<Rightarrow> Writer \<times> 's \<Rightarrow>
   write_error option \<times> seed_try list \<times> Writer \<times> 's" where
  "seed_attempts R batch 0 attempt err tries ws = (Some (AfterAttempts err), tries, ws)"
| "seed_attempts R batch (Suc n) attempt err tries ws =
     (case next_try tries of
        (t, tries') \<Rightarrow>
          if 0 < attempt \<and> waitForContext (sd_wait t) (sd_wait t) (dumpWriteRetryDelay attempt) \<noteq> None
          then (Some WriteCancelled, tries', ws)
          else (case run_pipe R (sd_fate t) (fold UpsertEntity batch) ws of
                  (None, ws') \<Rightarrow> (None, tries', ws')
                | (Some e, ws') \<Rightarrow>
                    if sd_cancelled t then (Some WriteCancelled, tries', ws')
                    else seed_attempts R batch n (Suc attempt) e tries' ws'))"

definition seed_flush ::
  "'s redis \<Rightarrow> EntityRecord list \<Rightarrow> seed_try list \<Rightarrow> Writer \<times> 's \<Rightarrow> write_error option \<times> seed_try list \<times> Writer \<times> 's" where
  "seed_flush R batch tries ws =
     (if batch = [] then (None, tries, ws)
      else seed_attempts R batch dumpWriteMaxRetries 0 (ConnError []) tries ws)"

fun seed_writer ::
  "'s redis \<Rightarrow> EntityRecord list \<Rightarrow> EntityRecord list \<Rightarrow> seed_try list \<Rightarrow> Writer \<times> 's \<Rightarrow>
   write_error option \<times> seed_try list \<times> Writer \<times> 's" where
  "seed_writer R batch [] tries ws = seed_flush R batch tries ws"
| "seed_writer R batch (item # items) tries ws =
     (let batch' = batch @ [item] in
      if dumpBatchSize \<le> length batch' then
        (case seed_flush R batch' tries ws of
           (Some e, tries', ws') \<Rightarrow> (Some e, tries', ws')
         | (None, tries', ws') \<Rightarrow> seed_writer R [] items tries' ws')
      else seed_writer R batch' items tries ws)"

section \<open>The import\<close>

datatype seed_error =
    NoDatedDump | DownloadFailed | DumpStatus int | FlushData store_error | SetSeedState store_error
  | BadDumpDate | BackgroundWriter write_error | SeedCancelled | DumpScanner | SetDumpTime store_error

text \<open>\<open>cancel\<close>: the context is cancelled after that many lines.\<close>

definition processDumpStream ::
  "'s redis \<Rightarrow> wiki_json \<Rightarrow> nat option \<Rightarrow> string \<times> bool \<Rightarrow> seed_try list \<Rightarrow> Writer \<times> 's \<Rightarrow>
   (seed_error + nat \<times> nat) \<times> Writer \<times> 's" where
  "processDumpStream R W cancel text tries ws =
     (case scan_lines dumpScannerBufSize (fst text) of
        (lines, too_long) \<Rightarrow>
          let seen = (case cancel of None \<Rightarrow> lines | Some k \<Rightarrow> take k lines);
              items = concat (map (dump_line W) seen)
          in (case seed_writer R [] items tries ws of
                (err, _, ws') \<Rightarrow>
                  (if cancel \<noteq> None then (Inl SeedCancelled, ws')
                   else (case err of
                           Some e \<Rightarrow> (Inl (BackgroundWriter e), ws')
                         | None \<Rightarrow>
                             if too_long \<or> snd text then (Inl DumpScanner, ws')
                             else (Inr (length items, length lines), ws')))))"

definition seedVersion :: string where "seedVersion = ''v2-property-based''"

definition configFingerprint :: "(string \<Rightarrow> string) \<Rightarrow> string" where
  "configFingerprint sha = take 32 (sha seedVersion)"

definition NeedsSeed :: "'s redis \<Rightarrow> (string \<Rightarrow> string) \<Rightarrow> bool \<Rightarrow> bool \<Rightarrow> 's \<Rightarrow> store_error + bool" where
  "NeedsSeed R sha a1 a2 s =
     (case GetSyncState R a1 ''dump_time'' s of
        Inl e \<Rightarrow> Inl e
      | Inr dumpTime \<Rightarrow>
          if dumpTime = [] then Inr True
          else (case GetSyncState R a2 ''config_hash'' s of
                  Inl e \<Rightarrow> Inl e
                | Inr storedHash \<Rightarrow> Inr (storedHash \<noteq> configFingerprint sha)))"

definition openDumpStream :: "int option \<Rightarrow> seed_error option" where
  "openDumpStream status =
     (case status of None \<Rightarrow> Some DownloadFailed | Some st \<Rightarrow> if st \<noteq> 200 then Some (DumpStatus st) else None)"

definition state_pipe :: "string \<Rightarrow> Pipe \<Rightarrow> Pipe" where
  "state_pipe fp p = SetSyncState ''state'' ''seeding'' (SetSyncState ''config_hash'' fp p)"

text \<open>Everything the import meets outside the store.\<close>

record seed_env =
  se_located :: "string \<times> string \<times> bool"
  se_status :: "int option"
  se_flush :: "call \<times> call"
  se_state :: fate
  se_rfc3339 :: "string \<Rightarrow> string option"
  se_body :: body
  se_etag :: string
  se_nets :: "network list"
  se_gunzip :: decompressor
  se_bunzip :: decompressor
  se_format :: string
  se_unpack :: "nat option"
  se_cancel :: "nat option"
  se_tries :: "seed_try list"
  se_last :: fate

text \<open>
  The bytes that the decompressor reads, and how they end; the calls of \<open>se_nets\<close> running out means
  that it is cancelled there. Without an ETag the body is read as it is.
\<close>

definition downloaded :: "seed_env \<Rightarrow> string \<times> read_end" where
  "downloaded env =
     (case read_all (counting_Read resumable_Read) (se_nets env)
             \<lparr>cr_r = newResumableBody (se_body env) (se_etag env), cr_bytes = 0\<rparr> of
        (y, end) \<Rightarrow> (y, case end of None \<Rightarrow> Failed DumpCancelled | Some e \<Rightarrow> e))"

definition se_text :: "seed_env \<Rightarrow> string \<times> bool" where
  "se_text env =
     dump_text (decompress_ahead (se_gunzip env) (se_bunzip env) (NewSeeder (se_format env)) (se_unpack env) (downloaded env))"

definition Seed :: "'s redis \<Rightarrow> wiki_json \<Rightarrow> (string \<Rightarrow> string) \<Rightarrow> seed_env \<Rightarrow> Writer \<times> 's \<Rightarrow> seed_error option \<times> Writer \<times> 's" where
  "Seed R W sha env ws =
     (case se_located env of
        (url, date, stale) \<Rightarrow>
          if url = [] then (Some NoDatedDump, ws)
          else (case openDumpStream (se_status env) of
                  Some e \<Rightarrow> (Some e, ws)
                | None \<Rightarrow>
                    (case FlushDataContext R (fst (se_flush env)) (snd (se_flush env)) (snd ws) of
                       (Some e, s1) \<Rightarrow> (Some (FlushData e), fst ws, s1)
                     | (None, s1) \<Rightarrow>
                         (case run_pipe R (se_state env) (state_pipe (configFingerprint sha)) (fst ws, s1) of
                            (Some e, ws2) \<Rightarrow> (Some (SetSeedState e), ws2)
                          | (None, ws2) \<Rightarrow>
                              (case se_rfc3339 env date of
                                 None \<Rightarrow> (Some BadDumpDate, ws2)
                               | Some syncTime \<Rightarrow>
                                   (case processDumpStream R W (se_cancel env) (se_text env) (se_tries env) ws2 of
                                      (Inl e, ws3) \<Rightarrow> (Some e, ws3)
                                    | (Inr _, ws3) \<Rightarrow>
                                        (case run_pipe R (se_last env) (SetSyncState ''dump_time'' syncTime) ws3 of
                                           (Some e, ws4) \<Rightarrow> (Some (SetDumpTime e), ws4)
                                         | (None, ws4) \<Rightarrow> (None, ws4))))))))"

section \<open>The pipe of a batch\<close>

definition rec_pair :: "EntityRecord \<Rightarrow> int \<times> string" where
  "rec_pair r = (num_of (er_WikidataID r), canonicalMappingsJSON (er_Mappings r))"

abbreviation put_recs :: "EntityRecord list \<Rightarrow> (string \<Rightarrow> string option) \<Rightarrow> string \<Rightarrow> string option" where
  "put_recs rs \<equiv> fold put_ent (map rec_pair rs)"

definition rec_keys :: "EntityRecord list \<Rightarrow> string set" where
  "rec_keys rs = (\<lambda>(q, m). FormatInt q) ` set (map rec_pair rs)"

definition recs_ok :: "EntityRecord list \<Rightarrow> bool" where
  "recs_ok rs \<longleftrightarrow> (\<forall>r \<in> set rs. \<forall>e \<in> set (er_Mappings r). utf8_ok e)"

lemma upsert_cmd_pair: "upsert_cmd r = raw_cmd (rec_pair r)"
  by (simp add: upsert_cmd_def raw_cmd_def rec_pair_def)

lemma upsert_sticky: "p_err p = Some e \<Longrightarrow> p_err (fold UpsertEntity rs p) = Some e"
  by (simp add: ops_keep_error)

text \<open>The commands are those of the records before the first bad one, or of all of them.\<close>

lemma batch_cmds:
  "\<exists>n. p_cmds (fold UpsertEntity rs p) = p_cmds p @ take n (map raw_cmd (map rec_pair rs))"
  "p_err p = None \<Longrightarrow> p_err (fold UpsertEntity rs p) = None \<Longrightarrow>
   p_cmds (fold UpsertEntity rs p) = p_cmds p @ map raw_cmd (map rec_pair rs)"
proof (induction rs arbitrary: p)
  case (Cons r rs)
  {
    case 1
    show ?case
    proof (cases "p_err (UpsertEntity r p)")
      case None
      then have "UpsertEntity r p = p\<lparr>p_cmds := p_cmds p @ [raw_cmd (rec_pair r)]\<rparr>"
        by (auto simp: UpsertEntity_def queue_def fail_def upsert_cmd_pair[symmetric] upsert_cmd_def num_of_def
            split: if_splits sum.splits option.splits)
      with Cons.IH(1)[of "UpsertEntity r p"] obtain n where
        "p_cmds (fold UpsertEntity (r # rs) p) = p_cmds p @ take (Suc n) (map raw_cmd (map rec_pair (r # rs)))" by auto
      then show ?thesis by blast
    next
      case (Some e)
      then have "fold UpsertEntity (r # rs) p = UpsertEntity r p" by (simp add: ops_keep_error)
      moreover have "p_cmds (UpsertEntity r p) = p_cmds p"
        using Some by (auto simp: UpsertEntity_def queue_def fail_def split: if_splits sum.splits option.splits)
      ultimately show ?thesis by (intro exI[of _ 0]) simp
    qed
  next
    case 2
    then have ok: "p_err (UpsertEntity r p) = None"
      using upsert_sticky[of "UpsertEntity r p" _ rs] by (cases "p_err (UpsertEntity r p)") auto
    then have "UpsertEntity r p = p\<lparr>p_cmds := p_cmds p @ [raw_cmd (rec_pair r)]\<rparr>"
      by (auto simp: UpsertEntity_def queue_def fail_def upsert_cmd_pair[symmetric] upsert_cmd_def num_of_def
          split: if_splits sum.splits option.splits)
    with Cons.IH(2)[OF ok] 2 show ?case by simp
  }
qed simp_all

lemma batch_pipe_ok: "cjson_ok R \<Longrightarrow> recs_ok rs \<Longrightarrow> pipe_ok R p \<Longrightarrow> pipe_ok R (fold UpsertEntity rs p)"
  by (induction rs arbitrary: p) (simp_all add: recs_ok_def pipe_ok_upsert)

text \<open>What every attempt keeps: the index, the metadata and the entities that are not in the batch.\<close>

definition writing :: "'s redis \<Rightarrow> ('s \<Rightarrow> content) \<Rightarrow> string set \<Rightarrow> (string \<Rightarrow> string option) \<Rightarrow> (string \<Rightarrow> string option) \<Rightarrow> 's \<Rightarrow> bool" where
  "writing R v keys meta E s \<longleftrightarrow> index_ok R (v s) \<and> a_sync (abstract (v s)) = meta \<and>
     (\<forall>eid. eid \<notin> keys \<longrightarrow> a_entities (abstract (v s)) eid = E eid)"

lemma raw_keeps: "a_sync (fold cmd_spec (map raw_cmd xs) a) = a_sync a"
  by (induction xs arbitrary: a) (auto simp: raw_cmd_def change_entity_def)

lemma one_attempt:
  assumes R: "redis_ok R v" and J: "cjson_ok R" and ok: "recs_ok rs"
    and w: "writing R v (rec_keys rs) meta E (snd ws)" and run: "run_pipe R f (fold UpsertEntity rs) ws = (err, ws')"
  shows "writing R v (rec_keys rs) meta E (snd ws') \<and>
    (err = None \<longrightarrow> rs \<noteq> [] \<longrightarrow> entities (v (snd ws')) = put_recs rs E)"
proof -
  let ?b = "fold UpsertEntity rs" and ?new = "\<lparr>p_err = None, p_cmds = []\<rparr>" and ?xs = "map rec_pair rs"
  have c: "index_ok R (v (snd ws))" using w by (simp add: writing_def)
  have pok: "pipe_ok R (?b ?new)" by (rule batch_pipe_ok[OF J ok]) (simp add: pipe_ok_def)
  obtain n where n: "p_cmds (?b ?new) = take n (map raw_cmd ?xs)" using batch_cmds(1)[of rs ?new] by auto
  obtain ps where ps: "\<forall>p \<in> set ps. \<exists>n. p = take n (p_cmds (?b ?new))"
    "abstract (v (snd (snd (run_pipe R f ?b ws)))) = prefixes_spec ps (abstract (v (snd ws)))"
    "index_ok R (v (snd (snd (run_pipe R f ?b ws))))"
    using run_pipe_refines[where build = ?b and f = f, OF R c upsert_sticky pok] .
  define I :: "astore \<Rightarrow> bool" where "I = (\<lambda>a. a_sync a = meta \<and> (\<forall>eid. eid \<notin> rec_keys rs \<longrightarrow> a_entities a eid = E eid))"
  have part: "I (fold cmd_spec (take k (p_cmds (?b ?new))) a)" if "I a" for a k
  proof -
    have "take k (p_cmds (?b ?new)) = map raw_cmd (take (min k n) ?xs)" unfolding n by (simp add: take_map)
    moreover have "(\<lambda>(q, m). FormatInt q) ` set (take (min k n) ?xs) \<subseteq> rec_keys rs"
      unfolding rec_keys_def by (intro image_mono set_take_subset)
    then have "fold put_ent (take (min k n) ?xs) (a_entities a) eid = a_entities a eid" if "eid \<notin> rec_keys rs" for eid
      using put_ents_outside that by blast
    ultimately show ?thesis using that by (simp add: I_def raw_keeps raw_entities)
  qed
  have "I (abstract (v (snd ws)))" using w by (simp add: I_def writing_def del: abstract_sel)
  from prefixes_keep[OF ps(1) part this] have "I (prefixes_spec ps (abstract (v (snd ws))))" .
  then have w': "writing R v (rec_keys rs) meta E (snd ws')"
    using ps(2,3) run by (simp add: I_def writing_def del: abstract_sel)
  have "entities (v (snd ws')) = put_recs rs E" if "err = None" "rs \<noteq> []"
  proof -
    have e: "p_err (?b ?new) = None"
    proof (rule ccontr)
      assume "p_err (?b ?new) \<noteq> None"
      then obtain e where e: "p_err (?b ?new) = Some e" by blast
      obtain le wr where "loadScripts (f_loads f) (fst ws) = (le, wr)" by fastforce
      then have l: "NewPipe (f_loads f) (fst ws) = (\<lparr>p_err = le, p_cmds = []\<rparr>, wr)" by (simp add: NewPipe_def)
      have "\<exists>e. p_err (?b \<lparr>p_err = le, p_cmds = []\<rparr>) = Some e" using e upsert_sticky by (cases le) auto
      with run l \<open>err = None\<close> show False by (auto simp: run_pipe_def Exec_def split: prod.splits)
    qed
    have p: "?b ?new = \<lparr>p_err = None, p_cmds = map raw_cmd ?xs\<rparr>"
      using batch_cmds(2)[of ?new rs] e by (cases "?b ?new") auto
    have "\<forall>x \<in> set ?xs. cmd_ok R (raw_cmd x)" using pok unfolding p by (auto simp: pipe_ok_def)
    from put_pipe[where build = ?b, OF R c upsert_sticky p this _ run[unfolded that(1)]] that(2)
    have "entities (v (snd ws')) = put_recs rs (entities (v (snd ws)))" by simp
    moreover have "put_recs rs (entities (v (snd ws))) = put_recs rs E"
      by (rule put_ent_agree) (use w in \<open>simp add: writing_def rec_keys_def\<close>)
    ultimately show ?thesis by simp
  qed
  with w' show ?thesis by blast
qed

section \<open>The writer stores every entity, or reports\<close>

lemma attempts_outcome:
  assumes R: "redis_ok R v" and J: "cjson_ok R" and ok: "recs_ok rs" and ne: "rs \<noteq> []"
  shows "writing R v (rec_keys rs) meta E (snd ws) \<Longrightarrow> seed_attempts R rs n k err tries ws = (res, tries', ws') \<Longrightarrow>
    writing R v (rec_keys rs) meta E (snd ws') \<and> (res = None \<longrightarrow> entities (v (snd ws')) = put_recs rs E)"
proof (induction n arbitrary: k err tries ws)
  case 0
  then show ?case by auto
next
  case (Suc n)
  obtain t ts where t: "next_try tries = (t, ts)" by fastforce
  obtain e ws1 where p: "run_pipe R (sd_fate t) (fold UpsertEntity rs) ws = (e, ws1)" by (metis surj_pair)
  note one = one_attempt[OF R J ok Suc.prems(1) p]
  show ?case
  proof (cases "0 < k \<and> waitForContext (sd_wait t) (sd_wait t) (dumpWriteRetryDelay k) \<noteq> None")
    case True
    with Suc.prems t show ?thesis by auto
  next
    case False
    note run = Suc.prems(2)[unfolded seed_attempts.simps t case_prod_conv if_not_P[OF False] p]
    show ?thesis
    proof (cases e)
      case None
      with run one ne show ?thesis by auto
    next
      case (Some err')
      show ?thesis
      proof (cases "sd_cancelled t")
        case True
        with run Some one show ?thesis by auto
      next
        case f: False
        with run Some have "seed_attempts R rs n (Suc k) err' ts ws1 = (res, tries', ws')" by simp
        with Suc.IH one show ?thesis by blast
      qed
    qed
  qed
qed

definition at_rest :: "'s redis \<Rightarrow> ('s \<Rightarrow> content) \<Rightarrow> (string \<Rightarrow> string option) \<Rightarrow> 's \<Rightarrow> bool" where
  "at_rest R v meta s \<longleftrightarrow> index_ok R (v s) \<and> a_sync (abstract (v s)) = meta"

lemma flush_outcome:
  assumes R: "redis_ok R v" and J: "cjson_ok R" and ok: "recs_ok rs" and r: "at_rest R v meta (snd ws)"
    and run: "seed_flush R rs tries ws = (res, tries', ws')"
  shows "at_rest R v meta (snd ws') \<and> (res = None \<longrightarrow> entities (v (snd ws')) = put_recs rs (entities (v (snd ws))))"
proof (cases "rs = []")
  case True
  with r run show ?thesis by (auto simp: seed_flush_def)
next
  case False
  have "writing R v (rec_keys rs) meta (entities (v (snd ws))) (snd ws)" using r by (simp add: writing_def at_rest_def)
  from attempts_outcome[OF R J ok False this] run False show ?thesis
    by (auto simp: seed_flush_def at_rest_def writing_def simp del: abstract_sel)
qed

lemma writer_outcome:
  assumes R: "redis_ok R v" and J: "cjson_ok R"
  shows "recs_ok (batch @ items) \<Longrightarrow> at_rest R v meta (snd ws) \<Longrightarrow> seed_writer R batch items tries ws = (res, tries', ws') \<Longrightarrow>
    at_rest R v meta (snd ws') \<and> (res = None \<longrightarrow> entities (v (snd ws')) = put_recs (batch @ items) (entities (v (snd ws))))"
proof (induction items arbitrary: batch tries ws)
  case Nil
  with flush_outcome[OF R J, of batch] show ?case by simp
next
  case (Cons item items)
  let ?b = "batch @ [item]"
  have ok: "recs_ok ?b" "recs_ok ([] @ items)" "recs_ok (?b @ items)" using Cons.prems(1) by (auto simp: recs_ok_def)
  show ?case
  proof (cases "dumpBatchSize \<le> length ?b")
    case False
    with Cons.prems(3) have "seed_writer R ?b items tries ws = (res, tries', ws')" by (simp add: Let_def)
    from Cons.IH[OF ok(3) Cons.prems(2) this] show ?thesis by simp
  next
    case True
    obtain e ts ws1 where f: "seed_flush R ?b tries ws = (e, ts, ws1)" by (metis surj_pair)
    note fl = flush_outcome[OF R J ok(1) Cons.prems(2) f]
    show ?thesis
    proof (cases e)
      case None
      with Cons.prems(3) True f have "seed_writer R [] items ts ws1 = (res, tries', ws')" by (simp add: Let_def)
      from Cons.IH[OF ok(2) _ this] fl None show ?thesis by simp
    next
      case (Some err)
      with Cons.prems(3) True f fl show ?thesis by (auto simp: Let_def)
    qed
  qed
qed

section \<open>The lines of a dump are valid records\<close>

definition dump_records :: "wiki_json \<Rightarrow> string \<Rightarrow> EntityRecord list" where
  "dump_records W text = concat (map (dump_line W) (fst (scan_lines dumpScannerBufSize text)))"

lemma dump_line_from:
  assumes "r \<in> set (dump_line W l)"
  shows "\<exists>cs. er_Mappings r = extractExternalIDs W cs"
proof -
  let ?raw = "if last (TrimSpace l) = CHR '','' then butlast (TrimSpace l) else TrimSpace l"
  obtain res where res: "ParseEntityJSON W ?raw = res" by blast
  with assms obtain ent where "res = Inr (Some ent)" "r = \<lparr>er_WikidataID = we_ID ent, er_Mappings = we_Mappings ent\<rparr>"
    by (cases res) (auto simp: dump_line_def Let_def split: if_splits option.splits)
  with parsed_mappings res show ?thesis by auto
qed

lemma dump_line_ok: "wiki_utf8 W \<Longrightarrow> recs_ok (dump_line W l)"
  using dump_line_from extract_utf8 by (metis recs_ok_def)

lemma concat_recs_ok: "\<forall>rs \<in> set rss. recs_ok rs \<Longrightarrow> recs_ok (concat rss)"
  by (auto simp: recs_ok_def)

section \<open>The mark of a complete import\<close>

text \<open>The metadata that a pipe sets, field by field.\<close>

definition only_sets :: "(string \<times> string) list \<Rightarrow> (Pipe \<Rightarrow> Pipe) \<Rightarrow> bool" where
  "only_sets fs build \<longleftrightarrow> (\<forall>p e. p_err p = Some e \<longrightarrow> p_err (build p) = Some e) \<and> fs \<noteq> [] \<and>
     build \<lparr>p_err = None, p_cmds = []\<rparr> = \<lparr>p_err = None, p_cmds = map (\<lambda>(f, x). HSet metaKey f x) fs\<rparr>"

lemma sets_fold:
  "a_sync (fold cmd_spec (map (\<lambda>(f, x). HSet metaKey f x) fs) a) g =
     (if g \<noteq> ''entity_count'' \<and> g \<in> fst ` set fs then map_of (rev fs) g else a_sync a g)"
proof (induction fs arbitrary: a rule: rev_induct)
  case Nil
  then show ?case by simp
next
  case (snoc fx fs)
  then show ?case by (cases fx) auto
qed

lemma only_sets_run:
  assumes R: "redis_ok R v" and c: "index_ok R (v (snd ws))" and o: "only_sets fs build"
    and run: "run_pipe R f build ws = (err, ws')"
  shows "index_ok R (v (snd ws')) \<and> entities (v (snd ws')) = entities (v (snd ws)) \<and>
    (\<forall>g. g \<notin> fst ` set fs \<longrightarrow> a_sync (abstract (v (snd ws'))) g = a_sync (abstract (v (snd ws))) g) \<and>
    (err = None \<longrightarrow> (\<forall>g \<in> fst ` set fs. g \<noteq> ''entity_count'' \<longrightarrow> a_sync (abstract (v (snd ws'))) g = map_of (rev fs) g))"
proof -
  let ?new = "\<lparr>p_err = None, p_cmds = []\<rparr>" and ?cs = "map (\<lambda>(f, x). HSet metaKey f x) fs"
  have st: "p_err p = Some e \<Longrightarrow> p_err (build p) = Some e" for p e using o by (simp add: only_sets_def)
  have p: "build ?new = \<lparr>p_err = None, p_cmds = ?cs\<rparr>" and ne: "fs \<noteq> []" using o by (simp_all add: only_sets_def)
  have m: "meta_cmds (p_cmds (build ?new))" unfolding p by (auto simp: meta_cmds_def)
  note keeps = meta_pipe_keeps[where build = build and f = f, OF R c st m]
  have pok: "pipe_ok R (build ?new)" unfolding p by (auto simp: pipe_ok_def)
  obtain ps where ps: "\<forall>p \<in> set ps. \<exists>n. p = take n (p_cmds (build ?new))"
    "abstract (v (snd (snd (run_pipe R f build ws)))) = prefixes_spec ps (abstract (v (snd ws)))"
    using run_pipe_refines[where build = build and f = f, OF R c st pok] by metis
  have others: "a_sync (abstract (v (snd ws'))) g = a_sync (abstract (v (snd ws))) g" if g: "g \<notin> fst ` set fs" for g
  proof -
    define I :: "astore \<Rightarrow> bool" where "I = (\<lambda>a. a_sync a g = a_sync (abstract (v (snd ws))) g)"
    have part: "I (fold cmd_spec (take k (p_cmds (build ?new))) a)" if "I a" for a k
    proof -
      have "set (take k fs) \<subseteq> set fs" by (rule set_take_subset)
      with that g show ?thesis unfolding p by (auto simp: I_def take_map sets_fold)
    qed
    have "I (abstract (v (snd ws)))" by (simp add: I_def)
    from prefixes_keep[OF ps(1) part this] ps(2) run show ?thesis by (simp add: I_def del: abstract_sel)
  qed
  have set': "a_sync (abstract (v (snd ws'))) g = map_of (rev fs) g"
    if "err = None" "g \<in> fst ` set fs" "g \<noteq> ''entity_count''" for g
  proof -
    obtain w' t where ws': "ws' = (w', t)" by fastforce
    have ok: "\<forall>k \<in> set (p_cmds (build ?new)). cmd_ok R k" using pok by (simp add: pipe_ok_def)
    have "p_cmds (build ?new) \<noteq> []" "p_err (build ?new) = None" unfolding p using ne by simp_all
    from run_pipe_ok[where build = build, OF st run[unfolded ws' that(1)] this]
    have t: "t = snd (Exec R (f_attempts f) False (build ?new) (snd ws))" by simp
    from Exec_refines(1)[OF R c ok, of "f_attempts f" False, folded t]
    obtain b where "abstract (v t) = fold cmd_spec ?cs b" by (auto simp: exec_prefixes_def prefixes_spec_def p)
    with that(2,3) show ?thesis by (simp add: ws' sets_fold del: abstract_sel)
  qed
  from keeps others set' run show ?thesis by (simp del: abstract_sel)
qed

lemma seed_pipes:
  "only_sets [(''config_hash'', fp), (''state'', ''seeding'')] (state_pipe fp)"
  "only_sets [(''dump_time'', t)] (SetSyncState ''dump_time'' t)"
  by (simp_all add: only_sets_def state_pipe_def SetSyncState_def queue_def)

lemma flush_data:
  assumes R: "redis_ok R v" and run: "FlushDataContext R c1 c2 s = (err, s')"
  shows "(err = None \<longrightarrow> v s' = fresh_content) \<and> (v s' = v s \<or> v s' = no_content \<or> v s' = fresh_content)"
  using run by (cases c1; cases c2) (auto simp: FlushDataContext_def redis_hash(5)[OF R] view_flush[OF R] split: if_splits)

lemma process_outcome:
  assumes R: "redis_ok R v" and J: "cjson_ok R" and W: "wiki_utf8 W" and r: "at_rest R v meta (snd ws)"
    and run: "processDumpStream R W cancel text tries ws = (res, ws')"
  shows "at_rest R v meta (snd ws') \<and>
    (res \<in> range Inr \<longrightarrow> entities (v (snd ws')) = put_recs (dump_records W (fst text)) (entities (v (snd ws))))"
proof -
  obtain lines too_long where sc: "scan_lines dumpScannerBufSize (fst text) = (lines, too_long)" by fastforce
  let ?seen = "case cancel of None \<Rightarrow> lines | Some k \<Rightarrow> take k lines"
  let ?items = "concat (map (dump_line W) ?seen)"
  obtain err ts ws1 where w: "seed_writer R [] ?items tries ws = (err, ts, ws1)" by (metis surj_pair)
  have "recs_ok ([] @ ?items)" using concat_recs_ok[of "map (dump_line W) ?seen"] dump_line_ok[OF W] by simp
  note out = writer_outcome[OF R J this r w]
  have ws': "ws' = ws1" using run sc w by (auto simp: processDumpStream_def Let_def split: if_splits option.splits)
  have "err = None \<and> ?items = dump_records W (fst text)" if "res \<in> range Inr"
    using that run sc w by (auto simp: processDumpStream_def Let_def dump_records_def split: if_splits option.splits)
  with out ws' show ?thesis by auto
qed

lemma needs_seed:
  assumes R: "redis_ok R v"
  shows "NeedsSeed R sha True True s = Inr False \<longleftrightarrow>
    (\<exists>t. t \<noteq> [] \<and> a_sync (abstract (v s)) ''dump_time'' = Some t) \<and>
    (case a_sync (abstract (v s)) ''config_hash'' of None \<Rightarrow> [] | Some h \<Rightarrow> h) = configFingerprint sha"
  by (auto simp: NeedsSeed_def GetSyncState_def redis_hash(1)[OF R] split: option.splits)

text \<open>
  The store as a complete import leaves it: the last value of every entity of the dump, and
  nothing else.
\<close>

definition imported :: "'s redis \<Rightarrow> ('s \<Rightarrow> content) \<Rightarrow> wiki_json \<Rightarrow> string \<Rightarrow> 's \<Rightarrow> bool" where
  "imported R v W text s \<longleftrightarrow> index_ok R (v s) \<and> entities (v s) = put_recs (dump_records W text) (\<lambda>_. None)"

text \<open>An import from the point at which the database has been emptied and its fingerprint set.\<close>

lemma import_outcome:
  assumes R: "redis_ok R v" and J: "cjson_ok R" and W: "wiki_utf8 W" and t: "t \<noteq> []"
    and s2: "a_sync (abstract (v (snd ws2))) ''dump_time'' = None" "entities (v (snd ws2)) = (\<lambda>_. None)"
      "index_ok R (v (snd ws2))" "a_sync (abstract (v (snd ws2))) ''config_hash'' = Some (configFingerprint sha)"
    and run: "(case processDumpStream R W (se_cancel env) (se_text env) (se_tries env) ws2 of
        (Inl e, ws3) \<Rightarrow> (Some e, ws3)
      | (Inr _, ws3) \<Rightarrow>
          (case run_pipe R (se_last env) (SetSyncState ''dump_time'' t) ws3 of
             (Some e, ws4) \<Rightarrow> (Some (SetDumpTime e), ws4)
           | (None, ws4) \<Rightarrow> (None, ws4))) = (err, ws')"
  shows "(err = None \<longrightarrow> NeedsSeed R sha True True (snd ws') = Inr False) \<and>
    (err = None \<or> NeedsSeed R sha True True (snd ws') = Inr False \<longrightarrow>
       imported R v W (fst (se_text env)) (snd ws') \<and> \<not> snd (se_text env))"
proof -
  obtain res ws3 where p: "processDumpStream R W (se_cancel env) (se_text env) (se_tries env) ws2 = (res, ws3)" by (metis surj_pair)
  have "at_rest R v (a_sync (abstract (v (snd ws2)))) (snd ws2)" using s2 by (simp add: at_rest_def)
  note out = process_outcome[OF R J W this p]
  have s3: "index_ok R (v (snd ws3))" "a_sync (abstract (v (snd ws3))) ''dump_time'' = None"
    "a_sync (abstract (v (snd ws3))) ''config_hash'' = Some (configFingerprint sha)"
    using out s2 by (simp_all add: at_rest_def del: abstract_sel)
  show ?thesis
  proof (cases res)
    case (Inl e)
    with run p have "err \<noteq> None" "ws' = ws3" by auto
    with s3(2) needs_seed[OF R] show ?thesis by (auto simp del: abstract_sel)
  next
    case (Inr n)
    obtain e4 ws4 where l: "run_pipe R (se_last env) (SetSyncState ''dump_time'' t) ws3 = (e4, ws4)" by (metis surj_pair)
    note s4 = only_sets_run[OF R s3(1) seed_pipes(2) l]
    have w4: "ws' = ws4" "err = None \<longleftrightarrow> e4 = None" using run p Inr l by (auto split: option.splits)
    have "imported R v W (fst (se_text env)) (snd ws4)" using s4 out Inr s2(2) by (simp add: imported_def)
    moreover have "\<not> snd (se_text env)"
      using p Inr by (auto simp: processDumpStream_def Let_def split: if_splits option.splits prod.splits)
    moreover have "NeedsSeed R sha True True (snd ws4) = Inr False" if "e4 = None"
      using s4 that s3(3) t needs_seed[OF R] by (simp del: abstract_sel)
    ultimately show ?thesis using w4 by auto
  qed
qed

lemma seed_outcome:
  assumes R: "redis_ok R v" and J: "cjson_ok R" and W: "wiki_utf8 W"
    and date: "\<forall>d t. se_rfc3339 env d = Some t \<longrightarrow> t \<noteq> []"
    and run: "Seed R W sha env ws = (err, ws')"
  shows "(err = None \<longrightarrow> NeedsSeed R sha True True (snd ws') = Inr False \<and>
      imported R v W (fst (se_text env)) (snd ws') \<and> \<not> snd (se_text env)) \<and>
    (NeedsSeed R sha True True (snd ws') = Inr False \<longrightarrow>
       v (snd ws') = v (snd ws) \<or> imported R v W (fst (se_text env)) (snd ws') \<and> \<not> snd (se_text env))"
proof -
  let ?need = "NeedsSeed R sha True True" and ?dt = "\<lambda>s. a_sync (abstract (v s)) ''dump_time''" and ?fp = "configFingerprint sha"
  have unset: "?need s \<noteq> Inr False" if "?dt s = None" for s using that needs_seed[OF R] by (simp del: abstract_sel)
  obtain url d stale where loc: "se_located env = (url, d, stale)" by (metis surj_pair)
  obtain e1 s1 where fl: "FlushDataContext R (fst (se_flush env)) (snd (se_flush env)) (snd ws) = (e1, s1)" by fastforce
  note flushed = flush_data[OF R fl]
  have fresh: "?dt s1 = None" if "v s1 = no_content \<or> v s1 = fresh_content"
    using that by (auto simp: no_content_def)
  obtain e2 ws2 where st: "run_pipe R (se_state env) (state_pipe ?fp) (fst ws, s1) = (e2, ws2)" by (metis surj_pair)
  obtain eo where eo: "openDumpStream (se_status env) = eo" by blast
  consider (early) "ws' = ws" "err \<noteq> None"
    | (flush) "e1 \<noteq> None" "ws' = (fst ws, s1)" "err \<noteq> None"
    | (state) "e1 = None" "ws' = ws2" "err \<noteq> None"
    | (on) t where "e1 = None" "e2 = None" "se_rfc3339 env d = Some t"
        "(case processDumpStream R W (se_cancel env) (se_text env) (se_tries env) ws2 of
            (Inl e, ws3) \<Rightarrow> (Some e, ws3)
          | (Inr _, ws3) \<Rightarrow>
              (case run_pipe R (se_last env) (SetSyncState ''dump_time'' t) ws3 of
                 (Some e, ws4) \<Rightarrow> (Some (SetDumpTime e), ws4)
               | (None, ws4) \<Rightarrow> (None, ws4))) = (err, ws')"
    using run by (cases eo) (auto simp: Seed_def loc fl st eo split: if_splits option.splits)
  then show ?thesis
  proof cases
    case early
    then show ?thesis by auto
  next
    case flush
    then show ?thesis using flushed fresh unset[of s1] by auto
  next
    case state
    have "index_ok R (v (snd (fst ws, s1)))" using flushed state(1) by simp
    from only_sets_run[OF R this seed_pipes(1) st] flushed state(1) fresh have "?dt (snd ws2) = None"
      by (simp del: abstract_sel)
    with unset state show ?thesis by auto
  next
    case on
    have i1: "index_ok R (v (snd (fst ws, s1)))" using flushed on(1) by simp
    note s2 = only_sets_run[OF R i1 seed_pipes(1) st]
    have w2: "?dt (snd ws2) = None" "entities (v (snd ws2)) = (\<lambda>_. None)" "index_ok R (v (snd ws2))"
      "a_sync (abstract (v (snd ws2))) ''config_hash'' = Some ?fp"
      using s2 flushed on(1,2) fresh by (simp_all del: abstract_sel add: fresh_store)
    have "t \<noteq> []" using date on(3) by blast
    from import_outcome[OF R J W this w2 on(4)] show ?thesis by blast
  qed
qed

section \<open>A connection that holds\<close>

definition good_recs :: "EntityRecord list \<Rightarrow> bool" where
  "good_recs rs \<longleftrightarrow> recs_ok rs \<and> (\<forall>r \<in> set rs. plain_qid (er_WikidataID r) \<and> check_mappings (er_WikidataID r) (er_Mappings r) = None)"

lemma good_flush:
  assumes R: "redis_ok R v" and J: "cjson_ok R" and ok: "good_recs rs"
    and c: "index_ok R (v (snd ws))" and r: "room v (snd ws) (length rs + n)"
  shows "\<exists>ws'. seed_flush R rs [] ws = (None, [], ws') \<and> index_ok R (v (snd ws')) \<and> room v (snd ws') n"
proof (cases "rs = []")
  case True
  with c r show ?thesis by (simp add: seed_flush_def)
next
  case False
  let ?b = "fold UpsertEntity rs" and ?new = "\<lparr>p_err = None, p_cmds = []\<rparr>"
  have p: "?b ?new = \<lparr>p_err = None, p_cmds = map raw_cmd (map rec_pair rs)\<rparr>"
    using upserts_queued[of ?new rs] ok by (simp add: good_recs_def upsert_cmd_pair comp_def)
  have "pipe_ok R (?b ?new)"
    using batch_pipe_ok[OF J, of rs ?new] ok by (simp add: good_recs_def pipe_ok_def)
  then have cmds: "\<forall>x \<in> set (map rec_pair rs). cmd_ok R (raw_cmd x)" unfolding p by (auto simp: pipe_ok_def)
  let ?out = "snd (run_cmds R (map raw_cmd (map rec_pair rs)) (snd ws))"
  note rep = upsert_replies[OF R c cmds, of n] r
  then obtain w where w: "run_pipe R good_fate ?b ws = (None, w, ?out)"
    using good_pipe[of ?b R ws] by (auto simp: p)
  have "abstract (v ?out) = fold cmd_spec (map raw_cmd (map rec_pair rs)) (abstract (v (snd ws))) \<and> index_ok R (v ?out)"
    by (rule run_cmds_refines[OF R c]) (use cmds in auto)
  then show ?thesis using rep w False
    by (simp add: seed_flush_def dumpWriteMaxRetries_def numeral_eq_Suc)
qed

lemma good_writer:
  assumes R: "redis_ok R v" and J: "cjson_ok R"
  shows "good_recs (batch @ items) \<Longrightarrow> index_ok R (v (snd ws)) \<Longrightarrow> room v (snd ws) (length (batch @ items)) \<Longrightarrow>
    \<exists>ws'. seed_writer R batch items [] ws = (None, [], ws') \<and> index_ok R (v (snd ws')) \<and> room v (snd ws') 0"
proof (induction items arbitrary: batch ws)
  case Nil
  then show ?case using good_flush[OF R J, of batch ws 0] by simp
next
  case (Cons item items)
  let ?b = "batch @ [item]"
  show ?case
  proof (cases "dumpBatchSize \<le> length ?b")
    case False
    have "good_recs (?b @ items)" "room v (snd ws) (length (?b @ items))" using Cons.prems(1,3) by simp_all
    from Cons.IH[OF this(1) Cons.prems(2) this(2)] False show ?thesis by (simp add: Let_def)
  next
    case True
    have g: "good_recs ?b" "good_recs ([] @ items)" using Cons.prems(1) by (auto simp: good_recs_def recs_ok_def)
    have "room v (snd ws) (length ?b + length items)" using Cons.prems(3) by simp
    from good_flush[OF R J g(1) Cons.prems(2) this] obtain ws1 where
      "seed_flush R ?b [] ws = (None, [], ws1)" "index_ok R (v (snd ws1))" "room v (snd ws1) (length ([] @ items))" by auto
    with Cons.IH[OF g(2)] True show ?thesis by (simp add: Let_def)
  qed
qed

lemma dump_records_good:
  assumes W: "wiki_utf8 W" and plain: "\<forall>r \<in> set (dump_records W text). plain_qid (er_WikidataID r)"
  shows "good_recs (dump_records W text)"
proof -
  have "check_mappings (er_WikidataID r) (er_Mappings r) = None" if "r \<in> set (dump_line W l)" for r l
    using dump_line_from[OF that] extract_valid by auto
  moreover have "recs_ok (dump_records W text)"
    using concat_recs_ok[of "map (dump_line W) (fst (scan_lines dumpScannerBufSize text))"] dump_line_ok[OF W]
    by (simp add: dump_records_def)
  ultimately show ?thesis using plain by (auto simp: good_recs_def dump_records_def)
qed

lemma seed_success:
  assumes R: "redis_ok R v" and J: "cjson_ok R" and W: "wiki_utf8 W"
    and env: "fst (se_located env) \<noteq> []" "se_status env = Some 200" "se_flush env = (Answered, Answered)"
      "se_state env = good_fate" "se_rfc3339 env (fst (snd (se_located env))) = Some t"
      "se_cancel env = None" "se_tries env = []" "se_last env = good_fate"
    and tx: "se_text env = (text, False)" "snd (scan_lines dumpScannerBufSize text) = False"
    and plain: "\<forall>r \<in> set (dump_records W text). plain_qid (er_WikidataID r)"
    and n: "int (length (dump_records W text)) + 16 < 2 ^ 63"
  shows "fst (Seed R W sha env ws) = None"
proof -
  let ?fp = "configFingerprint sha"
  obtain url d stale where loc: "se_located env = (url, d, stale)" by (metis surj_pair)
  let ?s1 = "r_hset R metaKey ''schema_version'' SchemaVersion (r_flushdb R (snd ws))"
  have fl: "FlushDataContext R (fst (se_flush env)) (snd (se_flush env)) (snd ws) = (None, ?s1)"
    by (simp add: FlushDataContext_def env(3))
  have s1: "index_ok R (v (snd (fst ws, ?s1)))" "room v (snd (fst ws, ?s1)) (length (dump_records W text))"
    using n by (simp_all add: view_flush[OF R] room_def entity_total_def)
  obtain w2 s2 where st: "run_pipe R good_fate (state_pipe ?fp) (fst ws, ?s1) = (None, w2, s2)"
    "index_ok R (v s2)" "room v s2 (length (dump_records W text))"
    using meta_good[where build = "state_pipe ?fp", OF R s1] by (auto simp: state_pipe_def pipe_queues)
  have "good_recs ([] @ dump_records W text)" using dump_records_good[OF W plain] by simp
  from good_writer[OF R J this, of "(w2, s2)"] st(2,3) obtain ws3 where
    w3: "seed_writer R [] (dump_records W text) [] (w2, s2) = (None, [], ws3)" "index_ok R (v (snd ws3))" "room v (snd ws3) 0" by auto
  then have p: "\<exists>k. processDumpStream R W (se_cancel env) (se_text env) (se_tries env) (w2, s2) = (Inr k, ws3)"
    using tx by (auto simp: processDumpStream_def env dump_records_def split: prod.splits)
  obtain w4 s4 where l: "run_pipe R good_fate (SetSyncState ''dump_time'' t) ws3 = (None, w4, s4)"
    using meta_good[where build = "SetSyncState ''dump_time'' t", OF R w3(2,3)] by (auto simp: pipe_queues)
  from p show ?thesis using env l st(1) fl loc by (auto simp: Seed_def openDumpStream_def)
qed

section \<open>From the file to the store\<close>

text \<open>A decompressor passes an error of its input on.\<close>

definition reports :: "decompressor \<Rightarrow> bool" where
  "reports unpack \<longleftrightarrow> (\<forall>bytes chunks end. unpack (bytes, end) = Some (chunks, AtEof) \<longrightarrow> end = AtEof)"

definition file_text :: "seed_env \<Rightarrow> string \<Rightarrow> string option" where
  "file_text env file =
     (case newDecompressor (se_gunzip env) (se_bunzip env) (NewSeeder (se_format env)) (file, AtEof) of
        Some (chunks, AtEof) \<Rightarrow> Some (concat chunks)
      | _ \<Rightarrow> None)"

lemma dump_text_whole: "\<not> snd (dump_text r) \<Longrightarrow> fst (dump_text r) = ch_cur r @ concat (ch_chunks r) \<and> ch_err r = None"
  using channel_delivers[of "replicate (Suc (length (ch_cur r @ concat (ch_chunks r)))) dumpScannerBufSize" r]
  by (auto simp: dump_text_def dumpScannerBufSize_def simp del: read_all.simps replicate.simps split: option.splits)

lemma unpacked_whole:
  assumes "ch_err (decompress_ahead gz bz f k input) = None"
  obtains chunks where "newDecompressor gz bz f input = Some (chunks, AtEof)"
    "decompress_ahead gz bz f k input = \<lparr>ch_chunks = chunks, ch_err = None, ch_cur = []\<rparr>"
  using assms by (auto simp: decompress_ahead_def split: option.splits read_end.splits)

lemma whole_file:
  assumes "\<forall>nw \<in> set (se_nets env). honest file (se_etag env) nw" and "sends file (se_body env)"
    and "reports (se_gunzip env)" "reports (se_bunzip env)" and whole: "\<not> snd (se_text env)"
  shows "file_text env file = Some (fst (se_text env))"
proof -
  let ?f = "NewSeeder (se_format env)" and ?gz = "se_gunzip env" and ?bz = "se_bunzip env"
  note t = dump_text_whole[OF whole[unfolded se_text_def]]
  obtain chunks where u: "newDecompressor ?gz ?bz ?f (downloaded env) = Some (chunks, AtEof)"
    "fst (se_text env) = concat chunks"
    using unpacked_whole[OF conjunct2[OF t]] t unfolding se_text_def by (metis append_Nil chanReader.select_convs(1,3))
  obtain y en where d: "read_all (counting_Read resumable_Read) (se_nets env)
      \<lparr>cr_r = newResumableBody (se_body env) (se_etag env), cr_bytes = 0\<rparr> = (y, en)" by fastforce
  have "snd (downloaded env) = AtEof"
    using u(1) assms(3,4) unfolding reports_def newDecompressor_def by (metis option.distinct(1) prod.collapse)
  then have "en = Some AtEof" by (auto simp: downloaded_def d split: option.splits)
  with download_whole[OF assms(1,2) d] have "downloaded env = (file, AtEof)" by (simp add: downloaded_def d)
  with u show ?thesis by (simp add: file_text_def)
qed

text \<open>
  Claim C11: a seed that succeeds leaves exactly the entities of the file that the server has,
  unpacked, and the database counts as seeded; and however a seed ends, with whatever broken
  downloads, failed writes and lost replies, and so also if the process stops in between, the
  database only counts as seeded if the seed had not touched it or the whole dump is in it.
\<close>

theorem Seed_marks_complete:
  assumes "redis_ok R v" and "cjson_ok R" and "wiki_utf8 W"
    and "\<forall>d t. se_rfc3339 env d = Some t \<longrightarrow> t \<noteq> []"
    and "\<forall>nw \<in> set (se_nets env). honest file (se_etag env) nw" and "sends file (se_body env)"
    and "reports (se_gunzip env)" "reports (se_bunzip env)"
    and "Seed R W sha env ws = (err, ws')"
  shows "(err = None \<longrightarrow> NeedsSeed R sha True True (snd ws') = Inr False \<and>
      (\<exists>text. file_text env file = Some text \<and> imported R v W text (snd ws'))) \<and>
    (NeedsSeed R sha True True (snd ws') = Inr False \<longrightarrow>
       v (snd ws') = v (snd ws) \<or> (\<exists>text. file_text env file = Some text \<and> imported R v W text (snd ws')))"
  using seed_outcome[OF assms(1-4,9)] whole_file[OF assms(5-8)] by blast

text \<open>
  Claim C12: a seed whose download, server calls and writes go well succeeds, if the entities of
  the dump have well-formed IDs and there is room for them in the counter.
\<close>

theorem Seed_succeeds:
  assumes "redis_ok R v" and "cjson_ok R" and "wiki_utf8 W"
    and "fst (se_located env) \<noteq> []" "se_status env = Some 200" "se_flush env = (Answered, Answered)"
      "se_state env = good_fate" "se_rfc3339 env (fst (snd (se_located env))) = Some t"
      "se_cancel env = None" "se_tries env = []" "se_last env = good_fate"
    and "se_text env = (text, False)" "snd (scan_lines dumpScannerBufSize text) = False"
    and "\<forall>r \<in> set (dump_records W text). plain_qid (er_WikidataID r)"
    and "int (length (dump_records W text)) + 16 < 2 ^ 63"
  shows "fst (Seed R W sha env ws) = None"
  by (rule seed_success[OF assms])

section \<open>Witnesses\<close>

definition example_dump :: string where
  "example_dump = unlines [''['', ''x,'', '']'']"

text \<open>The first connection breaks after four bytes.\<close>

definition dump_network :: network where
  "dump_network = \<lparr>nw_cancelled = False,
     nw_server = (\<lambda>off tag. if off = 4 \<and> tag = ''e'' then Some (206, [(drop 4 example_dump, None)]) else None)\<rparr>"

definition example_env :: seed_env where
  "example_env = \<lparr>se_located = findDatedDumpURL (NewSeeder []) (\<lambda>n. ''20240101'') (\<lambda>_. Some 200),
     se_status = Some 200, se_flush = (Answered, Answered), se_state = good_fate,
     se_rfc3339 = (\<lambda>d. Some (d @ ''T00:00:00Z'')),
     se_body = [(take 4 example_dump, Some BodyError)], se_etag = ''e'', se_nets = replicate 3 dump_network,
     se_gunzip = (\<lambda>(b, e). Some ([b], e)), se_bunzip = (\<lambda>_. None), se_format = [], se_unpack = None,
     se_cancel = None, se_tries = [], se_last = good_fate\<rparr>"

lemma example_download:
  "\<forall>nw \<in> set (se_nets example_env). honest example_dump (se_etag example_env) nw"
  "sends example_dump (se_body example_env)" "reports (se_gunzip example_env)" "reports (se_bunzip example_env)"
  by (auto simp: example_env_def dump_network_def honest_def example_dump_def reports_def)

lemma example_downloaded: "downloaded example_env = (example_dump, AtEof)"
  by (simp add: downloaded_def example_env_def dump_network_def numeral_3_eq_3 counting_Read_def resumable_Read_def
      newResumableBody_def reconnect_def waitForContext_def dumpResumeMaxRetries_def example_dump_def Let_def)

lemma example_text: "se_text example_env = (example_dump, False)"
proof -
  let ?r = "\<lparr>ch_chunks = [example_dump], ch_err = None, ch_cur = []\<rparr>"
  have "read_all chan_Read (replicate (Suc (length example_dump)) dumpScannerBufSize) ?r = (example_dump, Some AtEof)"
    using channel_delivers[of "replicate (Suc (length example_dump)) dumpScannerBufSize" ?r]
    by (simp add: dumpScannerBufSize_def del: read_all.simps replicate.simps)
  then have "dump_text ?r = (example_dump, False)"
    by (simp add: dump_text_def del: read_all.simps replicate.simps)
  then show ?thesis
    by (simp add: se_text_def example_downloaded)
      (simp add: example_env_def decompress_ahead_def newDecompressor_def NewSeeder_def)
qed

lemma example_lines_fit: "scan_lines dumpScannerBufSize example_dump = ([''['', ''x,'', '']''], False)"
  unfolding example_dump_def by (rule scan_unlines) (simp add: line_fits_def dumpScannerBufSize_def drop_cr_def)

lemma plain_json_utf8: "wiki_utf8 plain_json"
  by (auto simp: wiki_utf8_def plain_json_def intro: utf8_ok_ascii split: if_splits)

lemma example_records: "dump_records plain_json example_dump = [\<lparr>er_WikidataID = ''Q42'', er_Mappings = extractExternalIDs plain_json
    [(''P1'', [\<lparr>cl_DataType = ''external-id'', cl_Value = ''x'', cl_Rank = ''normal''\<rparr>])]\<rparr>]"
proof -
  have "TrimSpace ''['' = ''[''" "TrimSpace ''x,'' = ''x,''" "TrimSpace '']'' = '']''"
    by (simp_all add: TrimSpace_def trim_front.simps white_space_def HasPrefix_def)
  then show ?thesis
    by (simp add: dump_records_def example_lines_fit dump_line_def dumpMaxLineSize_def ParseEntityJSON_def plain_json_def HasPrefix_def)
qed

lemma example_seed:
  "fst (se_located example_env) \<noteq> []" "se_status example_env = Some 200" "se_flush example_env = (Answered, Answered)"
  "se_state example_env = good_fate" "se_cancel example_env = None" "se_tries example_env = []" "se_last example_env = good_fate"
  "se_rfc3339 example_env (fst (snd (se_located example_env))) = Some ''20240101T00:00:00Z''"
  "\<forall>d t. se_rfc3339 example_env d = Some t \<longrightarrow> t \<noteq> []"
  "snd (scan_lines dumpScannerBufSize example_dump) = False"
  "\<forall>r \<in> set (dump_records plain_json example_dump). plain_qid (er_WikidataID r)"
  "int (length (dump_records plain_json example_dump)) + 16 < 2 ^ 63"
proof -
  have "findDatedDumpURL f dates (\<lambda>_. Some 200) = (dump_url f (dates 0), dates 0, False)" for f dates
    by (simp add: findDatedDumpURL_def upt_rec[of 0] dumpStaleThreshold_def minute_def second_def del: upt_Suc)
  then show "fst (se_located example_env) \<noteq> []"
    "se_rfc3339 example_env (fst (snd (se_located example_env))) = Some ''20240101T00:00:00Z''"
    by (simp_all add: example_env_def dump_url_def)
  have "intToQid 42 = ''Q42''" by code_simp
  moreover have "int64 42" by (simp add: int64_def)
  ultimately have "plain_qid ''Q42''" unfolding plain_qid_def by metis
  then show "\<forall>r \<in> set (dump_records plain_json example_dump). plain_qid (er_WikidataID r)" by (simp add: example_records)
  show "int (length (dump_records plain_json example_dump)) + 16 < 2 ^ 63" by (simp add: example_records)
qed (simp_all add: example_env_def example_lines_fit)

theorem Seed_succeeds_witness: "fst (Seed mem_redis plain_json id example_env (\<lparr>scriptsLoaded = False\<rparr>, no_content)) = None"
  by (rule Seed_succeeds[OF mem_redis_ok mem_cjson_ok plain_json_utf8 example_seed(1-4,8,5-7) example_text example_seed(10-12)])

theorem Seed_marks_complete_witness:
  "NeedsSeed mem_redis id True True (snd (snd (Seed mem_redis plain_json id example_env (\<lparr>scriptsLoaded = False\<rparr>, no_content)))) = Inr False"
proof -
  let ?run = "Seed mem_redis plain_json id example_env (\<lparr>scriptsLoaded = False\<rparr>, no_content)"
  have "fst ?run = None"
    by (rule seed_success[OF mem_redis_ok mem_cjson_ok plain_json_utf8 example_seed(1-4,8,5-7) example_text example_seed(10-12)])
  then obtain ws' where run: "?run = (None, ws')" by (metis prod.collapse)
  from Seed_marks_complete[OF mem_redis_ok mem_cjson_ok plain_json_utf8 example_seed(9) example_download run] run show ?thesis by simp
qed

text \<open>The search finds the most recent dump of the last two weeks, if there is one.\<close>

lemma find_dump_first:
  "find_dump f dates head ns = (case find (\<lambda>n. head (dump_url f (dates n)) = Some 200) ns of
     None \<Rightarrow> ([], [], False)
   | Some n \<Rightarrow> (dump_url f (dates n), dates n, 7 < n))"
  by (induction ns) (auto simp: dumpStaleThreshold_def minute_def second_def)

end
