(* ===== verification/HttpEncoding.thy ===== *)
theory HttpEncoding
  imports Replica
begin

text \<open>
  \<open>internal/httpencoding\<close>: the negotiation of a content encoding and the middleware that
  compresses responses. \<open>pf\<close> stands for \<open>strconv.ParseFloat\<close>: whether a text is a number greater
  than zero. A handler is the list of what it does to its response writer; compressors are
  parameters.

  The results: the server answers a replica in an encoding that the replica offered and can
  decode, and a compressed response decodes to the response that the handler would have sent
  without compression.
\<close>

section \<open>Negotiation\<close>

definition DefaultEncodings :: "string list" where "DefaultEncodings = [''zstd'', ''gzip'']"

definition encoding_list :: "string list option \<Rightarrow> string list" where
  "encoding_list allowed = (case allowed of None \<Rightarrow> DefaultEncodings | Some es \<Rightarrow> es)"

text \<open>The first \<open>q\<close> parameter counts; without one the quality is 1.\<close>

fun quality_positive :: "(string \<Rightarrow> bool) \<Rightarrow> string list \<Rightarrow> bool" where
  "quality_positive pf [] = True"
| "quality_positive pf (param # params) =
     (case Cut (TrimSpace param) CHR ''='' of
        (key, rawValue, found) \<Rightarrow>
          if \<not> found \<or> key \<noteq> ''q'' \<and> key \<noteq> ''Q'' then quality_positive pf params
          else pf (TrimSpace rawValue))"

definition part_accepts :: "(string \<Rightarrow> bool) \<Rightarrow> string \<Rightarrow> string \<Rightarrow> bool" where
  "part_accepts pf target raw =
     (let part = TrimSpace raw in
      if part = [] then False
      else (case Cut part CHR '';'' of
              (rawName, params, _) \<Rightarrow>
                let name = ToLower (TrimSpace rawName) in
                if name \<noteq> target \<and> name \<noteq> ''*'' then False
                else quality_positive pf (Split params CHR '';'')))"

definition Accepts :: "(string \<Rightarrow> bool) \<Rightarrow> string list \<Rightarrow> string \<Rightarrow> bool" where
  "Accepts pf values target =
     list_ex (\<lambda>val. list_ex (part_accepts pf (ToLower target)) (Split val CHR '','')) values"

definition Preferred :: "(string \<Rightarrow> bool) \<Rightarrow> string list \<Rightarrow> string list option \<Rightarrow> string" where
  "Preferred pf values allowed =
     (case find (Accepts pf values) (encoding_list allowed) of None \<Rightarrow> [] | Some enc \<Rightarrow> enc)"

definition ParseEncodings :: "string \<Rightarrow> string list option" where
  "ParseEncodings s =
     (if s = [] then None
      else Some (filter (\<lambda>enc. enc = ''zstd'' \<or> enc = ''gzip'') (map (\<lambda>part. TrimSpace (ToLower part)) (Split s CHR '',''))))"

definition AcceptHeader :: "string list option \<Rightarrow> string" where
  "AcceptHeader encodings = Join (encoding_list encodings) '', ''"

text \<open>
  The header of the replica's request for the stream (\<open>connectStream\<close> sets it if it is not empty). A
  request without one gets \<open>gzip\<close> from the transport of \<open>net/http\<close>, which then also decompresses the
  answer.
\<close>

definition sent_accept :: "string list option \<Rightarrow> string list" where
  "sent_accept encodings =
     (let acceptEnc = AcceptHeader encodings in if acceptEnc \<noteq> [] then [acceptEnc] else [''gzip''])"

section \<open>Responses\<close>

type_synonym headers = "string \<Rightarrow> string list"

text \<open>
  \<open>http.ResponseWriter\<close>: the header map, the status and the headers once they are sent, and the
  pieces of the body.
\<close>

record response =
  rs_header :: headers
  rs_status :: "int option"
  rs_sent :: headers
  rs_body :: "string list"

definition base_WriteHeader :: "int \<Rightarrow> response \<Rightarrow> response" where
  "base_WriteHeader n w = (if rs_status w = None then w\<lparr>rs_status := Some n, rs_sent := rs_header w\<rparr> else w)"

definition base_Write :: "string \<Rightarrow> response \<Rightarrow> response" where
  "base_Write x w = (let w1 = base_WriteHeader 200 w in w1\<lparr>rs_body := rs_body w1 @ [x]\<rparr>)"

definition base_Flush :: "response \<Rightarrow> response" where
  "base_Flush w = base_WriteHeader 200 w"

text \<open>What a handler can do; the writer may or may not be a \<open>Flusher\<close>.\<close>

datatype op = SetHeader string string | WriteHeader int | WriteBody string | FlushBody

fun plain_op :: "bool \<Rightarrow> op \<Rightarrow> response \<Rightarrow> response" where
  "plain_op fl (SetHeader k x) w = w\<lparr>rs_header := (rs_header w)(k := [x])\<rparr>"
| "plain_op fl (WriteHeader n) w = base_WriteHeader n w"
| "plain_op fl (WriteBody x) w = base_Write x w"
| "plain_op fl FlushBody w = (if fl then base_Flush w else w)"

text \<open>The server sends the header at the end if the handler did not.\<close>

definition serve_plain :: "bool \<Rightarrow> op list \<Rightarrow> response \<Rightarrow> response" where
  "serve_plain fl ops w = base_WriteHeader 200 (fold (plain_op fl) ops w)"

section \<open>The compressing writer\<close>

text \<open>\<open>cw_writer\<close> is what has been written to the current frame.\<close>

record compressedWriter =
  cw_base :: response
  cw_flusher :: bool
  cw_statusCode :: int
  cw_headerSent :: bool
  cw_encoding :: string
  cw_writer :: "string list option"

definition newCompressedWriter :: "bool \<Rightarrow> response \<Rightarrow> string \<Rightarrow> compressedWriter" where
  "newCompressedWriter fl base encoding =
     \<lparr>cw_base = base, cw_flusher = fl, cw_statusCode = 0, cw_headerSent = False, cw_encoding = encoding, cw_writer = None\<rparr>"

definition cw_WriteHeader :: "int \<Rightarrow> compressedWriter \<Rightarrow> compressedWriter" where
  "cw_WriteHeader n w = (if cw_headerSent w then w else w\<lparr>cw_statusCode := n\<rparr>)"

definition encoded_headers :: "string \<Rightarrow> headers \<Rightarrow> headers" where
  "encoded_headers encoding h =
     h(''Vary'' := h ''Vary'' @ [''Accept-Encoding''], ''Content-Encoding'' := [encoding], ''Content-Length'' := [])"

definition ensureHeaderAndWriter :: "compressedWriter \<Rightarrow> compressedWriter" where
  "ensureHeaderAndWriter w =
     (if cw_headerSent w then w
      else
        let status = (if cw_statusCode w = 0 then 200 else cw_statusCode w);
            base = (cw_base w)\<lparr>rs_header := encoded_headers (cw_encoding w) (rs_header (cw_base w))\<rparr>
        in w\<lparr>cw_statusCode := status, cw_base := base_WriteHeader status base, cw_headerSent := True, cw_writer := Some []\<rparr>)"

definition cw_Write :: "string \<Rightarrow> compressedWriter \<Rightarrow> compressedWriter" where
  "cw_Write x w =
     (let w1 = ensureHeaderAndWriter w in
      w1\<lparr>cw_writer := map_option (\<lambda>ys. ys @ [x]) (cw_writer w1)\<rparr>)"

text \<open>\<open>enc e ys\<close> is the frame that a compressor for \<open>e\<close> makes of the writes \<open>ys\<close>.\<close>

definition close_frame :: "(string \<Rightarrow> string list \<Rightarrow> string) \<Rightarrow> compressedWriter \<Rightarrow> compressedWriter" where
  "close_frame enc w =
     (case cw_writer w of
        None \<Rightarrow> w
      | Some y \<Rightarrow> w\<lparr>cw_base := base_Write (enc (cw_encoding w) y) (cw_base w)\<rparr>)"

definition cw_Flush :: "(string \<Rightarrow> string list \<Rightarrow> string) \<Rightarrow> compressedWriter \<Rightarrow> compressedWriter" where
  "cw_Flush enc w =
     (if \<not> cw_flusher w then w
      else
        let w1 = ensureHeaderAndWriter w in
        (case cw_writer w1 of
           None \<Rightarrow> w1\<lparr>cw_base := base_Flush (cw_base w1)\<rparr>
         | Some _ \<Rightarrow>
             let w2 = close_frame enc w1 in w2\<lparr>cw_base := base_Flush (cw_base w2), cw_writer := Some []\<rparr>))"

definition cw_Close :: "(string \<Rightarrow> string list \<Rightarrow> string) \<Rightarrow> compressedWriter \<Rightarrow> compressedWriter" where
  "cw_Close enc w =
     (if \<not> cw_headerSent w then
        let status = (if cw_statusCode w = 0 then 200 else cw_statusCode w) in
        w\<lparr>cw_statusCode := status, cw_base := base_WriteHeader status (cw_base w), cw_headerSent := True\<rparr>
      else close_frame enc w)"

fun compressed_op :: "(string \<Rightarrow> string list \<Rightarrow> string) \<Rightarrow> op \<Rightarrow> compressedWriter \<Rightarrow> compressedWriter" where
  "compressed_op enc (SetHeader k x) w = w\<lparr>cw_base := (cw_base w)\<lparr>rs_header := (rs_header (cw_base w))(k := [x])\<rparr>\<rparr>"
| "compressed_op enc (WriteHeader n) w = cw_WriteHeader n w"
| "compressed_op enc (WriteBody x) w = cw_Write x w"
| "compressed_op enc FlushBody w = cw_Flush enc w"

definition Middleware ::
  "(string \<Rightarrow> bool) \<Rightarrow> (string \<Rightarrow> string list \<Rightarrow> string) \<Rightarrow> bool \<Rightarrow> op list \<Rightarrow> string list option \<Rightarrow> string list \<Rightarrow> response \<Rightarrow> response" where
  "Middleware pf enc fl ops encodings accept w =
     (let encoding = Preferred pf accept encodings in
      if encoding = [] then serve_plain fl ops w
      else base_WriteHeader 200 (cw_base (cw_Close enc (fold (compressed_op enc) ops (newCompressedWriter fl w encoding)))))"

section \<open>Negotiation between a replica and its upstream\<close>

lemma TrimSpace_known: "TrimSpace ''zstd'' = ''zstd''" "TrimSpace ''gzip'' = ''gzip''"
  "TrimSpace '' zstd'' = ''zstd''" "TrimSpace '' gzip'' = ''gzip''" "TrimSpace [] = []"
  by (simp_all add: TrimSpace_def trim_front.simps white_space_def HasPrefix_def)

lemma ToLower_known: "ToLower ''zstd'' = ''zstd''" "ToLower ''gzip'' = ''gzip''" "ToLower ''*'' = ''*''"
  by (simp_all add: ToLower_ascii ascii_text_def lower_char_def)

lemma part_known:
  assumes "e = ''zstd'' \<or> e = ''gzip''" "t = ''zstd'' \<or> t = ''gzip''"
  shows "part_accepts pf t e \<longleftrightarrow> t = e" "part_accepts pf t (CHR '' '' # e) \<longleftrightarrow> t = e"
proof -
  have c: "Cut e CHR '';'' = (e, [], False)" using assms(1) by (intro Cut_none) auto
  have sp: "Split [] CHR '';'' = [[]]" "Cut [] CHR ''='' = ([], [], False)" by (simp_all add: Cut_none)
  have q: "quality_positive pf [[]]" by (simp add: TrimSpace_known sp)
  have tr: "TrimSpace e = e" "TrimSpace (CHR '' '' # e) = e" "ToLower e = e" "e \<noteq> []" "e \<noteq> ''*''"
    by (use assms(1) in \<open>elim disjE; simp add: TrimSpace_known ToLower_known\<close>)+
  show "part_accepts pf t e \<longleftrightarrow> t = e" using tr c q sp by (auto simp: part_accepts_def Let_def)
  show "part_accepts pf t (CHR '' '' # e) \<longleftrightarrow> t = e" using tr c q sp by (auto simp: part_accepts_def Let_def)
qed

definition known :: "string list \<Rightarrow> bool" where
  "known es \<longleftrightarrow> (\<forall>e \<in> set es. e = ''zstd'' \<or> e = ''gzip'')"

lemma known_cons: "known (e # es) \<Longrightarrow> known es" "known (e # es) \<Longrightarrow> CHR '','' \<notin> set e"
proof -
  assume k: "known (e # es)"
  then show "known es" by (simp add: known_def)
  from k have "e = ''zstd'' \<or> e = ''gzip''" by (simp add: known_def)
  then show "CHR '','' \<notin> set e" by (elim disjE) simp_all
qed

lemma Split_header:
  "known (e # es) \<Longrightarrow> Split (Join (e # es) '', '') CHR '','' = e # map (\<lambda>x. CHR '' '' # x) es"
proof (induction es arbitrary: e)
  case Nil
  then show ?case using known_cons(2) by (simp add: Split_no_sep)
next
  case (Cons x es)
  note k = known_cons[OF Cons.prems]
  have "Split (Join (e # x # es) '', '') CHR '','' = e # Split (CHR '' '' # Join (x # es) '', '') CHR '',''"
    using Split_append[OF k(2), of "CHR '' '' # Join (x # es) '', ''"] by simp
  also have "\<dots> = e # (CHR '' '' # x) # map (\<lambda>x. CHR '' '' # x) es" using Cons.IH[OF k(1)] by simp
  finally show ?case by simp
qed

lemma Accepts_header:
  assumes "known es" "es \<noteq> []" "t = ''zstd'' \<or> t = ''gzip''"
  shows "Accepts pf [Join es '', ''] t \<longleftrightarrow> t \<in> set es"
proof -
  obtain e xs where es: "es = e # xs" using assms(2) by (cases es) auto
  have t: "ToLower t = t" using assms(3) ToLower_known by auto
  have e: "part_accepts pf t e \<longleftrightarrow> t = e" using assms(1,3) part_known(1) by (auto simp: es known_def)
  have "part_accepts pf t (CHR '' '' # x) \<longleftrightarrow> t = x" if "x \<in> set xs" for x
    using assms(1,3) part_known(2)[of x t pf] that by (auto simp: es known_def)
  then have "list_ex (part_accepts pf t) (map (\<lambda>x. CHR '' '' # x) xs) \<longleftrightarrow> t \<in> set xs"
    by (auto simp: list_ex_iff)
  with e show ?thesis using Split_header[of e xs] assms(1) by (simp add: Accepts_def es t)
qed

lemma ParseEncodings_known: "ParseEncodings s = Some es \<Longrightarrow> known es"
  by (auto simp: ParseEncodings_def known_def split: if_splits)

lemma encoding_list_known: "known (encoding_list (ParseEncodings s))"
  using ParseEncodings_known[of s] by (cases "ParseEncodings s") (auto simp: encoding_list_def DefaultEncodings_def known_def)

text \<open>What a replica offers with its setting.\<close>

definition offered :: "string \<Rightarrow> string list" where
  "offered setting = (case encoding_list (ParseEncodings setting) of [] \<Rightarrow> [''gzip''] | es \<Rightarrow> es)"

lemma sent_offered: "sent_accept (ParseEncodings s) = [Join (offered s) '', '']" "known (offered s)" "offered s \<noteq> []"
proof -
  note k = encoding_list_known[of s]
  show "known (offered s)" "offered s \<noteq> []"
    using k by (auto simp: offered_def known_def split: list.splits)
  show "sent_accept (ParseEncodings s) = [Join (offered s) '', '']"
  proof (cases "encoding_list (ParseEncodings s)")
    case Nil
    then show ?thesis by (simp add: sent_accept_def AcceptHeader_def offered_def)
  next
    case (Cons x xs)
    then have "Join (x # xs) '', '' \<noteq> []" using k by (cases xs) (auto simp: known_def)
    with Cons show ?thesis by (simp add: sent_accept_def AcceptHeader_def offered_def)
  qed
qed

text \<open>
  Claim C21: whatever the two \<open>ENCODINGS\<close> settings are, the upstream answers a replica's request
  in the first of its own encodings that the replica offers, or without compression if there is
  none. A replica whose setting names no encoding still offers gzip; and an empty setting, of either
  side, stands for zstd and gzip.
\<close>

theorem negotiation_agrees:
  "Preferred pf (sent_accept (ParseEncodings client)) (ParseEncodings server) =
     (case find (\<lambda>e. e \<in> set (offered client)) (encoding_list (ParseEncodings server)) of None \<Rightarrow> [] | Some e \<Rightarrow> e) \<and>
   encoding_list (ParseEncodings []) = [''zstd'', ''gzip'']"
proof -
  let ?sv = "encoding_list (ParseEncodings server)"
  have "Accepts pf (sent_accept (ParseEncodings client)) e \<longleftrightarrow> e \<in> set (offered client)" if "e \<in> set ?sv" for e
    using encoding_list_known[of server] that sent_offered[of client]
    by (simp add: Accepts_header known_def)
  then have "find (Accepts pf (sent_accept (ParseEncodings client))) ?sv = find (\<lambda>e. e \<in> set (offered client)) ?sv"
    by (intro find_cong) auto
  then show ?thesis by (simp add: Preferred_def ParseEncodings_def encoding_list_def DefaultEncodings_def)
qed

text \<open>
  A client that rules an encoding out with \<open>q=0\<close> but accepts anything else with a
  wildcard is still answered in the encoding that it ruled out.
\<close>

theorem Accepts_overrides_refusal:
  "Accepts pf [''gzip;q=0, *''] ''gzip'' \<and> Preferred pf [''zstd;q=0, *''] None = ''zstd''"
proof -
  have sp: "Split ''gzip;q=0, *'' CHR '','' = [''gzip;q=0'', '' *'']" "Split ''zstd;q=0, *'' CHR '','' = [''zstd;q=0'', '' *'']"
    by simp_all
  have "TrimSpace '' *'' = ''*''" "TrimSpace ''*'' = ''*''"
    by (simp_all add: TrimSpace_def trim_front.simps white_space_def HasPrefix_def)
  then have "part_accepts pf t '' *''" for t
    by (simp add: part_accepts_def ToLower_known TrimSpace_known Cut_none)
  then have a: "Accepts pf [''gzip;q=0, *''] ''gzip''" "Accepts pf [''zstd;q=0, *''] ''zstd''"
    by (simp_all add: Accepts_def sp)
  then show ?thesis by (simp add: Preferred_def encoding_list_def DefaultEncodings_def)
qed

section \<open>Compression is transparent\<close>

text \<open>
  A handler sets its headers first, then perhaps the status, and then writes; it leaves the
  content encoding alone, and does not give a body to a status that has none.
\<close>

fun body_only :: "op list \<Rightarrow> bool" where
  "body_only [] = True"
| "body_only (WriteBody x # ops) = body_only ops"
| "body_only (FlushBody # ops) = body_only ops"
| "body_only (_ # ops) = False"

fun orderly :: "op list \<Rightarrow> bool" where
  "orderly (SetHeader k x # ops) = (k \<noteq> ''Content-Encoding'' \<and> orderly ops)"
| "orderly (WriteHeader n # ops) = (200 \<le> n \<and> n \<noteq> 204 \<and> n \<noteq> 304 \<and> body_only ops)"
| "orderly ops = body_only ops"

definition fresh_response :: "response \<Rightarrow> bool" where
  "fresh_response w \<longleftrightarrow> rs_status w = None \<and> rs_body w = [] \<and> rs_header w ''Content-Encoding'' = []"

definition decoded :: "(string \<Rightarrow> string \<Rightarrow> string option) \<Rightarrow> response \<Rightarrow> string option" where
  "decoded dec w =
     (case rs_sent w ''Content-Encoding'' of
        [e] \<Rightarrow> dec e (concat (rs_body w))
      | _ \<Rightarrow> Some (concat (rs_body w)))"

definition same_headers :: "headers \<Rightarrow> headers \<Rightarrow> bool" where
  "same_headers h h' \<longleftrightarrow>
     (\<forall>k. k \<noteq> ''Vary'' \<and> k \<noteq> ''Content-Encoding'' \<and> k \<noteq> ''Content-Length'' \<longrightarrow> h k = h' k)"

text \<open>The two writers side by side, before and after the compressing one has sent its header.\<close>

definition before :: "bool \<Rightarrow> string \<Rightarrow> response \<Rightarrow> compressedWriter \<Rightarrow> bool" where
  "before fl e p c \<longleftrightarrow> \<not> cw_headerSent c \<and> cw_encoding c = e \<and> cw_flusher c = fl \<and> rs_status (cw_base c) = None \<and>
     rs_body (cw_base c) = [] \<and> rs_body p = [] \<and> rs_header (cw_base c) = rs_header p \<and>
     rs_header p ''Content-Encoding'' = [] \<and>
     (case rs_status p of None \<Rightarrow> cw_statusCode c = 0 | Some n \<Rightarrow> cw_statusCode c = n \<and> n \<noteq> 0 \<and> rs_sent p = rs_header p)"

definition after :: "(string \<Rightarrow> string list \<Rightarrow> string) \<Rightarrow> bool \<Rightarrow> string \<Rightarrow> response \<Rightarrow> compressedWriter \<Rightarrow> bool" where
  "after enc fl e p c \<longleftrightarrow> cw_headerSent c \<and> cw_encoding c = e \<and> cw_flusher c = fl \<and>
     (\<exists>n. rs_status p = Some n \<and> rs_status (cw_base c) = Some n) \<and>
     rs_sent (cw_base c) ''Content-Encoding'' = [e] \<and> same_headers (rs_sent (cw_base c)) (rs_sent p) \<and>
     (\<exists>fs ys. cw_writer c = Some ys \<and> rs_body (cw_base c) = map (enc e) fs \<and>
       concat (rs_body p) = concat (map concat fs) @ concat ys)"

lemma header_sent:
  assumes "before fl e p c"
  shows "after enc fl e (base_WriteHeader 200 p) (ensureHeaderAndWriter c)"
  using assms
  by (cases "rs_status p")
    (auto simp: before_def after_def ensureHeaderAndWriter_def base_WriteHeader_def encoded_headers_def same_headers_def Let_def)

lemma already_sent: "after enc fl e p c \<Longrightarrow> ensureHeaderAndWriter c = c" "after enc fl e p c \<Longrightarrow> base_WriteHeader n p = p"
  "after enc fl e p c \<Longrightarrow> base_WriteHeader n (cw_base c) = cw_base c"
  by (auto simp: after_def ensureHeaderAndWriter_def base_WriteHeader_def)

lemma body_written:
  assumes "after enc fl e p c"
  shows "after enc fl e (p\<lparr>rs_body := rs_body p @ [x]\<rparr>) (c\<lparr>cw_writer := map_option (\<lambda>ys. ys @ [x]) (cw_writer c)\<rparr>)"
proof -
  obtain fs ys where "cw_writer c = Some ys" "rs_body (cw_base c) = map (enc e) fs"
    "concat (rs_body p) = concat (map concat fs) @ concat ys"
    using assms by (auto simp: after_def)
  then show ?thesis using assms unfolding after_def
    by (intro conjI exI[of _ fs] exI[of _ "ys @ [x]"]) auto
qed

lemma frame_closed:
  assumes "after enc fl e p c"
  shows "after enc fl e p ((close_frame enc c)\<lparr>cw_writer := Some []\<rparr>)"
    and "\<exists>fs. fs \<noteq> [] \<and> rs_body (cw_base (close_frame enc c)) = map (enc e) fs \<and> concat (rs_body p) = concat (map concat fs)"
proof -
  obtain fs y where y: "cw_writer c = Some y" "rs_body (cw_base c) = map (enc e) fs"
    "concat (rs_body p) = concat (map concat fs) @ concat y"
    using assms by (auto simp: after_def)
  have e: "cw_encoding c = e" using assms by (simp add: after_def)
  have b: "rs_body (cw_base (close_frame enc c)) = map (enc e) (fs @ [y])"
    using y e already_sent(3)[OF assms] by (simp add: close_frame_def base_Write_def Let_def)
  have cl: "close_frame enc c = c\<lparr>cw_base := (cw_base c)\<lparr>rs_body := rs_body (cw_base c) @ [enc e y]\<rparr>\<rparr>"
    using y e already_sent(3)[OF assms] by (simp add: close_frame_def base_Write_def Let_def)
  show "after enc fl e p ((close_frame enc c)\<lparr>cw_writer := Some []\<rparr>)"
    using assms y unfolding cl after_def by (intro conjI exI[of _ "fs @ [y]"] exI[of _ "[]"]) auto
  show "\<exists>fs. fs \<noteq> [] \<and> rs_body (cw_base (close_frame enc c)) = map (enc e) fs \<and> concat (rs_body p) = concat (map concat fs)"
    using b y(3) by (intro exI[of _ "fs @ [y]"]) simp
qed

lemma body_step:
  assumes "before fl e p c \<or> after enc fl e p c" "body_only [op]"
  shows "before fl e (plain_op fl op p) (compressed_op enc op c) \<or> after enc fl e (plain_op fl op p) (compressed_op enc op c)"
proof (cases op)
  case (WriteBody x)
  have "after enc fl e (base_WriteHeader 200 p) (ensureHeaderAndWriter c)"
    using assms(1) header_sent already_sent by metis
  from body_written[OF this, of x] WriteBody show ?thesis by (simp add: cw_Write_def base_Write_def Let_def)
next
  case FlushBody
  show ?thesis
  proof (cases fl)
    case False
    have "cw_flusher c = fl" using assms(1) by (auto simp: before_def after_def)
    with False FlushBody assms(1) show ?thesis by (simp add: cw_Flush_def)
  next
    case True
    have a: "after enc fl e (base_WriteHeader 200 p) (ensureHeaderAndWriter c)"
      using assms(1) header_sent already_sent by metis
    obtain y where y: "cw_writer (ensureHeaderAndWriter c) = Some y" using a by (auto simp: after_def)
    have f: "cw_flusher c" using assms(1) True by (auto simp: before_def after_def)
    note cl = frame_closed(1)[OF a]
    have "base_Flush (cw_base (close_frame enc (ensureHeaderAndWriter c))) = cw_base (close_frame enc (ensureHeaderAndWriter c))"
      using already_sent(3)[OF cl, of 200] by (simp add: base_Flush_def)
    then have "compressed_op enc FlushBody c = (close_frame enc (ensureHeaderAndWriter c))\<lparr>cw_writer := Some []\<rparr>"
      using f y by (simp add: cw_Flush_def Let_def)
    with cl True FlushBody show ?thesis by (simp add: base_Flush_def)
  qed
qed (use assms(2) in simp_all)

lemma body_steps:
  "before fl e p c \<or> after enc fl e p c \<Longrightarrow> body_only ops \<Longrightarrow>
   before fl e (fold (plain_op fl) ops p) (fold (compressed_op enc) ops c) \<or>
   after enc fl e (fold (plain_op fl) ops p) (fold (compressed_op enc) ops c)"
proof (induction ops arbitrary: p c)
  case Nil
  then show ?case by simp
next
  case (Cons op ops)
  have "body_only [op]" "body_only ops" using Cons.prems(2) by (cases op; simp)+
  from Cons.IH[OF body_step[OF Cons.prems(1) this(1)] this(2)] show ?case by simp
qed

lemma orderly_steps:
  "before fl e p c \<Longrightarrow> rs_status p = None \<Longrightarrow> orderly ops \<Longrightarrow>
   before fl e (fold (plain_op fl) ops p) (fold (compressed_op enc) ops c) \<or>
   after enc fl e (fold (plain_op fl) ops p) (fold (compressed_op enc) ops c)"
proof (induction ops arbitrary: p c rule: orderly.induct)
  case (1 k x ops)
  have "before fl e (plain_op fl (SetHeader k x) p) (compressed_op enc (SetHeader k x) c)"
    using "1.prems" by (auto simp: before_def)
  from "1.IH"[OF this] "1.prems" show ?case by simp
next
  case (2 n ops)
  have "before fl e (plain_op fl (WriteHeader n) p) (compressed_op enc (WriteHeader n) c)"
    using "2.prems" by (auto simp: before_def base_WriteHeader_def cw_WriteHeader_def)
  with body_steps "2.prems"(3) show ?case by simp
qed (use body_steps in \<open>metis orderly.simps(3-5)\<close>)+

text \<open>Without compression the response has no content encoding.\<close>

definition unencoded :: "response \<Rightarrow> bool" where
  "unencoded w \<longleftrightarrow> rs_header w ''Content-Encoding'' = [] \<and>
     (rs_status w \<noteq> None \<longrightarrow> rs_sent w ''Content-Encoding'' = [])"

lemma unencoded_header: "unencoded w \<Longrightarrow> unencoded (base_WriteHeader n w)"
  by (auto simp: unencoded_def base_WriteHeader_def)

lemma unencoded_op: "unencoded w \<Longrightarrow> orderly [op] \<Longrightarrow> unencoded (plain_op fl op w)"
  using unencoded_header[of w] by (cases op) (auto simp: base_Write_def base_Flush_def Let_def unencoded_def)

lemma orderly_head: "orderly (op # ops) \<Longrightarrow> orderly [op] \<and> (orderly ops \<or> body_only ops)" "body_only (op # ops) \<Longrightarrow> orderly [op] \<and> body_only ops"
  by (cases op; auto)+

lemma unencoded_ops: "unencoded w \<Longrightarrow> orderly ops \<or> body_only ops \<Longrightarrow> unencoded (fold (plain_op fl) ops w)"
proof (induction ops arbitrary: w)
  case Nil
  then show ?case by simp
next
  case (Cons op ops)
  then have "orderly [op]" "orderly ops \<or> body_only ops" using orderly_head by metis+
  from Cons.IH[OF unencoded_op[OF Cons.prems(1) this(1)] this(2)] show ?case by simp
qed

lemma plain_encoding:
  assumes "orderly ops" "fresh_response w"
  shows "rs_sent (serve_plain fl ops w) ''Content-Encoding'' = []"
proof -
  have "unencoded w" using assms(2) by (simp add: unencoded_def fresh_response_def)
  then have "unencoded (serve_plain fl ops w)"
    using assms(1) by (simp add: serve_plain_def unencoded_header unencoded_ops)
  then show ?thesis by (auto simp: unencoded_def serve_plain_def base_WriteHeader_def split: if_splits)
qed

text \<open>What the middleware has sent when the handler returns.\<close>

lemma closed:
  assumes "before fl e p c \<or> after enc fl e p c"
    and frames: "\<And>fs. fs \<noteq> [] \<Longrightarrow> dec e (concat (map (enc e) fs)) = Some (concat (map concat fs))"
  defines "r \<equiv> base_WriteHeader 200 (cw_base (cw_Close enc c))" and "q \<equiv> base_WriteHeader 200 p"
  shows "rs_status r = rs_status q \<and> decoded dec r = Some (concat (rs_body q)) \<and> same_headers (rs_sent r) (rs_sent q)"
  using assms(1)
proof
  assume b: "before fl e p c"
  then show ?thesis
    by (cases "rs_status p")
      (auto simp: r_def q_def before_def cw_Close_def base_WriteHeader_def decoded_def same_headers_def Let_def)
next
  assume a: "after enc fl e p c"
  then obtain y where y: "cw_headerSent c" "cw_writer c = Some y" by (auto simp: after_def)
  note cl = frame_closed(1)[OF a]
  have r: "r = cw_base (close_frame enc c)" using y already_sent(3)[OF cl, of 200] by (simp add: r_def cw_Close_def)
  have q: "q = p" using already_sent(2)[OF a] by (simp add: q_def)
  obtain fs where fs: "fs \<noteq> []" "rs_body r = map (enc e) fs" "concat (rs_body p) = concat (map concat fs)"
    using frame_closed(2)[OF a] r by auto
  from cl have "rs_sent r ''Content-Encoding'' = [e]" "same_headers (rs_sent r) (rs_sent p)" "rs_status r = rs_status p"
    by (auto simp: after_def r)
  with fs frames show ?thesis by (simp add: decoded_def q)
qed

lemma middleware_as_plain:
  assumes "orderly ops" "fresh_response w"
    and "\<And>e fs. fs \<noteq> [] \<Longrightarrow> dec e (concat (map (enc e) fs)) = Some (concat (map concat fs))"
  shows "rs_status (Middleware pf enc fl ops encodings accept w) = rs_status (serve_plain fl ops w) \<and>
    decoded dec (Middleware pf enc fl ops encodings accept w) = Some (concat (rs_body (serve_plain fl ops w))) \<and>
    same_headers (rs_sent (Middleware pf enc fl ops encodings accept w)) (rs_sent (serve_plain fl ops w))"
proof (cases "Preferred pf accept encodings = []")
  case True
  have "rs_sent (serve_plain fl ops w) ''Content-Encoding'' = []" by (rule plain_encoding[OF assms(1,2)])
  with True show ?thesis by (simp add: Middleware_def decoded_def same_headers_def)
next
  case False
  let ?e = "Preferred pf accept encodings"
  have "before fl ?e w (newCompressedWriter fl w ?e)" and "rs_status w = None"
    using assms(2) by (simp_all add: before_def newCompressedWriter_def fresh_response_def)
  from closed[where dec = dec, OF orderly_steps[where enc = enc, OF this assms(1)] assms(3)] False show ?thesis
    by (simp add: Middleware_def serve_plain_def)
qed

text \<open>
  Claim C20: compression is transparent: a client that decodes what the middleware sends gets the
  status, the body and the headers (but for the three that describe the encoding) that the
  handler would have sent on its own, whatever it accepts and wherever the handler flushes.
\<close>

theorem Middleware_transparent:
  assumes "orderly ops" "fresh_response w"
    and "\<And>e fs. fs \<noteq> [] \<Longrightarrow> dec e (concat (map (enc e) fs)) = Some (concat (map concat fs))"
  shows "rs_status (Middleware pf enc fl ops encodings accept w) = rs_status (serve_plain fl ops w) \<and>
    decoded dec (Middleware pf enc fl ops encodings accept w) = Some (concat (rs_body (serve_plain fl ops w))) \<and>
    same_headers (rs_sent (Middleware pf enc fl ops encodings accept w)) (rs_sent (serve_plain fl ops w))"
  by (rule middleware_as_plain[OF assms])

lemma Middleware_transparent_witness:
  "let ops = [SetHeader ''Content-Type'' ''text/plain'', WriteHeader 404, WriteBody ''no '', FlushBody, WriteBody ''such id''];
       w = \<lparr>rs_header = (\<lambda>_. []), rs_status = None, rs_sent = (\<lambda>_. []), rs_body = []\<rparr>;
       r = Middleware (\<lambda>_. True) (\<lambda>_. concat) True ops None [''gzip''] w
   in rs_status r = Some 404 \<and> decoded (\<lambda>_ s. Some s) r = Some ''no such id''"
proof -
  define ops where "ops = [SetHeader ''Content-Type'' ''text/plain'', WriteHeader 404, WriteBody ''no '', FlushBody, WriteBody ''such id'']"
  define w where "w = \<lparr>rs_header = (\<lambda>_. []), rs_status = None, rs_sent = (\<lambda>_. []), rs_body = []\<rparr>"
  have o: "orderly ops" "fresh_response w" by (simp_all add: ops_def w_def fresh_response_def)
  have p: "rs_status (serve_plain True ops w) = Some 404" "concat (rs_body (serve_plain True ops w)) = ''no such id''"
    by (simp_all add: serve_plain_def ops_def w_def base_WriteHeader_def base_Write_def base_Flush_def Let_def)
  show ?thesis
    using Middleware_transparent[OF o, of "\<lambda>_ s. Some s" "\<lambda>_. concat" "\<lambda>_. True" True None "[''gzip'']"] p
    by (simp add: Let_def flip: ops_def w_def)
qed

end
