(* ===== verification/Api.thy ===== *)
theory Api
  imports HttpEncoding Reader
begin

text \<open>
  \<open>internal/api/server.go\<close>: the query API. A handler is the list of what it does to its response
  writer; it runs behind the middleware of \<open>HttpEncoding\<close>, so that what a client decodes is proved
  of the handler and the compression together.

  Parameters: the JSON encoder (\<open>None\<close> when it fails), \<open>%q\<close>, the parsing and printing of times, and
  what the multiplexer of \<open>net/http\<close> answers when no route matches.
\<close>

section \<open>Responses\<close>

record commonResponse =
  co_Status :: string
  co_Version :: string
  co_State :: string
  co_DumpTime :: string
  co_LastEventSync :: string
  co_DatabaseSize :: int
  co_SchemaMatch :: bool

record statsResponse =
  sr_common :: commonResponse
  sr_LastEventID :: string
  sr_OldestEvent :: string
  sr_NewestEvent :: string
  sr_EntityCount :: int
  sr_PendingCount :: nat
  sr_ProcessingCount :: nat
  sr_FailedCount :: nat
  sr_StreamLength :: nat

datatype api_body =
    LookupBody "string \<rightharpoonup> string"
  | HealthBody commonResponse
  | StatsBody statsResponse
  | ErrorBody string string

record api_env =
  ae_encode :: "api_body \<Rightarrow> string option"
  ae_quote :: "string \<Rightarrow> string"
  ae_parse_time :: "string \<Rightarrow> int option"
  ae_format_time :: "int \<Rightarrow> string"
  ae_decode_id :: "string \<Rightarrow> int option list option"

record Server =
  sv_reader :: Reader
  sv_version :: string
  sv_encodings :: "string list option"

text \<open>
  The calls that a request makes to the server: which of them are answered, whether a missing
  answer is a timeout, and the reply to \<open>INFO\<close>.
\<close>

record api_calls =
  ac_first :: bool
  ac_stats :: stats_calls
  ac_timeout :: bool
  ac_info :: "string option"

definition writeJSON :: "api_env \<Rightarrow> int \<Rightarrow> api_body \<Rightarrow> op list" where
  "writeJSON env status b =
     [SetHeader ''Content-Type'' ''application/json'', WriteHeader status] @
     (case ae_encode env b of None \<Rightarrow> [] | Some x \<Rightarrow> [WriteBody x])"

definition writeError :: "api_env \<Rightarrow> int \<Rightarrow> string \<Rightarrow> string \<Rightarrow> op list" where
  "writeError env status code message = writeJSON env status (ErrorBody code message)"

definition writeReaderError :: "api_env \<Rightarrow> api_calls \<Rightarrow> store_error \<Rightarrow> op list" where
  "writeReaderError env calls err =
     (if err = SchemaMismatch then writeError env 503 ''unavailable'' ''Schema migration in progress''
      else if ac_timeout calls then writeError env 504 ''timeout'' ''Backend read timed out''
      else writeError env 500 ''internal_error'' ''An internal error occurred'')"

definition newCommonResponse :: "api_env \<Rightarrow> string \<Rightarrow> HealthInfo \<Rightarrow> commonResponse" where
  "newCommonResponse env version info =
     \<lparr>co_Status = ''ok'', co_Version = version, co_State = hi_State info,
      co_DumpTime = (case hi_DumpTime info of None \<Rightarrow> [] | Some t \<Rightarrow> ae_format_time env t),
      co_LastEventSync = (case hi_LastEventSync info of None \<Rightarrow> [] | Some t \<Rightarrow> ae_format_time env t),
      co_DatabaseSize = hi_DatabaseSize info, co_SchemaMatch = hi_SchemaMatch info\<rparr>"

section \<open>Handlers\<close>

definition cached :: "string \<Rightarrow> op list \<Rightarrow> op list" where
  "cached cc ops = SetHeader ''Cache-Control'' cc # ops"

text \<open>Later results replace earlier ones with the same entity.\<close>

definition lookup_body :: "LookupResult list \<Rightarrow> string \<rightharpoonup> string" where
  "lookup_body rs = fold (\<lambda>r m. m(CHR ''Q'' # FormatInt (lr_WikidataID r) \<mapsto> lr_RawMappings r)) rs Map.empty"

definition invalid_key :: "api_env \<Rightarrow> string \<Rightarrow> op list" where
  "invalid_key env key = writeError env 400 ''invalid_request''
     (''Invalid property key '' @ ae_quote env key @ ''. Must be P followed by digits (e.g. P345)'')"

definition handleLookup :: "'s redis \<Rightarrow> api_env \<Rightarrow> Server \<Rightarrow> api_calls \<Rightarrow> string \<Rightarrow> string \<Rightarrow> 's \<Rightarrow> op list" where
  "handleLookup R env srv calls key val s =
     (if val = [] then writeError env 400 ''invalid_request'' ''Value is required''
      else if length key < 2 \<or> (hd key \<noteq> CHR ''P'' \<and> hd key \<noteq> CHR ''p'') then invalid_key env key
      else (case ParseInt (tl key) of
              (_, Some _) \<Rightarrow> invalid_key env key
            | (property, None) \<Rightarrow>
                if property \<le> 0 then invalid_key env key
                else (case LookupByPropertyContext R (sv_reader srv) (ac_first calls) property val s of
                        Inl err \<Rightarrow> writeReaderError env calls err
                      | Inr result \<Rightarrow> cached ''public, max-age=3600'' (writeJSON env 200 (LookupBody (lookup_body result))))))"

definition invalid_qid :: "api_env \<Rightarrow> string \<Rightarrow> op list" where
  "invalid_qid env qid = writeError env 400 ''invalid_request''
     (''Invalid Wikidata ID '' @ ae_quote env qid @ ''. Must be Q followed by digits (e.g. Q172241)'')"

definition handleWikidataLookup :: "'s redis \<Rightarrow> api_env \<Rightarrow> Server \<Rightarrow> api_calls \<Rightarrow> string \<Rightarrow> 's \<Rightarrow> op list" where
  "handleWikidataLookup R env srv calls qid s =
     (if length qid < 2 \<or> (hd qid \<noteq> CHR ''Q'' \<and> hd qid \<noteq> CHR ''q'') then invalid_qid env qid
      else (case ParseInt (tl qid) of
              (_, Some _) \<Rightarrow> invalid_qid env qid
            | (wikidataID, None) \<Rightarrow>
                if wikidataID \<le> 0 then invalid_qid env qid
                else (case LookupByWikidataIDContext R (sv_reader srv) (ac_first calls) wikidataID s of
                        Inl err \<Rightarrow> writeReaderError env calls err
                      | Inr None \<Rightarrow> writeError env 404 ''not_found'' (''No entity found for Q'' @ tl qid)
                      | Inr (Some result) \<Rightarrow>
                          cached ''public, max-age=3600'' (writeJSON env 200 (LookupBody (lookup_body [result]))))))"

definition handleHealth :: "'s redis \<Rightarrow> api_env \<Rightarrow> Server \<Rightarrow> api_calls \<Rightarrow> 's \<Rightarrow> op list" where
  "handleHealth R env srv calls s =
     (case GetHealthContext R (ae_parse_time env) (ae_decode_id env) (sv_reader srv) (ac_info calls) (ac_first calls) s of
        Inl err \<Rightarrow> writeReaderError env calls err
      | Inr info \<Rightarrow> cached ''no-cache'' (writeJSON env 200 (HealthBody (newCommonResponse env (sv_version srv) info))))"

definition stats_body :: "api_env \<Rightarrow> string \<Rightarrow> DBStats \<Rightarrow> statsResponse" where
  "stats_body env version stats =
     \<lparr>sr_common = newCommonResponse env version (st_Health stats),
      sr_LastEventID = hi_LastEventID (st_Health stats),
      sr_OldestEvent = (case st_OldestEvent stats of None \<Rightarrow> [] | Some t \<Rightarrow> ae_format_time env t),
      sr_NewestEvent = (case st_NewestEvent stats of None \<Rightarrow> [] | Some t \<Rightarrow> ae_format_time env t),
      sr_EntityCount = st_EntityCount stats, sr_PendingCount = st_PendingCount stats,
      sr_ProcessingCount = st_ProcessingCount stats, sr_FailedCount = st_FailedCount stats,
      sr_StreamLength = st_StreamLength stats\<rparr>"

definition handleStats :: "'s redis \<Rightarrow> api_env \<Rightarrow> Server \<Rightarrow> api_calls \<Rightarrow> 's \<Rightarrow> op list" where
  "handleStats R env srv calls s =
     (case GetStatsContext R (ae_parse_time env) (ae_decode_id env) (sv_reader srv) (ac_info calls)
             (ac_first calls) (ac_stats calls) s of
        Inl err \<Rightarrow> writeReaderError env calls err
      | Inr stats \<Rightarrow> cached ''no-cache'' (writeJSON env 200 (StatsBody (stats_body env (sv_version srv) stats))))"

section \<open>Routes and middleware\<close>

text \<open>A clean path as its segments; a trailing slash is an empty last segment.\<close>

datatype api_route = HealthRoute | StatsRoute | LookupRoute string string | EntityRoute string

fun route :: "string list \<Rightarrow> api_route option" where
  "route [a, b] =
     (if a = ''v1'' \<and> b = ''health'' then Some HealthRoute
      else if a = ''v1'' \<and> b = ''stats'' then Some StatsRoute else None)"
| "route [a, b, qid] = (if a = ''v1'' \<and> b = ''lookup'' \<and> qid \<noteq> [] then Some (EntityRoute qid) else None)"
| "route (a # b # key # rest) =
     (if a = ''v1'' \<and> b = ''lookup'' \<and> key \<noteq> [] then Some (LookupRoute key (Join rest ''/'')) else None)"
| "route _ = None"

record request =
  rq_method :: string
  rq_path :: "string list"
  rq_accept :: "string list"

definition dispatch :: "'s redis \<Rightarrow> api_env \<Rightarrow> Server \<Rightarrow> api_calls \<Rightarrow> op list \<Rightarrow> request \<Rightarrow> 's \<Rightarrow> op list" where
  "dispatch R env srv calls unmatched rq s =
     (if rq_method rq \<noteq> ''GET'' \<and> rq_method rq \<noteq> ''HEAD'' then unmatched
      else (case route (rq_path rq) of
              None \<Rightarrow> unmatched
            | Some HealthRoute \<Rightarrow> handleHealth R env srv calls s
            | Some StatsRoute \<Rightarrow> handleStats R env srv calls s
            | Some (LookupRoute key val) \<Rightarrow> handleLookup R env srv calls key val s
            | Some (EntityRoute qid) \<Rightarrow> handleWikidataLookup R env srv calls qid s))"

definition cors :: "op list" where
  "cors = [SetHeader ''Access-Control-Allow-Origin'' ''*'', SetHeader ''Access-Control-Allow-Methods'' ''GET, OPTIONS'',
           SetHeader ''Access-Control-Allow-Headers'' ''Content-Type'']"

definition applyMiddleware ::
  "(string \<Rightarrow> bool) \<Rightarrow> (string \<Rightarrow> string list \<Rightarrow> string) \<Rightarrow> bool \<Rightarrow> Server \<Rightarrow> op list \<Rightarrow> request \<Rightarrow> response \<Rightarrow> response" where
  "applyMiddleware pf enc fl srv ops rq w =
     (let w1 = fold (plain_op fl) cors w in
      if rq_method rq = ''OPTIONS'' then base_WriteHeader 200 (base_WriteHeader 204 w1)
      else Middleware pf enc fl ops (sv_encodings srv) (rq_accept rq) w1)"

definition Handler ::
  "'s redis \<Rightarrow> api_env \<Rightarrow> Server \<Rightarrow> api_calls \<Rightarrow> op list \<Rightarrow> (string \<Rightarrow> bool) \<Rightarrow> (string \<Rightarrow> string list \<Rightarrow> string) \<Rightarrow> bool \<Rightarrow>
   request \<Rightarrow> 's \<Rightarrow> response \<Rightarrow> response" where
  "Handler R env srv calls unmatched pf enc fl rq s w =
     applyMiddleware pf enc fl srv (dispatch R env srv calls unmatched rq s) rq w"

section \<open>Every reply is one JSON document\<close>

text \<open>The status and the caching of a reply: an error is not cached, a result is.\<close>

inductive json_reply :: "api_env \<Rightarrow> op list \<Rightarrow> int \<Rightarrow> api_body \<Rightarrow> string option \<Rightarrow> bool" for env where
  failure: "n \<in> {400, 404, 500, 503, 504} \<Longrightarrow> json_reply env (writeJSON env n b) n b None"
| success: "json_reply env (cached cc (writeJSON env 200 b)) 200 b (Some cc)"

inductive_cases json_replyE: "json_reply env ops n b cc"

text \<open>The body that belongs to a route and a status: the result, or the error with its code.\<close>

fun result_body :: "api_route \<Rightarrow> api_body \<Rightarrow> bool" where
  "result_body HealthRoute (HealthBody _) = True"
| "result_body StatsRoute (StatsBody _) = True"
| "result_body (LookupRoute _ _) (LookupBody _) = True"
| "result_body (EntityRoute _) (LookupBody _) = True"
| "result_body _ _ = False"

definition error_codes :: "(int \<times> string) set" where
  "error_codes = {(400, ''invalid_request''), (404, ''not_found''), (500, ''internal_error''), (503, ''unavailable''), (504, ''timeout'')}"

definition reply_body :: "api_route \<Rightarrow> int \<Rightarrow> api_body \<Rightarrow> bool" where
  "reply_body r n b \<longleftrightarrow> (if n = 200 then result_body r b else \<exists>code msg. b = ErrorBody code msg \<and> (n, code) \<in> error_codes)"

definition replies :: "api_env \<Rightarrow> api_route \<Rightarrow> op list \<Rightarrow> bool" where
  "replies env r ops \<longleftrightarrow> (\<exists>n b cc. json_reply env ops n b cc \<and> reply_body r n b)"

lemma replies_error: "(n, code) \<in> error_codes \<Longrightarrow> replies env r (writeError env n code msg)"
  unfolding replies_def writeError_def
  by (rule exI[of _ n], rule exI[of _ "ErrorBody code msg"], rule exI[of _ None])
    (auto simp: error_codes_def reply_body_def intro: failure)

lemma replies_ok [simp]: "result_body r b \<Longrightarrow> replies env r (cached cc (writeJSON env 200 b))"
  unfolding replies_def by (intro exI conjI, rule success) (simp add: reply_body_def)

lemma replies_errors [simp]:
  "replies env r (writeError env 400 ''invalid_request'' msg)" "replies env r (writeError env 404 ''not_found'' msg)"
  "replies env r (writeReaderError env calls err)"
  by (simp_all add: replies_error error_codes_def writeReaderError_def)

lemma handlers_reply:
  "replies env (LookupRoute k x) (handleLookup R env srv calls key val s)"
  "replies env (EntityRoute k) (handleWikidataLookup R env srv calls key s)"
  "replies env HealthRoute (handleHealth R env srv calls s)"
  "replies env StatsRoute (handleStats R env srv calls s)"
  by (simp_all add: handleLookup_def handleWikidataLookup_def handleHealth_def handleStats_def invalid_key_def invalid_qid_def
      split: prod.split option.split sum.split)

section \<open>What a client gets\<close>

lemma reply_orderly: "json_reply env ops n b cc \<Longrightarrow> orderly ops"
  by (auto simp: writeJSON_def cached_def elim!: json_replyE split: option.splits)

lemma reply_plain:
  assumes "json_reply env ops n b cc" "rs_status w = None" "rs_body w = []"
  shows "rs_status (serve_plain fl ops w) = Some n \<and>
    concat (rs_body (serve_plain fl ops w)) = (case ae_encode env b of None \<Rightarrow> [] | Some x \<Rightarrow> x) \<and>
    rs_sent (serve_plain fl ops w) = (rs_header w)(''Content-Type'' := [''application/json''],
      ''Cache-Control'' := (case cc of None \<Rightarrow> rs_header w ''Cache-Control'' | Some x \<Rightarrow> [x]))"
  using assms
  by (auto simp: serve_plain_def writeJSON_def cached_def base_WriteHeader_def base_Write_def Let_def fun_upd_twist
      elim!: json_replyE split: option.splits)

definition blank_response :: "response \<Rightarrow> bool" where
  "blank_response w \<longleftrightarrow> rs_status w = None \<and> rs_body w = [] \<and> rs_header w = (\<lambda>_. [])"

lemma cors_written:
  assumes "blank_response w"
  shows "fresh_response (fold (plain_op fl) cors w)" "rs_status (fold (plain_op fl) cors w) = None"
    "rs_body (fold (plain_op fl) cors w) = []"
    "rs_header (fold (plain_op fl) cors w) = (\<lambda>_. [])(''Access-Control-Allow-Origin'' := [''*''],
      ''Access-Control-Allow-Methods'' := [''GET, OPTIONS''], ''Access-Control-Allow-Headers'' := [''Content-Type''])"
  using assms by (simp_all add: cors_def blank_response_def fresh_response_def)

lemma reply_served:
  assumes reply: "json_reply env ops n b cc" and w: "blank_response w" and m: "rq_method rq \<noteq> ''OPTIONS''"
    and frames: "\<And>e fs. fs \<noteq> [] \<Longrightarrow> dec e (concat (map (enc e) fs)) = Some (concat (map concat fs))"
    and r_def: "r = applyMiddleware pf enc fl srv ops rq w"
  shows "rs_status r = Some n \<and> decoded dec r = Some (case ae_encode env b of None \<Rightarrow> [] | Some x \<Rightarrow> x) \<and>
    rs_sent r ''Content-Type'' = [''application/json''] \<and> rs_sent r ''Access-Control-Allow-Origin'' = [''*''] \<and>
    rs_sent r ''Cache-Control'' = (case cc of None \<Rightarrow> [] | Some x \<Rightarrow> [x])"
proof -
  let ?w = "fold (plain_op fl) cors w" and ?p = "serve_plain fl ops (fold (plain_op fl) cors w)"
  note c = cors_written[OF w, of fl]
  have r: "r = Middleware pf enc fl ops (sv_encodings srv) (rq_accept rq) ?w"
    using m by (simp add: r_def applyMiddleware_def Let_def)
  note t = middleware_as_plain[where dec = dec and enc = enc and pf = pf and fl = fl and encodings = "sv_encodings srv"
      and accept = "rq_accept rq", OF reply_orderly[OF reply] c(1) frames, folded r]
  note p = reply_plain[OF reply c(2,3), of fl]
  have h: "rs_sent r k = rs_sent ?p k" if "k \<noteq> ''Vary''" "k \<noteq> ''Content-Encoding''" "k \<noteq> ''Content-Length''" for k
    using t that by (simp add: same_headers_def)
  show ?thesis using t p h c(4) by (simp split: option.splits)
qed

text \<open>
  Claim C18: however its calls fare, a GET request to a route of the API is answered with one of six statuses,
  and the body that the client decodes, compressed or not, is the JSON text of one value: the result of
  the route if the status is 200, the error that belongs to the status otherwise. (It is empty if the
  encoder refuses the value, which it does for mappings that are not JSON.) The reply can be read from
  any origin, and only a 200 may be cached. An OPTIONS request is answered with an empty 204.
\<close>

theorem Handler_replies_json:
  assumes "blank_response w" and "\<And>e fs. fs \<noteq> [] \<Longrightarrow> dec e (concat (map (enc e) fs)) = Some (concat (map concat fs))"
    and "r = Handler R env srv calls unmatched pf enc fl rq s w"
  shows "(rq_method rq = ''GET'' \<and> route (rq_path rq) = Some rt \<longrightarrow>
      (\<exists>n b. rs_status r = Some n \<and> n \<in> {200, 400, 404, 500, 503, 504} \<and> reply_body rt n b \<and>
         decoded dec r = Some (case ae_encode env b of None \<Rightarrow> [] | Some x \<Rightarrow> x) \<and>
         rs_sent r ''Content-Type'' = [''application/json''] \<and> rs_sent r ''Access-Control-Allow-Origin'' = [''*''] \<and>
         (rs_sent r ''Cache-Control'' = [] \<longleftrightarrow> n \<noteq> 200))) \<and>
    (rq_method rq = ''OPTIONS'' \<longrightarrow> rs_status r = Some 204 \<and> rs_body r = [] \<and>
       rs_sent r ''Access-Control-Allow-Origin'' = [''*''] \<and> rs_sent r ''Access-Control-Allow-Methods'' = [''GET, OPTIONS''])"
proof (intro conjI impI)
  assume g: "rq_method rq = ''GET'' \<and> route (rq_path rq) = Some rt"
  then have "replies env rt (dispatch R env srv calls unmatched rq s)"
    by (cases rt) (simp_all add: dispatch_def handlers_reply)
  then obtain n b cc where d: "json_reply env (dispatch R env srv calls unmatched rq s) n b cc" "reply_body rt n b"
    unfolding replies_def by blast
  have "n \<in> {200, 400, 404, 500, 503, 504} \<and> (cc = None \<longleftrightarrow> n \<noteq> 200)" using d(1) by (auto elim: json_replyE)
  moreover have "rq_method rq \<noteq> ''OPTIONS''" using g by simp
  note reply_served[where dec = dec and enc = enc and pf = pf and fl = fl and srv = srv, OF d(1) assms(1) this assms(2) refl,
      folded Handler_def, folded assms(3)]
  ultimately show "\<exists>n b. rs_status r = Some n \<and> n \<in> {200, 400, 404, 500, 503, 504} \<and> reply_body rt n b \<and>
      decoded dec r = Some (case ae_encode env b of None \<Rightarrow> [] | Some x \<Rightarrow> x) \<and>
      rs_sent r ''Content-Type'' = [''application/json''] \<and> rs_sent r ''Access-Control-Allow-Origin'' = [''*''] \<and>
      (rs_sent r ''Cache-Control'' = [] \<longleftrightarrow> n \<noteq> 200)"
    using d(2) by (intro exI[of _ n] exI[of _ b]) (auto split: option.splits)
next
  assume "rq_method rq = ''OPTIONS''"
  then have r: "r = base_WriteHeader 200 (base_WriteHeader 204 (fold (plain_op fl) cors w))"
    by (simp add: assms(3) Handler_def applyMiddleware_def Let_def)
  note c = cors_written[OF assms(1), of fl]
  show "rs_status r = Some 204" "rs_body r = []" "rs_sent r ''Access-Control-Allow-Origin'' = [''*'']"
    "rs_sent r ''Access-Control-Allow-Methods'' = [''GET, OPTIONS'']"
    using c(2-4) by (simp_all add: r base_WriteHeader_def)
qed

section \<open>Lookups\<close>

text \<open>The entities that are stored with an entry, as the body of a reply has them.\<close>

definition stored_with :: "'s redis \<Rightarrow> content \<Rightarrow> int \<Rightarrow> string \<Rightarrow> string \<rightharpoonup> string" where
  "stored_with R c property val = (\<lambda>id. case id of
     [] \<Rightarrow> None
   | q # eid \<Rightarrow> if q = CHR ''Q'' \<and> (propKey property, val) \<in> entity_keys R (entities c eid) then entities c eid else None)"

lemma fold_updates: "fold (\<lambda>r m. m(f r \<mapsto> g r)) rs m = m ++ map_of (rev (map (\<lambda>r. (f r, g r)) rs))"
  by (induction rs arbitrary: m) auto

lemma lookup_body_exact:
  assumes d: "distinct (map lr_WikidataID rs)" and e: "eids_ok (entities c)"
    and rs: "set rs = {\<lparr>lr_WikidataID = q, lr_RawMappings = m\<rparr> | q m. int64 q \<and> entities c (FormatInt q) = Some m \<and>
      (propKey property, val) \<in> entity_keys R (Some m)}"
  shows "lookup_body rs = stored_with R c property val"
proof
  fix id
  let ?f = "\<lambda>r. CHR ''Q'' # FormatInt (lr_WikidataID r)"
  let ?kvs = "map (\<lambda>r. (?f r, lr_RawMappings r)) rs"
  have int64: "int64 (lr_WikidataID r)" if "r \<in> set rs" for r using that unfolding rs by auto
  have inj: "inj_on ?f (set rs)"
  proof (rule inj_onI)
    fix x y
    assume xy: "x \<in> set rs" "y \<in> set rs" "?f x = ?f y"
    then have "FormatInt (lr_WikidataID x) = FormatInt (lr_WikidataID y)" by blast
    then have "lr_WikidataID x = lr_WikidataID y"
      using ParseInt_FormatInt[OF int64[OF xy(1)]] ParseInt_FormatInt[OF int64[OF xy(2)]] by (metis fst_conv)
    with d xy(1,2) show "x = y" by (simp add: distinct_map inj_on_def)
  qed
  have "map fst (rev ?kvs) = rev (map ?f rs)" by (simp add: rev_map comp_def)
  moreover have "distinct (map ?f rs)" using d inj by (simp add: distinct_map)
  ultimately have dist: "distinct (map fst (rev ?kvs))" by (metis distinct_rev)
  have "lookup_body rs = map_of (rev ?kvs)" by (simp add: lookup_body_def fold_updates)
  then have "lookup_body rs id = Some m \<longleftrightarrow> (id, m) \<in> set (rev ?kvs)" for m
    by (simp only: map_of_eq_Some_iff[OF dist])
  moreover have "(id, m) \<in> set (rev ?kvs) \<longleftrightarrow> (\<exists>r \<in> set rs. id = ?f r \<and> m = lr_RawMappings r)" for m by auto
  ultimately have some: "lookup_body rs id = Some m \<longleftrightarrow> (\<exists>r \<in> set rs. id = ?f r \<and> m = lr_RawMappings r)" for m
    by (rule trans)
  show "lookup_body rs id = stored_with R c property val id"
  proof (cases "stored_with R c property val id")
    case None
    have "\<not> (\<exists>r \<in> set rs. id = ?f r)" using None unfolding rs by (auto simp: stored_with_def)
    with some None show ?thesis by (cases "lookup_body rs id") auto
  next
    case (Some m)
    then obtain eid where eid: "id = CHR ''Q'' # eid" "entities c eid = Some m" "(propKey property, val) \<in> entity_keys R (Some m)"
      by (auto simp: stored_with_def split: list.splits if_splits)
    obtain n where n: "eid = FormatInt n" "int64 n" using e eid(2) by (auto simp: eids_ok_def canonical_eid_def)
    have "\<lparr>lr_WikidataID = n, lr_RawMappings = m\<rparr> \<in> set rs" unfolding rs using eid n by auto
    with some[of m] eid(1) n(1) Some show ?thesis by force
  qed
qed

lemma route_lookup: "key \<noteq> [] \<Longrightarrow> rest \<noteq> [] \<Longrightarrow> route (''v1'' # ''lookup'' # key # rest) = Some (LookupRoute key (Join rest ''/''))"
  by (cases rest) simp_all

lemma lookup_reply:
  assumes R: "redis_ok R v" and j: "cjson_ok R" and c: "index_ok R (v s)" and e: "eids_ok (entities (v s))"
    and rd: "schemaOK (sv_reader srv)" "ac_first calls"
    and key: "p = CHR ''P'' \<or> p = CHR ''p''" "ParseInt ds = (property, None)" "0 < property" and val: "val \<noteq> []"
  shows "json_reply env (handleLookup R env srv calls (p # ds) val s) 200 (LookupBody (stored_with R (v s) property val))
    (Some ''public, max-age=3600'')"
proof -
  obtain rs where rs: "LookupByPropertyContext R (sv_reader srv) True property val s = Inr rs"
    "distinct (map lr_WikidataID rs)"
    "set rs = {\<lparr>lr_WikidataID = q, lr_RawMappings = m\<rparr> | q m. int64 q \<and> entities (v s) (FormatInt q) = Some m \<and>
      (propKey property, val) \<in> entity_keys R (Some m)}"
    using lookup_exact[OF R j c e rd(1)] by blast
  have ds: "ds \<noteq> []" using key(2) by (auto simp: ParseInt_def)
  have "handleLookup R env srv calls (p # ds) val s = cached ''public, max-age=3600'' (writeJSON env 200 (LookupBody (lookup_body rs)))"
    using key val rd(2) rs(1) ds by (cases ds) (auto simp: handleLookup_def)
  then show ?thesis unfolding lookup_body_exact[OF rs(2) e rs(3)] by (simp only: success)
qed

text \<open>
  Claim C17: a client that asks for a property and a value gets, decoded, the JSON document of
  exactly the entities that are stored with that entry, each with its stored mappings.
\<close>

theorem lookup_served:
  assumes "redis_ok R v" and "cjson_ok R" and "index_ok R (v s)" and "eids_ok (entities (v s))"
    and "schemaOK (sv_reader srv)" and "ac_first calls"
    and "rq_method rq = ''GET''" and "rq_path rq = ''v1'' # ''lookup'' # (p # ds) # rest"
    and "p = CHR ''P'' \<or> p = CHR ''p''" and "ParseInt ds = (property, None)" and "0 < property"
    and "rest \<noteq> []" and "Join rest ''/'' \<noteq> []"
    and "ae_encode env (LookupBody (stored_with R (v s) property (Join rest ''/''))) = Some doc"
    and "blank_response w"
    and "\<And>e fs. fs \<noteq> [] \<Longrightarrow> dec e (concat (map (enc e) fs)) = Some (concat (map concat fs))"
  shows "rs_status (Handler R env srv calls unmatched pf enc fl rq s w) = Some 200 \<and>
    decoded dec (Handler R env srv calls unmatched pf enc fl rq s w) = Some doc"
proof -
  have d: "dispatch R env srv calls unmatched rq s = handleLookup R env srv calls (p # ds) (Join rest ''/'') s"
    using assms(7,8,12) route_lookup[of "p # ds" rest] by (simp add: dispatch_def)
  note reply = lookup_reply[where env = env, OF assms(1-6,9-11,13)]
  have "rq_method rq \<noteq> ''OPTIONS''" using assms(7) by simp
  from reply_served[where dec = dec and enc = enc and pf = pf and fl = fl and srv = srv, OF reply assms(15) this assms(16) refl,
      folded d, folded Handler_def]
  show ?thesis using assms(14) by simp
qed

lemma entity_reply:
  assumes R: "redis_ok R v"
  shows "\<exists>b cc. json_reply env (handleWikidataLookup R env srv calls (q # ds) s)
    (if q \<noteq> CHR ''Q'' \<and> q \<noteq> CHR ''q'' \<or> snd (ParseInt ds) \<noteq> None \<or> fst (ParseInt ds) \<le> 0 then 400
     else if \<not> schemaOK (sv_reader srv) then 503
     else if \<not> ac_first calls then (if ac_timeout calls then 504 else 500)
     else if entities (v s) (FormatInt (fst (ParseInt ds))) \<in> {None, Some [], Some ''[]''} then 404 else 200) b cc"
    (is "\<exists>b cc. ?reply ?status b cc")
proof -
  have fail: "\<exists>b cc. ?reply k b cc"
    if "handleWikidataLookup R env srv calls (q # ds) s = writeError env k code msg" "k \<in> {400, 404, 500, 503, 504}" for k code msg
    unfolding that(1) writeError_def using failure[OF that(2)] by blast
  have ok: "\<exists>b cc. ?reply 200 b cc"
    if "handleWikidataLookup R env srv calls (q # ds) s = cached cc (writeJSON env 200 b)" for cc b
    unfolding that using success by blast
  have short: "length (q # ds) < 2 \<longleftrightarrow> ds = []" "ParseInt [] = (0, Some ErrSyntax)" by (auto simp: ParseInt_def)
  obtain n perr where n: "ParseInt ds = (n, perr)" by fastforce
  show ?thesis
  proof (cases "q \<noteq> CHR ''Q'' \<and> q \<noteq> CHR ''q'' \<or> perr \<noteq> None \<or> n \<le> 0")
    case True
    then have "handleWikidataLookup R env srv calls (q # ds) s = invalid_qid env (q # ds)"
      using n short by (auto simp: handleWikidataLookup_def split: option.splits)
    with fail True n show ?thesis by (auto simp: invalid_qid_def)
  next
    case valid: False
    then have h: "handleWikidataLookup R env srv calls (q # ds) s =
        (case LookupByWikidataIDContext R (sv_reader srv) (ac_first calls) n s of
           Inl err \<Rightarrow> writeReaderError env calls err
         | Inr None \<Rightarrow> writeError env 404 ''not_found'' (''No entity found for Q'' @ tl (q # ds))
         | Inr (Some result) \<Rightarrow> cached ''public, max-age=3600'' (writeJSON env 200 (LookupBody (lookup_body [result]))))"
      using n short by (auto simp: handleWikidataLookup_def split: option.splits)
    let ?ent = "entities (v s) (FormatInt n)"
    have ent: "r_hget R entitiesKey (FormatInt n) s = ?ent" by (simp add: redis_hash(1)[OF R])
    note lookup = h LookupByWikidataIDContext_def lookupEntity_def ent
    consider (mismatch) "\<not> schemaOK (sv_reader srv)" | (silent) "schemaOK (sv_reader srv)" "\<not> ac_first calls"
      | (absent) "schemaOK (sv_reader srv)" "ac_first calls" "?ent \<in> {None, Some [], Some ''[]''}"
      | (found) m where "schemaOK (sv_reader srv)" "ac_first calls" "?ent = Some m" "m \<noteq> []" "m \<noteq> ''[]''"
      by (cases ?ent) auto
    then show ?thesis
    proof cases
      case mismatch
      with valid n fail[of 503] show ?thesis by (auto simp: lookup writeReaderError_def)
    next
      case silent
      with valid n fail[of 504] fail[of 500] show ?thesis by (auto simp: lookup writeReaderError_def conn_error_def)
    next
      case absent
      then have "handleWikidataLookup R env srv calls (q # ds) s = writeError env 404 ''not_found'' (''No entity found for Q'' @ tl (q # ds))"
        by (auto simp: lookup)
      with absent valid n fail[of 404] show ?thesis by auto
    next
      case found
      then have "handleWikidataLookup R env srv calls (q # ds) s = cached ''public, max-age=3600'' (writeJSON env 200
          (LookupBody (lookup_body [\<lparr>lr_WikidataID = n, lr_RawMappings = m\<rparr>])))"
        by (simp add: lookup)
      from ok[OF this] found valid n show ?thesis by auto
    qed
  qed
qed

text \<open>
  Claim C19: the status of a lookup by entity: 400 for anything but \<open>Q\<close> and a positive number, 503
  during a migration, 504 or 500 when the server does not answer, 404 when no entity with
  mappings is stored, and 200 otherwise.
\<close>

theorem entity_lookup_status:
  assumes "redis_ok R v" and "rq_method rq = ''GET''" and "rq_path rq = [''v1'', ''lookup'', q # ds]"
    and "blank_response w"
    and "\<And>e fs. fs \<noteq> [] \<Longrightarrow> dec e (concat (map (enc e) fs)) = Some (concat (map concat fs))"
  shows "rs_status (Handler R env srv calls unmatched pf enc fl rq s w) = Some
    (if q \<noteq> CHR ''Q'' \<and> q \<noteq> CHR ''q'' \<or> snd (ParseInt ds) \<noteq> None \<or> fst (ParseInt ds) \<le> 0 then 400
     else if \<not> schemaOK (sv_reader srv) then 503
     else if \<not> ac_first calls then (if ac_timeout calls then 504 else 500)
     else if entities (v s) (FormatInt (fst (ParseInt ds))) \<in> {None, Some [], Some ''[]''} then 404 else 200)"
proof -
  have d: "dispatch R env srv calls unmatched rq s = handleWikidataLookup R env srv calls (q # ds) s"
    using assms(2,3) by (simp add: dispatch_def)
  have g: "rq_method rq \<noteq> ''OPTIONS''" using assms(2) by simp
  obtain b cc where "json_reply env (handleWikidataLookup R env srv calls (q # ds) s)
    (if q \<noteq> CHR ''Q'' \<and> q \<noteq> CHR ''q'' \<or> snd (ParseInt ds) \<noteq> None \<or> fst (ParseInt ds) \<le> 0 then 400
     else if \<not> schemaOK (sv_reader srv) then 503
     else if \<not> ac_first calls then (if ac_timeout calls then 504 else 500)
     else if entities (v s) (FormatInt (fst (ParseInt ds))) \<in> {None, Some [], Some ''[]''} then 404 else 200) b cc"
    using entity_reply[OF assms(1)] by blast
  from reply_served[where dec = dec and enc = enc and pf = pf and fl = fl and srv = srv, OF this assms(4) g assms(5) refl,
      folded d, folded Handler_def]
  show ?thesis by blast
qed

section \<open>Witnesses\<close>

definition example_api :: api_env where
  "example_api = \<lparr>ae_encode = (\<lambda>b. case b of LookupBody m \<Rightarrow> m (CHR ''Q'' # FormatInt 42) | _ \<Rightarrow> Some ''other''), ae_quote = id,
     ae_parse_time = (\<lambda>_. None), ae_format_time = (\<lambda>_. []), ae_decode_id = (\<lambda>_. None)\<rparr>"

definition example_server :: Server where
  "example_server = \<lparr>sv_reader = \<lparr>schemaOK = True\<rparr>, sv_version = ''0.1.0'', sv_encodings = None\<rparr>"

definition example_calls :: api_calls where
  "example_calls = \<lparr>ac_first = True, ac_stats = \<lparr>sc_meta = True, sc_pending = True, sc_processing = True, sc_failed = True,
     sc_stream = (True, True, True)\<rparr>, ac_timeout = False, ac_info = None\<rparr>"

definition example_request :: "string list \<Rightarrow> request" where
  "example_request segs = \<lparr>rq_method = ''GET'', rq_path = ''v1'' # ''lookup'' # segs, rq_accept = [''gzip'']\<rparr>"

definition example_blank :: response where
  "example_blank = \<lparr>rs_header = (\<lambda>_. []), rs_status = None, rs_sent = (\<lambda>_. []), rs_body = []\<rparr>"

lemma example_blank: "blank_response example_blank"
  by (simp add: blank_response_def example_blank_def)

abbreviation example_serve :: "string list \<Rightarrow> response" where
  "example_serve segs \<equiv> Handler mem_redis example_api example_server example_calls [] (\<lambda>_. True) (\<lambda>_. concat) True
     (example_request segs) example_db example_blank"

lemma Handler_replies_json_witness:
  "rs_sent (example_serve [''Q42'']) ''Content-Type'' = [''application/json''] \<and>
   (\<exists>n b. rs_status (example_serve [''Q42'']) = Some n \<and> reply_body (EntityRoute ''Q42'') n b)"
proof -
  have "rq_method (example_request [''Q42'']) = ''GET'' \<and> route (rq_path (example_request [''Q42''])) = Some (EntityRoute ''Q42'')"
    by (simp add: example_request_def)
  with Handler_replies_json[where dec = "\<lambda>_ x. Some x" and enc = "\<lambda>_. concat" and R = mem_redis and env = example_api
      and srv = example_server and calls = example_calls and unmatched = "[]" and pf = "\<lambda>_. True" and fl = True
      and s = example_db and rq = "example_request [''Q42'']", OF example_blank refl refl]
  show ?thesis by blast
qed

lemma parse_345: "ParseInt ''345'' = (345, None)"
proof -
  have "FormatInt 345 = ''345''" by (simp add: FormatInt_def format_nat.simps digit_char_def char_of_eqI)
  moreover have "int64 345" by (simp add: int64_def)
  ultimately show ?thesis using ParseInt_FormatInt by metis
qed

lemma example_stored: "stored_with mem_redis example_db 345 ''nm0010930'' (CHR ''Q'' # FormatInt 42) = Some (canonicalMappingsJSON example_mappings)"
proof -
  have "(propKey 345, ''nm0010930'') \<in> entity_keys mem_redis (Some (canonicalMappingsJSON example_mappings))"
    unfolding entity_keys_Some(1)[OF example_canonical(2)] example_key[symmetric] by simp
  then show ?thesis by (simp add: stored_with_def example_db(2))
qed

lemma lookup_served_witness:
  "decoded (\<lambda>_ x. Some x) (example_serve [''P345'', ''nm0010930'']) = Some (canonicalMappingsJSON example_mappings)"
proof -
  let ?rq = "example_request [''P345'', ''nm0010930'']"
  have g: "rq_method ?rq = ''GET''" "rq_path ?rq = ''v1'' # ''lookup'' # (CHR ''P'' # ''345'') # [''nm0010930'']"
    "schemaOK (sv_reader example_server)" "ac_first example_calls" "Join [''nm0010930''] ''/'' \<noteq> []"
    by (simp_all add: example_request_def example_server_def example_calls_def)
  have doc: "ae_encode example_api (LookupBody (stored_with mem_redis (id example_db) 345 (Join [''nm0010930''] ''/''))) =
      Some (canonicalMappingsJSON example_mappings)"
    using example_stored by (simp add: example_api_def)
  have idx: "index_ok mem_redis (id example_db)" "eids_ok (entities (id example_db))" "(0 :: int) < 345" "[''nm0010930''] \<noteq> []"
    using example_db(1) example_eids by simp_all
  show ?thesis
    by (rule conjunct2[OF lookup_served[where dec = "\<lambda>_ x. Some x" and enc = "\<lambda>_. concat", OF mem_redis_ok mem_cjson_ok
          idx(1,2) g(3,4,1,2) disjI1[OF refl] parse_345 idx(3,4) g(5) doc example_blank refl]])
qed

lemma entity_lookup_status_witness:
  "rs_status (example_serve [''X42'']) = Some 400"
proof -
  have g: "rq_method (example_request [''X42'']) = ''GET''" "rq_path (example_request [''X42'']) = [''v1'', ''lookup'', CHR ''X'' # ''42'']"
    by (simp_all add: example_request_def)
  show ?thesis
    by (subst entity_lookup_status[where dec = "\<lambda>_ x. Some x" and enc = "\<lambda>_. concat", OF mem_redis_ok g example_blank refl]) simp
qed

end
