(* ===== verification/ReplicateHandler.thy ===== *)
theory ReplicateHandler
  imports SnapshotGen StreamServe HttpEncoding
begin

text \<open>
  \<open>internal/replicate/handler.go\<close>: the endpoints of an upstream. The snapshot is served as it is
  stored, the stream and the health report go through the middleware of \<open>HttpEncoding\<close>.

  Parameters: the JSON encoder (\<open>None\<close> when it fails) and the printing of an age.
\<close>

section \<open>The time of a snapshot\<close>

text \<open>
  \<open>fmt.Sscanf(id, "%d-", &ms)\<close>: leading spaces but no newline, a sign, digits. A missing dash after
  the number is an error that is ignored; a number out of range leaves \<open>ms\<close> at zero.
\<close>

definition scan_space :: "char \<Rightarrow> bool" where
  "scan_space c \<longleftrightarrow> [c] \<in> set white_space \<and> c \<noteq> CHR 0x0A"

definition scan_token :: "string \<Rightarrow> string" where
  "scan_token s =
     (case dropWhile scan_space s of
        [] \<Rightarrow> []
      | c # cs \<Rightarrow> if c = CHR ''-'' \<or> c = CHR ''+'' then c # takeWhile is_digit cs else takeWhile is_digit (c # cs))"

definition parseStreamIDMs :: "string \<Rightarrow> int" where
  "parseStreamIDMs streamID = (case ParseInt (scan_token streamID) of (n, None) \<Rightarrow> n | (_, Some _) \<Rightarrow> 0)"

lemma digit_no_space: "is_digit c \<Longrightarrow> \<not> scan_space c"
  by (auto simp: scan_space_def white_space_def is_digit_def digit_val_def)

lemma parseStreamIDMs_id:
  assumes "0 \<le> ms" "int64 ms"
  shows "parseStreamIDMs (FormatInt ms @ CHR ''-'' # rest) = ms"
proof -
  obtain c cs where f: "FormatInt ms = c # cs" by (cases "FormatInt ms") auto
  have d: "\<forall>x \<in> set (FormatInt ms). is_digit x" using FormatInt_nonneg_digits assms(1) by blast
  then have c: "is_digit c" "\<not> scan_space c" "c \<noteq> CHR ''-''" "c \<noteq> CHR ''+''"
    using f digit_no_space by auto
  have "takeWhile is_digit (FormatInt ms @ CHR ''-'' # rest) = FormatInt ms"
    using d by (subst takeWhile_append2) auto
  then have "scan_token (FormatInt ms @ CHR ''-'' # rest) = FormatInt ms"
    using c f by (simp add: scan_token_def)
  with assms(2) show ?thesis by (simp add: parseStreamIDMs_def)
qed

section \<open>Health\<close>

record healthResponse =
  hr_State :: string
  hr_StreamLen :: nat
  hr_FirstID :: string
  hr_LastID :: string
  hr_SnapshotID :: string
  hr_SnapshotAge :: string
  hr_EntityCount :: int

text \<open>\<open>stats\<close> and \<open>info\<close> are the results of the two queries, \<open>age\<close> prints the time since an instant.\<close>

definition health_report ::
  "(int \<Rightarrow> string) \<Rightarrow> store_error + DBStats \<Rightarrow> store_error + string \<times> string \<times> nat \<Rightarrow> snapshotMeta option \<Rightarrow> healthResponse" where
  "health_report age stats info meta =
     (let resp = \<lparr>hr_State = [], hr_StreamLen = 0, hr_FirstID = [], hr_LastID = [], hr_SnapshotID = [],
                  hr_SnapshotAge = [], hr_EntityCount = 0\<rparr>;
          resp1 = (case stats of Inl _ \<Rightarrow> resp
                   | Inr st \<Rightarrow> resp\<lparr>hr_State := hi_State (st_Health st), hr_EntityCount := st_EntityCount st\<rparr>);
          resp2 = (case info of Inl _ \<Rightarrow> resp1
                   | Inr (firstID, lastID, n) \<Rightarrow> resp1\<lparr>hr_StreamLen := n, hr_FirstID := firstID, hr_LastID := lastID\<rparr>)
      in (case meta of
            None \<Rightarrow> resp2
          | Some m \<Rightarrow>
              let resp3 = resp2\<lparr>hr_SnapshotID := m_ID m\<rparr>; ms = parseStreamIDMs (m_ID m)
              in if 0 < ms then resp3\<lparr>hr_SnapshotAge := age ms\<rparr> else resp3))"

definition serveHealth ::
  "'s redis \<Rightarrow> (healthResponse \<Rightarrow> string option) \<Rightarrow> (int \<Rightarrow> string) \<Rightarrow> (string \<Rightarrow> int option) \<Rightarrow> (string \<Rightarrow> int option list option) \<Rightarrow>
   Reader \<Rightarrow> string option \<Rightarrow> bool \<times> stats_calls \<Rightarrow> bool \<times> bool \<times> bool \<Rightarrow> snapshot_dir \<Rightarrow> 's \<Rightarrow> op list" where
  "serveHealth R encode age parse_time decode rd info st_answers si_answers d s =
     (let stats = (case st_answers of (a1, calls) \<Rightarrow> GetStatsContext R parse_time decode rd info a1 calls s);
          stream = (case si_answers of (a1, a2, a3) \<Rightarrow> StreamInfo R a1 a2 a3 s)
      in [SetHeader ''Content-Type'' ''application/json'', SetHeader ''Cache-Control'' ''no-cache''] @
         (case encode (health_report age stats stream (d_meta d)) of None \<Rightarrow> [] | Some x \<Rightarrow> [WriteBody x]))"

section \<open>Routes\<close>

datatype replicate_endpoint = SnapshotEndpoint | StreamEndpoint | HealthEndpoint

definition replicate_route :: "string list \<Rightarrow> replicate_endpoint option" where
  "replicate_route path =
     (if path = [''replicate'', ''snapshot''] then Some SnapshotEndpoint
      else if path = [''replicate'', ''stream''] then Some StreamEndpoint
      else if path = [''replicate'', ''health''] then Some HealthEndpoint else None)"

text \<open>
  What each endpoint does to its response writer is an argument, so is the answer of the
  multiplexer when no route matches.
\<close>

definition replicate_Handler ::
  "(string \<Rightarrow> bool) \<Rightarrow> (string \<Rightarrow> string list \<Rightarrow> string) \<Rightarrow> bool \<Rightarrow> string list option \<Rightarrow> (replicate_endpoint \<Rightarrow> op list) \<Rightarrow> op list \<Rightarrow>
   string \<Rightarrow> string list \<Rightarrow> string list \<Rightarrow> response \<Rightarrow> response" where
  "replicate_Handler pf enc fl encodings ops unmatched method path accept w =
     (if method \<noteq> ''GET'' \<and> method \<noteq> ''HEAD'' then serve_plain fl unmatched w
      else (case replicate_route path of
              None \<Rightarrow> serve_plain fl unmatched w
            | Some SnapshotEndpoint \<Rightarrow> serve_plain fl (ops SnapshotEndpoint) w
            | Some StreamEndpoint \<Rightarrow> Middleware pf enc fl (ops StreamEndpoint) encodings accept w
            | Some HealthEndpoint \<Rightarrow> Middleware pf enc fl (ops HealthEndpoint) encodings accept w))"

text \<open>
  The report is complete when both queries answer and a snapshot is published; a query that fails
  leaves the other parts in place.
\<close>

lemma health_report_parts:
  "hr_State (health_report age stats info meta) = (case stats of Inl _ \<Rightarrow> [] | Inr st \<Rightarrow> hi_State (st_Health st))"
  "hr_LastID (health_report age stats info meta) = (case info of Inl _ \<Rightarrow> [] | Inr (_, l, _) \<Rightarrow> l)"
  "hr_SnapshotID (health_report age stats info meta) = (case meta of None \<Rightarrow> [] | Some m \<Rightarrow> m_ID m)"
  by (simp_all add: health_report_def Let_def split: sum.splits option.splits prod.splits)

lemma health_report_age:
  assumes "0 < ms" "int64 ms" "m_ID m = FormatInt ms @ CHR ''-'' # sq"
  shows "hr_SnapshotAge (health_report age stats info (Some m)) = age ms"
  using assms parseStreamIDMs_id[of ms sq] by (simp add: health_report_def Let_def)

text \<open>A client decodes the report whichever encoding was agreed on.\<close>

lemma health_served:
  assumes w: "fresh_response w" "rs_body w = []"
    and frames: "\<And>e fs. fs \<noteq> [] \<Longrightarrow> dec e (concat (map (enc e) fs)) = Some (concat (map concat fs))"
    and ops: "ops HealthEndpoint = serveHealth R encode age parse_time decode rd info a b d s"
    and m: "method = ''GET''"
    and r: "r = replicate_Handler pf enc fl encodings ops unmatched method [''replicate'', ''health''] accept w"
  shows "rs_status r = Some 200 \<and> (\<exists>h. decoded dec r = Some (case encode h of None \<Rightarrow> [] | Some x \<Rightarrow> x))"
proof -
  let ?ops = "serveHealth R encode age parse_time decode rd info a b d s"
  have o: "orderly ?ops" by (simp add: serveHealth_def Let_def split: prod.split option.split)
  have rr: "r = Middleware pf enc fl ?ops encodings accept w"
    using ops m by (simp add: r replicate_Handler_def replicate_route_def)
  note t = middleware_as_plain[where dec = dec and enc = enc and pf = pf and fl = fl and encodings = encodings
      and accept = accept, OF o w(1) frames, folded rr]
  have st: "rs_status w = None" using w(1) by (simp add: fresh_response_def)
  obtain h where h: "?ops = [SetHeader ''Content-Type'' ''application/json'', SetHeader ''Cache-Control'' ''no-cache''] @
      (case encode h of None \<Rightarrow> [] | Some x \<Rightarrow> [WriteBody x])"
    by (simp add: serveHealth_def Let_def)
  have "concat (rs_body (serve_plain fl ?ops w)) = (case encode h of None \<Rightarrow> [] | Some x \<Rightarrow> x)"
    "rs_status (serve_plain fl ?ops w) = Some 200"
    using w(2) st unfolding h by (simp_all add: serve_plain_def base_WriteHeader_def base_Write_def Let_def split: option.splits)
  with t show ?thesis by auto
qed

end
