(* ===== verification/Transitions.thy ===== *)
theory Transitions
  imports Main
begin

text \<open>
  Step relations and their invariants: the contract between a step relation and a property that
  each of its steps keeps, and what follows for its runs. The loops of the program that are
  modelled as step relations (\<open>primary_step\<close>, \<open>run_step\<close>, \<open>connection\<close>) interpret it.
\<close>

locale invariant =
  fixes step :: "'a \<Rightarrow> 'a \<Rightarrow> bool" and inv :: "'a \<Rightarrow> bool"
  assumes preserved: "step x y \<Longrightarrow> inv x \<Longrightarrow> inv y"
begin

lemma always: "step\<^sup>*\<^sup>* x y \<Longrightarrow> inv x \<Longrightarrow> inv y"
  by (induction rule: rtranclp_induct) (use preserved in blast)+

text \<open>A property that a step keeps as long as the invariant holds.\<close>

lemma relative:
  assumes "\<And>x y. step x y \<Longrightarrow> inv x \<Longrightarrow> P x \<Longrightarrow> P y" and "step\<^sup>*\<^sup>* x y" and "inv x" and "P x"
  shows "P y"
  using assms(2-)
proof (induction rule: rtranclp_induct)
  case base
  then show ?case by simp
next
  case (step y z)
  then show ?case using assms(1) always by metis
qed

end

end
