(* ===== verification/SnapshotRun.thy ===== *)
theory SnapshotRun
  imports SnapshotGen Transitions
begin

text \<open>
  \<open>SnapshotGenerator.Run\<close> of \<open>internal/replicate/snapshot.go\<close> as a step relation: the loop waits for
  the snapshot to expire or for a signal, generates, and drains the signal; requests are served
  meanwhile, and the process can crash and start again anywhere, also in the middle of a
  generation.

  The results are about what clients see over the life of the generator: every snapshot that is
  served is complete, and the bytes under one ETag never change, which is what resuming a
  download with \<open>Range\<close> and \<open>If-Range\<close> rests on.
\<close>

section \<open>The loop\<close>

text \<open>A generation in progress is the list of the directories that are still to come.\<close>

datatype gen_phase = Waiting int | Working "snapshot_dir list"

text \<open>\<open>gr_signal\<close> is the channel \<open>regenerate\<close>, \<open>gr_last\<close> the time that the last generation took for its name.\<close>

record gen_run =
  gr_dir :: snapshot_dir
  gr_signal :: bool
  gr_phase :: gen_phase
  gr_last :: int

definition snapshot_age :: "int \<Rightarrow> snapshot_dir \<Rightarrow> int" where
  "snapshot_age now d = (case d_meta d of None \<Rightarrow> 0 | Some m \<Rightarrow> now - m_CreatedAt m)"

definition next_wake :: "'s redis \<Rightarrow> int \<Rightarrow> bool \<times> bool \<times> bool \<Rightarrow> 's \<Rightarrow> int \<Rightarrow> snapshot_dir \<Rightarrow> int" where
  "next_wake R interval answers s now d =
     now + run_wait interval (isSnapshotCurrent R answers s d) (snapshot_age now d)"

definition start_generator :: "'s redis \<Rightarrow> int \<Rightarrow> bool \<times> bool \<times> bool \<Rightarrow> 's \<Rightarrow> int \<Rightarrow> int \<Rightarrow> snapshot_dir \<Rightarrow> gen_run" where
  "start_generator R interval answers s now lastName d =
     \<lparr>gr_dir = cleanSnapshots d, gr_signal = False,
      gr_phase = Waiting (next_wake R interval answers s now (cleanSnapshots d)), gr_last = lastName\<rparr>"

text \<open>
  When the timer and the signal are both ready the loop takes either, so the signal may stay
  (\<open>sig\<close>). The clock that names the files is not set back.
\<close>

inductive run_step ::
  "'s redis \<Rightarrow> (nat \<Rightarrow> nat \<Rightarrow> 's \<Rightarrow> (string \<times> string) list \<times> nat) \<Rightarrow> json_codec \<Rightarrow> (string \<Rightarrow> string) \<Rightarrow> int \<Rightarrow>
   gen_run \<Rightarrow> gen_run \<Rightarrow> bool" for R hscan J compress interval where
  request: "ServeSnapshot R tries = (out, True) \<Longrightarrow> run_step R hscan J compress interval x (x\<lparr>gr_signal := True\<rparr>)"
| wake: "gr_phase x = Waiting t \<Longrightarrow> gr_signal x \<or> t \<le> now \<Longrightarrow> sig \<longrightarrow> gr_signal x \<and> t \<le> now \<Longrightarrow>
    gr_last x < now \<Longrightarrow> int64 now \<Longrightarrow>
    generate R hscan J compress answers scans now createdAt fault partial s (gr_dir x) = (err, ds) \<Longrightarrow>
    run_step R hscan J compress interval x (x\<lparr>gr_phase := Working ds, gr_signal := sig, gr_last := now\<rparr>)"
| progress: "gr_phase x = Working (d # ds) \<Longrightarrow>
    run_step R hscan J compress interval x (x\<lparr>gr_dir := d, gr_phase := Working ds\<rparr>)"
| drained: "gr_phase x = Working [] \<Longrightarrow>
    run_step R hscan J compress interval x
      (x\<lparr>gr_signal := False, gr_phase := Waiting (next_wake R interval answers s now (gr_dir x))\<rparr>)"
| restart: "run_step R hscan J compress interval x (start_generator R interval answers s now (gr_last x) (gr_dir x))"

section \<open>What a generation leaves alone\<close>

text \<open>A later directory still has the published file of an earlier one as it was, or has it no longer.\<close>

definition keeps :: "snapshot_dir \<Rightarrow> snapshot_dir \<Rightarrow> bool" where
  "keeps d d' \<longleftrightarrow> (\<forall>m. d_meta d = Some m \<longrightarrow> d_files d' (m_File m) = None \<or> d_files d' (m_File m) = d_files d (m_File m))"

lemma clean_files: "d_files (cleanSnapshots d) f = None \<or> d_files (cleanSnapshots d) f = d_files d f"
  by (simp add: cleanSnapshots_def Let_def)

lemma keeps_all:
  assumes "\<And>x y. x \<in> {a, b, c, e} \<Longrightarrow> y \<in> {a, b, c, e, f, g} \<Longrightarrow> keeps x y" and "keeps f g"
  shows "sorted_wrt keeps [a, b, c, e, f, g]"
  using assms by simp

lemma generate_keeps:
  assumes d: "published_ok d" and fresh: "d_files d (snapshot_name nanos) = None"
    and run: "generate R hscan J compress answers scans nanos createdAt fault partial s d = (err, ds)"
  shows "sorted_wrt keeps (d # ds)"
    and "\<forall>d' \<in> set ds. \<forall>f. f \<noteq> snapshot_name nanos \<longrightarrow> d_files d' f = None \<or> d_files d' f = d_files d f"
proof -
  let ?n = "snapshot_name nanos"
  have pub: "m_File m \<noteq> ?n" if "d_meta d = Some m" for m using that d fresh by (auto simp: published_ok_def)
  have "sorted_wrt keeps (d # ds) \<and> (\<forall>d' \<in> set ds. \<forall>f. f \<noteq> ?n \<longrightarrow> d_files d' f = None \<or> d_files d' f = d_files d f)"
    using run
  proof (cases rule: generate_cases)
    case nothing
    then show ?thesis by (simp add: keeps_def)
  next
    case broken
    with pub show ?thesis by (auto simp: keeps_def)
  next
    case (written lastID frames k)
    let ?c = "concat (map compress frames)" and ?m = "\<lparr>m_File = ?n, m_ID = lastID, m_CreatedAt = createdAt\<rparr>"
    let ?d1 = "put_file ?n ?c d"
    let ?d2 = "?d1\<lparr>d_tmp := Some ?m\<rparr>"
    let ?d3 = "?d2\<lparr>d_meta := Some ?m, d_tmp := None\<rparr>"
    let ?all = "[d, put_file ?n [] d, ?d1, ?d2, ?d3, cleanSnapshots ?d3]"
    have steps: "d # ds = take (Suc (Suc k)) ?all"
      by (simp add: written(2) publish_steps_def Let_def put_file_def)
    have f: "d_files d' f = None \<or> d_files d' f = d_files d f" if "d' \<in> set ?all" "f \<noteq> ?n" for d' f
      using that clean_files[of ?d3 f] by auto
    have old: "keeps x d'" if x: "x \<in> {d, put_file ?n [] d, ?d1, ?d2}" and y: "d' \<in> {d, put_file ?n [] d, ?d1, ?d2, ?d3, cleanSnapshots ?d3}" for x d'
    proof -
      have "d_meta x = d_meta d" "\<And>m. d_meta d = Some m \<Longrightarrow> d_files x (m_File m) = d_files d (m_File m)"
        using x pub by auto
      moreover have "d' \<in> set ?all" using y by simp
      then have "d_files d' (m_File m) = None \<or> d_files d' (m_File m) = d_files d (m_File m)" if "d_meta d = Some m" for m
        by (rule f) (rule pub[OF that])
      ultimately show ?thesis unfolding keeps_def by simp
    qed
    have "keeps ?d3 (cleanSnapshots ?d3)" unfolding keeps_def using clean_files by blast
    note all = keeps_all[OF old this]
    have "sorted_wrt keeps (d # ds)" unfolding steps by (intro sorted_wrt_take all)
    moreover have sub: "set (d # ds) \<subseteq> set ?all" unfolding steps by (rule set_take_subset)
    have "d_files d' f = None \<or> d_files d' f = d_files d f" if "d' \<in> set ds" "f \<noteq> ?n" for d' f
      by (rule f[OF subsetD[OF sub] that(2)]) (use that in simp)
    ultimately show ?thesis by blast
  qed
  then show "sorted_wrt keeps (d # ds)"
    "\<forall>d' \<in> set ds. \<forall>f. f \<noteq> ?n \<longrightarrow> d_files d' f = None \<or> d_files d' f = d_files d f" by blast+
qed

section \<open>Runs\<close>

definition to_come :: "gen_run \<Rightarrow> snapshot_dir list" where
  "to_come x = (case gr_phase x of Waiting _ \<Rightarrow> [] | Working ds \<Rightarrow> ds)"

text \<open>The content of a snapshot that some generation has made from beginning to end.\<close>

definition made_by ::
  "'s redis \<Rightarrow> (nat \<Rightarrow> nat \<Rightarrow> 's \<Rightarrow> (string \<times> string) list \<times> nat) \<Rightarrow> json_codec \<Rightarrow> (string \<Rightarrow> string) \<Rightarrow>
   snapshotMeta \<Rightarrow> string \<Rightarrow> bool" where
  "made_by R hscan J compress m x \<longleftrightarrow> (\<exists>answers scans s frames.
     generate_frames R hscan J compress answers scans s = Inr (m_ID m, frames) \<and> x = concat (map compress frames))"

definition vouched ::
  "'s redis \<Rightarrow> (nat \<Rightarrow> nat \<Rightarrow> 's \<Rightarrow> (string \<times> string) list \<times> nat) \<Rightarrow> json_codec \<Rightarrow> (string \<Rightarrow> string) \<Rightarrow>
   snapshot_dir \<Rightarrow> snapshot_dir \<Rightarrow> bool" where
  "vouched R hscan J compress d0 d \<longleftrightarrow> published_ok d \<and> (\<forall>m x. d_meta d = Some m \<and> d_files d (m_File m) = Some x \<longrightarrow>
     d_meta d0 = Some m \<and> d_files d0 (m_File m) = Some x \<or> made_by R hscan J compress m x)"

text \<open>The names of the generations to come are free.\<close>

definition names_free :: "int \<Rightarrow> snapshot_dir \<Rightarrow> bool" where
  "names_free t d \<longleftrightarrow> (\<forall>n. int64 n \<and> t < n \<longrightarrow> d_files d (snapshot_name n) = None)"

definition run_inv ::
  "'s redis \<Rightarrow> (nat \<Rightarrow> nat \<Rightarrow> 's \<Rightarrow> (string \<times> string) list \<times> nat) \<Rightarrow> json_codec \<Rightarrow> (string \<Rightarrow> string) \<Rightarrow>
   snapshot_dir \<Rightarrow> gen_run \<Rightarrow> bool" where
  "run_inv R hscan J compress d0 x \<longleftrightarrow> sorted_wrt keeps (gr_dir x # to_come x) \<and>
     (\<forall>d \<in> set (gr_dir x # to_come x). vouched R hscan J compress d0 d \<and> names_free (gr_last x) d)"

lemma snapshot_name_inj:
  assumes "int64 a" "int64 b" "snapshot_name a = snapshot_name b"
  shows "a = b"
proof -
  have "FormatInt a = FormatInt b" using assms(3) by (simp add: snapshot_name_def)
  then have "ParseInt (FormatInt a) = ParseInt (FormatInt b)" by (rule arg_cong)
  then show ?thesis unfolding ParseInt_FormatInt[OF assms(1)] ParseInt_FormatInt[OF assms(2)] by (rule Pair_inject)
qed

lemma clean_vouched:
  assumes "vouched R hscan J compress d0 d" shows "vouched R hscan J compress d0 (cleanSnapshots d)"
  using assms clean_keeps_published[of d] by (auto simp: vouched_def)

lemma clean_free: "names_free t d \<Longrightarrow> names_free t (cleanSnapshots d)"
  using clean_files by (metis names_free_def)

lemma generate_vouched:
  assumes d: "vouched R hscan J compress d0 d" and fresh: "d_files d (snapshot_name now) = None"
    and run: "generate R hscan J compress answers scans now createdAt fault partial s d = (err, ds)" and d': "d' \<in> set ds"
  shows "vouched R hscan J compress d0 d'"
proof -
  have "published_ok d" using d by (simp add: vouched_def)
  note g = generate_publishes[OF this fresh run, THEN conjunct1, THEN bspec, OF d']
  from g[THEN conjunct2] show ?thesis
  proof
    assume "d_meta d' = d_meta d \<and> (\<forall>m. d_meta d = Some m \<longrightarrow> d_files d' (m_File m) = d_files d (m_File m))"
    with g d show ?thesis by (auto simp: vouched_def)
  next
    assume "\<exists>lastID frames. generate_frames R hscan J compress answers scans s = Inr (lastID, frames) \<and>
      d_meta d' = Some \<lparr>m_File = snapshot_name now, m_ID = lastID, m_CreatedAt = createdAt\<rparr> \<and>
      d_files d' (snapshot_name now) = Some (concat (map compress frames))"
    then obtain lastID frames where f: "generate_frames R hscan J compress answers scans s = Inr (lastID, frames)"
      and m: "d_meta d' = Some \<lparr>m_File = snapshot_name now, m_ID = lastID, m_CreatedAt = createdAt\<rparr>"
        "d_files d' (snapshot_name now) = Some (concat (map compress frames))" by blast
    from f have "made_by R hscan J compress \<lparr>m_File = snapshot_name now, m_ID = lastID, m_CreatedAt = createdAt\<rparr>
        (concat (map compress frames))" unfolding made_by_def snapshotMeta.select_convs by blast
    with g[THEN conjunct1] m show ?thesis by (simp add: vouched_def)
  qed
qed

lemma run_inv_step:
  "run_step R hscan J compress interval x y \<Longrightarrow> run_inv R hscan J compress d0 x \<Longrightarrow> run_inv R hscan J compress d0 y"
proof (induction x y rule: run_step.induct)
  case (wake x t now sig answers scans createdAt fault partial s err ds)
  then have x: "vouched R hscan J compress d0 (gr_dir x)" "names_free (gr_last x) (gr_dir x)"
    by (simp_all add: run_inv_def to_come_def)
  have fresh: "d_files (gr_dir x) (snapshot_name now) = None" using x(2) wake.hyps by (simp add: names_free_def)
  note k = generate_keeps[OF _ fresh wake.hyps(6)]
  have pub: "published_ok (gr_dir x)" using x(1) by (simp add: vouched_def)
  have "names_free now d'" if "d' \<in> set (gr_dir x # ds)" for d'
    unfolding names_free_def
  proof (intro allI impI)
    fix n assume n: "int64 n \<and> now < n"
    with wake.hyps have "snapshot_name n \<noteq> snapshot_name now" using snapshot_name_inj by fastforce
    moreover have "d_files (gr_dir x) (snapshot_name n) = None" using n x(2) wake.hyps by (simp add: names_free_def)
    ultimately show "d_files d' (snapshot_name n) = None"
      using bspec[OF k(2)[OF pub], THEN spec, of d' "snapshot_name n"] that by (cases "d' \<in> set ds") auto
  qed
  moreover have "vouched R hscan J compress d0 d'" if "d' \<in> set (gr_dir x # ds)" for d'
    using that x(1) generate_vouched[OF x(1) fresh wake.hyps(6)] by auto
  ultimately show ?case using k(1)[OF pub] by (simp add: run_inv_def to_come_def)
next
  case (progress x d ds)
  then show ?case by (simp add: run_inv_def to_come_def)
next
  case (restart x answers s now)
  then show ?case by (simp add: run_inv_def to_come_def start_generator_def clean_vouched clean_free)
qed (simp_all add: run_inv_def to_come_def)

interpretation generator: invariant "run_step R hscan J compress interval" "run_inv R hscan J compress d0"
  for R hscan J compress interval d0
  by unfold_locales (rule run_inv_step)

section \<open>A published file never changes\<close>

definition fixed_file :: "string \<Rightarrow> string \<Rightarrow> gen_run \<Rightarrow> bool" where
  "fixed_file f c x \<longleftrightarrow> (\<forall>d \<in> set (gr_dir x # to_come x). d_files d f = None \<or> d_files d f = Some c) \<and>
     (\<forall>n. int64 n \<and> gr_last x < n \<longrightarrow> f \<noteq> snapshot_name n)"

lemma fixed_start:
  assumes "run_inv R hscan J compress d0 x" "d_meta (gr_dir x) = Some m" "d_files (gr_dir x) (m_File m) = Some c"
  shows "fixed_file (m_File m) c x"
  using assms by (auto simp: fixed_file_def run_inv_def keeps_def names_free_def)

lemma fixed_step:
  "run_step R hscan J compress interval x y \<Longrightarrow> run_inv R hscan J compress d0 x \<Longrightarrow> fixed_file f c x \<Longrightarrow> fixed_file f c y"
proof (induction x y rule: run_step.induct)
  case (wake x t now sig answers scans createdAt fault partial s err ds)
  then have x: "published_ok (gr_dir x)" "d_files (gr_dir x) (snapshot_name now) = None"
    by (simp_all add: run_inv_def vouched_def names_free_def)
  have "f \<noteq> snapshot_name now" using wake.prems wake.hyps by (simp add: fixed_file_def)
  with generate_keeps(2)[OF x wake.hyps(6)] wake.prems wake.hyps show ?case
    by (fastforce simp: fixed_file_def to_come_def)
next
  case (progress x d ds)
  then show ?case by (simp add: fixed_file_def to_come_def)
next
  case (restart x answers s now)
  then show ?case using clean_files[of "gr_dir x" f] by (auto simp: fixed_file_def to_come_def start_generator_def)
qed (simp_all add: fixed_file_def to_come_def)

lemma fixed_reach:
  "(run_step R hscan J compress interval)\<^sup>*\<^sup>* x y \<Longrightarrow> run_inv R hscan J compress d0 x \<Longrightarrow> fixed_file f c x \<Longrightarrow> fixed_file f c y"
  by (rule generator.relative[where P = "fixed_file f c", OF fixed_step])

text \<open>What a request gets: the pointer is read at one moment (\<open>x\<close>) and the file opened at a later one (\<open>y\<close>).\<close>

definition try_at :: "bool \<times> bool \<times> bool \<Rightarrow> 's \<Rightarrow> gen_run \<Rightarrow> gen_run \<Rightarrow> 's serve_try" where
  "try_at answers s x y = \<lparr>sy_answers = answers, sy_state = s, sy_meta = gr_dir x, sy_open = gr_dir y\<rparr>"

lemma served_once:
  assumes "ServeSnapshot R [try_at answers s x y] = (Inr (etag, c), regen)"
  obtains m where "d_meta (gr_dir x) = Some m" "d_files (gr_dir y) (m_File m) = Some c" "etag = CHR 0x22 # m_File m @ [CHR 0x22]"
  using ServeSnapshot_served[OF assms] by (auto simp: try_serves_def try_at_def)

lemma served_fixed:
  assumes inv: "run_inv R hscan J compress d0 x" and run: "(run_step R hscan J compress interval)\<^sup>*\<^sup>* x y"
    and serve: "ServeSnapshot R [try_at answers s x y] = (Inr (etag, c), regen)"
  obtains m where "d_meta (gr_dir x) = Some m" "d_files (gr_dir x) (m_File m) = Some c"
    "etag = CHR 0x22 # m_File m @ [CHR 0x22]" "fixed_file (m_File m) c x"
proof -
  obtain m where m: "d_meta (gr_dir x) = Some m" "d_files (gr_dir y) (m_File m) = Some c"
    "etag = CHR 0x22 # m_File m @ [CHR 0x22]" by (rule served_once[OF serve])
  have "published_ok (gr_dir x)" using inv by (simp add: run_inv_def vouched_def)
  with m(1) obtain c' where c': "d_files (gr_dir x) (m_File m) = Some c'" by (auto simp: published_ok_def)
  note fx = fixed_start[OF inv m(1) c']
  from fixed_reach[OF run inv fx] m(2) have "c' = c" by (auto simp: fixed_file_def)
  with that m c' fx show thesis by blast
qed

lemma served_stable:
  assumes inv: "run_inv R hscan J compress d0 x"
    and runs: "(run_step R hscan J compress interval)\<^sup>*\<^sup>* x y" "(run_step R hscan J compress interval)\<^sup>*\<^sup>* x x'"
      "(run_step R hscan J compress interval)\<^sup>*\<^sup>* x' y'"
    and serve: "ServeSnapshot R [try_at answers s x y] = (Inr (etag, c), regen)"
    and serve': "ServeSnapshot R [try_at answers' s' x' y'] = (Inr (etag, c'), regen')"
  shows "c' = c"
proof -
  obtain m where "d_meta (gr_dir x) = Some m" "d_files (gr_dir x) (m_File m) = Some c"
    and m: "etag = CHR 0x22 # m_File m @ [CHR 0x22]" "fixed_file (m_File m) c x"
    by (rule served_fixed[OF inv runs(1) serve])
  obtain m' where "d_meta (gr_dir x') = Some m'"
    and m': "d_files (gr_dir x') (m_File m') = Some c'" "etag = CHR 0x22 # m_File m' @ [CHR 0x22]" "fixed_file (m_File m') c' x'"
    by (rule served_fixed[OF generator.always[OF runs(2) inv] runs(3) serve'])
  from fixed_reach[OF runs(2) inv m(2)] m m' show ?thesis by (auto simp: fixed_file_def)
qed

lemma start_inv:
  assumes "published_ok d0" "names_free lastName d0"
  shows "run_inv R hscan J compress d0 (start_generator R interval answers s now lastName d0)"
proof -
  have "vouched R hscan J compress d0 d0" using assms(1) by (simp add: vouched_def)
  with clean_vouched clean_free[OF assms(2)] show ?thesis by (auto simp: run_inv_def to_come_def start_generator_def)
qed

text \<open>
  Claim C29: over the whole life of the generator, with its crashes and restarts, a snapshot that is
  served is the one that was published at the start or a complete one, made from the database at
  the position that its pointer names; and two requests that get the same ETag get the same bytes.
\<close>

theorem Run_serves_stable:
  assumes "published_ok d0" and "names_free lastName d0"
    and "(run_step R hscan J compress interval)\<^sup>*\<^sup>* (start_generator R interval answers s0 now lastName d0) x"
    and "(run_step R hscan J compress interval)\<^sup>*\<^sup>* x y" and "(run_step R hscan J compress interval)\<^sup>*\<^sup>* x x'"
    and "(run_step R hscan J compress interval)\<^sup>*\<^sup>* x' y'"
    and "ServeSnapshot R [try_at a s x y] = (Inr (etag, c), regen)"
    and "ServeSnapshot R [try_at a' s' x' y'] = (Inr (etag, c'), regen')"
  shows "c' = c \<and> (\<exists>m. etag = CHR 0x22 # m_File m @ [CHR 0x22] \<and>
    (d_meta d0 = Some m \<and> d_files d0 (m_File m) = Some c \<or> made_by R hscan J compress m c))"
proof -
  note inv = generator.always[OF assms(3) start_inv[OF assms(1,2)]]
  obtain m where m: "d_meta (gr_dir x) = Some m" "d_files (gr_dir x) (m_File m) = Some c"
    "etag = CHR 0x22 # m_File m @ [CHR 0x22]" "fixed_file (m_File m) c x"
    by (rule served_fixed[OF inv assms(4,7)])
  from inv have "vouched R hscan J compress d0 (gr_dir x)" by (simp add: run_inv_def)
  with m served_stable[OF inv assms(4-8)] show ?thesis unfolding vouched_def by blast
qed

section \<open>Witness\<close>

abbreviation example_run :: "gen_run \<Rightarrow> gen_run \<Rightarrow> bool" where
  "example_run \<equiv> run_step mem_redis (\<lambda>_ _ _. ([], 0)) text_codec id DefaultSnapshotInterval"

definition example_state :: "int \<Rightarrow> gen_run" where
  "example_state now = start_generator mem_redis DefaultSnapshotInterval (True, True, True) example_log now 7 example_dir"

lemma int64_seven: "int64 7"
  by (simp add: int64_def)

lemma example_dir_run: "published_ok example_dir" "names_free 7 example_dir"
proof -
  show "published_ok example_dir"
    by (simp add: published_ok_def example_dir_def is_snapshot_def HasSuffix_def)
  have "snapshot_name 7 = ''snapshot-7.zst''"
    by (simp add: snapshot_name_def FormatInt_def format_nat.simps digit_char_def char_of_eqI)
  then have "snapshot_name n \<noteq> ''snapshot-7.zst''" if "int64 n" "7 < n" for n
    using that snapshot_name_inj[of n 7] by (metis int64_seven order_less_irrefl)
  then show "names_free 7 example_dir" by (simp add: names_free_def example_dir_def empty_dir_def)
qed

lemma example_cleaned:
  "d_meta (cleanSnapshots example_dir) = d_meta example_dir"
  "d_files (cleanSnapshots example_dir) ''snapshot-7.zst'' = Some ''x''"
  using clean_keeps_published[OF example_dir_run(1)] by (simp_all add: example_dir_def)

lemma example_twice:
  obtains c where "d_meta (cleanSnapshots (cleanSnapshots example_dir)) = d_meta example_dir"
    "d_files (cleanSnapshots (cleanSnapshots example_dir)) ''snapshot-7.zst'' = Some c"
proof -
  have "published_ok (cleanSnapshots example_dir)" using clean_keeps_published[OF example_dir_run(1)] by blast
  from clean_keeps_published[OF this] example_cleaned that show thesis
    by (auto simp: published_ok_def example_dir_def)
qed

lemma example_served:
  assumes "d_meta d = d_meta example_dir" "d_files d ''snapshot-7.zst'' = Some c"
  shows "ServeSnapshot mem_redis [example_try d d] = (Inr (CHR 0x22 # ''snapshot-7.zst'' @ [CHR 0x22], c), False)"
proof -
  have t: "sid64 (1, 0)" by (simp add: sid64_def)
  have ne: "example_stream \<noteq> []" "fst (hd example_stream) = sid_str (1, 0)" by (simp_all add: example_stream_def)
  have "isSnapshotCurrent mem_redis (True, True, True) example_log d = (d_meta example_dir, True)"
    using stream_info[OF mem_redis_ok, of example_stream example_log] t ne assms(1)
    by (simp add: isSnapshotCurrent_def example_dir_def compare_sid)
  then show ?thesis using assms(2) by (simp add: ServeSnapshot_def example_try_def example_dir_def)
qed

text \<open>A snapshot that was there before a restart is served with the same bytes after it.\<close>

lemma Run_serves_stable_witness:
  "\<exists>x y. example_run\<^sup>*\<^sup>* (example_state 8) x \<and> example_run\<^sup>*\<^sup>* x y \<and>
     ServeSnapshot mem_redis [example_try (gr_dir y) (gr_dir y)] =
     (Inr (CHR 0x22 # ''snapshot-7.zst'' @ [CHR 0x22], ''x''), False)"
proof -
  let ?x = "example_state 8"
  let ?y = "start_generator mem_redis DefaultSnapshotInterval (True, True, True) example_log 9 (gr_last ?x) (gr_dir ?x)"
  have dirs: "gr_dir ?x = cleanSnapshots example_dir" "gr_dir ?y = cleanSnapshots (cleanSnapshots example_dir)"
    by (simp_all add: example_state_def start_generator_def)
  have run: "example_run\<^sup>*\<^sup>* ?x ?y" by (rule r_into_rtranclp) (rule run_step.restart)
  obtain c where c: "d_meta (cleanSnapshots (cleanSnapshots example_dir)) = d_meta example_dir"
    "d_files (cleanSnapshots (cleanSnapshots example_dir)) ''snapshot-7.zst'' = Some c" by (rule example_twice)
  have at: "example_try (gr_dir x) (gr_dir x) = try_at (True, True, True) example_log x x" for x
    by (simp add: example_try_def try_at_def)
  note s = example_served[OF example_cleaned, folded dirs(1)] example_served[OF c, folded dirs(2)]
  have "c = ''x''"
    by (rule conjunct1[OF Run_serves_stable[OF example_dir_run rtranclp.rtrancl_refl[of example_run "example_state 8", unfolded example_state_def]
      rtranclp.rtrancl_refl _ rtranclp.rtrancl_refl, folded example_state_def, OF run s(1)[unfolded at] s(2)[unfolded at]]])
  with run s(2) show ?thesis by blast
qed

end
