(* ===== verification/Replication.thy ===== *)
theory Replication
  imports SnapshotRoundtrip ReplicaStream Transitions
begin

text \<open>
  Replication from end to end. The upstream's database goes through a history of changes while a
  snapshot of it is scanned, so the snapshot is of no single moment; it carries the position at
  which the scan began. A replica that has fetched it and then reads the change stream from that
  position, over any number of connections and with any failures of its own database, comes to
  hold what the upstream held: \<open>replica_converges\<close>, over the definitions of the generator, the
  client's fetch, the stream server and the stream client.
\<close>

section \<open>Logs\<close>

text \<open>Entries as the scripts of the writer make them.\<close>

definition log_ok :: "stream_entry list \<Rightarrow> bool" where
  "log_ok H \<longleftrightarrow> (\<forall>e \<in> set H. \<exists>n m. int64 n \<and> snd e = change_fields (FormatInt n) m)"

lemma log_okD: "log_ok H \<Longrightarrow> e \<in> set H \<Longrightarrow> \<exists>i n m. e = (i, change_fields (FormatInt n) m) \<and> int64 n"
  unfolding log_ok_def by (metis prod.collapse)

lemma apply_log_untouched: "f \<notin> (\<lambda>e. fst (entry_change e)) ` set es \<Longrightarrow> apply_log es E f = E f"
  by (induction es arbitrary: E) (auto simp: apply_change_def)

lemma apply_log_touched: "f \<in> (\<lambda>e. fst (entry_change e)) ` set es \<Longrightarrow> apply_log es E f = apply_log es E' f"
proof (induction es arbitrary: E E')
  case Nil
  then show ?case by simp
next
  case (Cons e es)
  show ?case
  proof (cases "f \<in> (\<lambda>e. fst (entry_change e)) ` set es")
    case True
    then show ?thesis using Cons.IH by simp
  next
    case False
    with Cons.prems have "f = fst (entry_change e)" by auto
    with apply_log_untouched[OF False] show ?thesis by (simp add: apply_change_def)
  qed
qed

lemma log_keys:
  assumes "log_ok es" "eids_ok E"
  shows "eids_ok (apply_log es E)"
  using assms
proof (induction es arbitrary: E)
  case Nil
  then show ?case by simp
next
  case (Cons e es)
  obtain i n m where e: "e = (i, change_fields (FormatInt n) m)" "int64 n" using log_okD[OF Cons.prems(1), of e] by auto
  have "eids_ok (apply_change (entry_change e) E)"
    using Cons.prems(2) e by (auto simp: eids_ok_def apply_change_def canonical_eid_def)
  then show ?case using Cons by (simp add: log_ok_def)
qed

lemma events_log:
  assumes "log_ok es"
  shows "fold event_change (map entry_event es) E = apply_log es E"
  using assms
proof (induction es arbitrary: E)
  case Nil
  then show ?case by simp
next
  case (Cons e es)
  obtain i n m where e: "e = (i, change_fields (FormatInt n) m)" "int64 n" using log_okD[OF Cons.prems, of e] by auto
  then have "event_change (entry_event e) = apply_change (entry_change e)"
    by (simp add: entry_event_def change_map_def) (simp add: change_fields_def)
  with Cons show ?case by (simp add: log_ok_def)
qed

section \<open>A scan of a database that changes\<close>

text \<open>The database at a point of its history; older entries may have been trimmed.\<close>

definition upstream :: "('u \<Rightarrow> content) \<Rightarrow> stream_entry list \<Rightarrow> (string \<Rightarrow> string option) \<Rightarrow> nat \<Rightarrow> 'u \<Rightarrow> bool" where
  "upstream u H E0 k s \<longleftrightarrow> k \<le> length H \<and> entities (u s) = apply_log (take k H) E0 \<and>
     (\<exists>n. streams (u s) changelogKey = drop n (take k H))"

text \<open>The turns of a scan: the database that each reads, and what it returns.\<close>

fun visited ::
  "(nat \<Rightarrow> nat \<Rightarrow> 'u \<Rightarrow> (string \<times> string) list \<times> nat) \<Rightarrow> (bool \<times> bool \<times> 'u) list \<Rightarrow> nat \<Rightarrow> ('u \<times> (string \<times> string) list) list" where
  "visited hscan [] cursor = []"
| "visited hscan ((cancelled, answered, s) # scans) cursor =
     (case hscan cursor 1000 s of (fvs, next) \<Rightarrow> (s, fvs) # (if next = 0 then [] else visited hscan scans next))"

lemma scanned_visited: "scanned hscan scans cursor = concat (map (\<lambda>t. scan_entities (snd t)) (visited hscan scans cursor))"
proof (induction scans arbitrary: cursor)
  case (Cons sc scans)
  obtain c a s where sc: "sc = (c, a, s)" by (metis surj_pair)
  show ?case by (cases "hscan cursor 1000 s") (simp add: sc Cons.IH)
qed simp

lemma visited_states: "t \<in> set (visited hscan scans cursor) \<Longrightarrow> \<exists>c a. (c, a, fst t) \<in> set scans"
proof (induction scans arbitrary: cursor)
  case (Cons sc scans)
  obtain c a s where sc: "sc = (c, a, s)" by (metis surj_pair)
  obtain fvs n where h: "hscan cursor 1000 s = (fvs, n)" by fastforce
  from Cons.prems have "t = (s, fvs) \<or> t \<in> set (visited hscan scans n)"
    by (simp add: sc h split: if_splits)
  then show ?case
  proof
    assume "t = (s, fvs)"
    with sc show ?thesis by auto
  next
    assume "t \<in> set (visited hscan scans n)"
    from Cons.IH[OF this] show ?thesis by auto
  qed
qed simp

text \<open>
  What \<open>HSCAN\<close> promises of an iteration that has run to its end: it returns fields with the values
  they have at the time, and every field that is there throughout.
\<close>

definition scan_promise :: "('u \<Rightarrow> content) \<Rightarrow> ('u \<times> (string \<times> string) list) list \<Rightarrow> bool" where
  "scan_promise u ts \<longleftrightarrow>
     (\<forall>(s, fvs) \<in> set ts. \<forall>(f, m) \<in> set fvs. entities (u s) f = Some m) \<and>
     (\<forall>f. (\<forall>(s, fvs) \<in> set ts. entities (u s) f \<noteq> None) \<longrightarrow> (\<exists>(s, fvs) \<in> set ts. f \<in> fst ` set fvs))"

lemma scan_entities_pairs:
  assumes "\<forall>(f, m) \<in> set fvs. canonical_eid f"
  shows "map pair_of (scan_entities fvs) = map (\<lambda>(f, m). (fst (ParseInt f), m)) fvs \<and>
    (\<forall>(f, m) \<in> set fvs. FormatInt (fst (ParseInt f)) = f)"
  using assms
proof (induction fvs)
  case Nil
  then show ?case by simp
next
  case (Cons fm fvs)
  obtain f m where fm: "fm = (f, m)" by fastforce
  with Cons.prems obtain n where "int64 n" "f = FormatInt n" by (auto simp: canonical_eid_def)
  with fm Cons show ?case by (auto simp: pair_of_def)
qed

lemma put_ents_map: "fold put_ent ps (\<lambda>_. None) = map_of (rev (map (\<lambda>(q, m). (FormatInt q, m)) ps))"
proof -
  have "fold put_ent ps E = E ++ map_of (rev (map (\<lambda>(q, m). (FormatInt q, m)) ps))" for E
    by (induction ps arbitrary: E) (auto simp: put_ent_def)
  then show ?thesis by simp
qed

lemma scanned_map:
  assumes "\<forall>(s, fvs) \<in> set ts. \<forall>(f, m) \<in> set fvs. canonical_eid f"
  shows "fold put_ent (map pair_of (concat (map (\<lambda>t. scan_entities (snd t)) ts))) (\<lambda>_. None) =
    map_of (rev (concat (map snd ts)))"
proof -
  have "map (\<lambda>(q, m). (FormatInt q, m)) (map pair_of (concat (map (\<lambda>t. scan_entities (snd t)) ts))) = concat (map snd ts)"
    using assms
  proof (induction ts)
    case Nil
    then show ?case by simp
  next
    case (Cons t ts)
    obtain s fvs where t: "t = (s, fvs)" by fastforce
    with Cons.prems have "\<forall>(f, m) \<in> set fvs. canonical_eid f" by auto
    note sp = scan_entities_pairs[OF this]
    have "map (\<lambda>(q, m). (FormatInt q, m)) (map pair_of (scan_entities fvs)) = map (\<lambda>x. x) fvs"
      unfolding sp[THEN conjunct1] map_map by (rule map_cong) (use sp in auto)
    with Cons t show ?case by simp
  qed
  then show ?thesis unfolding put_ents_map by simp
qed

text \<open>The changes since the scan began make up for what the scan has mixed up.\<close>

lemma fuzzy_snapshot:
  assumes H: "log_ok H" "eids_ok E0" and k: "k \<le> length H"
    and ts: "scan_promise u ts" "\<forall>(s, fvs) \<in> set ts. \<exists>k'. k \<le> k' \<and> upstream u H E0 k' s"
  shows "apply_log (drop k H) (map_of (rev (concat (map snd ts)))) = apply_log H E0"
proof
  fix f
  let ?M = "\<lambda>k. apply_log (take k H) E0" and ?S = "map_of (rev (concat (map snd ts)))"
  have H': "apply_log H E0 = apply_log (drop k H) (?M k)" by (metis append_take_drop_id apply_log_append)
  show "apply_log (drop k H) ?S f = apply_log H E0 f"
  proof (cases "f \<in> (\<lambda>e. fst (entry_change e)) ` set (drop k H)")
    case True
    then show ?thesis unfolding H' by (rule apply_log_touched)
  next
    case False
    have same: "?M k' f = ?M k f" if "k \<le> k'" for k'
    proof -
      have t: "take k' H = take k H @ take (k' - k) (drop k H)" using take_add[of k "k' - k" H] that by simp
      have "f \<notin> (\<lambda>e. fst (entry_change e)) ` set (take (k' - k) (drop k H))"
        using False by (auto dest: in_set_takeD)
      then show ?thesis unfolding t by (simp add: apply_log_untouched)
    qed
    have at: "entities (u s) f = ?M k f" if t: "(s, fvs) \<in> set ts" for s fvs
    proof -
      obtain k' where k': "k \<le> k'" "upstream u H E0 k' s" using bspec[OF ts(2) t] by auto
      then have "entities (u s) = ?M k'" by (simp add: upstream_def)
      with same[OF k'(1)] show ?thesis by (simp only:)
    qed
    have "?S f = ?M k f"
    proof (cases "?S f")
      case None
      then have no: "f \<notin> fst ` set (rev (concat (map snd ts)))" by (rule map_of_eq_None_iff[THEN iffD1])
      have no: "\<not> (\<exists>(s, fvs) \<in> set ts. f \<in> fst ` set fvs)"
      proof
        assume "\<exists>(s, fvs) \<in> set ts. f \<in> fst ` set fvs"
        then obtain s fvs where "(s, fvs) \<in> set ts" "f \<in> fst ` set fvs" by blast
        moreover have "set fvs \<subseteq> set (rev (concat (map snd ts)))" if "(s, fvs) \<in> set ts" using that by auto
        ultimately show False using no by blast
      qed
      have "\<not> (\<forall>(s, fvs) \<in> set ts. entities (u s) f \<noteq> None)"
        using ts(1)[unfolded scan_promise_def, THEN conjunct2, THEN spec, of f] no by blast
      then obtain s fvs where "(s, fvs) \<in> set ts" "entities (u s) f = None" by blast
      with at None show ?thesis by simp
    next
      case (Some m)
      then have "(f, m) \<in> set (concat (map snd ts))" by (metis map_of_SomeD set_rev)
      then obtain s fvs where t: "(s, fvs) \<in> set ts" "(f, m) \<in> set fvs" by auto
      have "entities (u s) f = Some m"
        using bspec[OF ts(1)[unfolded scan_promise_def, THEN conjunct1] t(1)] t(2) by auto
      with at[OF t(1)] Some show ?thesis by simp
    qed
    then show ?thesis unfolding H' by (simp add: apply_log_untouched[OF False])
  qed
qed

section \<open>A replica on its way\<close>

text \<open>
  The replica's cursor is an entry of the history, and the entries after it lead from the entities
  that it holds to those of the upstream.
\<close>

definition follows :: "stream_entry list \<Rightarrow> (string \<Rightarrow> string option) \<Rightarrow> content \<Rightarrow> bool" where
  "follows H E0 c \<longleftrightarrow> (\<exists>p. 0 < p \<and> p \<le> length H \<and> last_id c = Some (fst (H ! (p - 1))) \<and>
     apply_log (drop p H) (entities c) = apply_log H E0)"

lemma after_entry:
  assumes "ids_ok H" "0 < p" "p \<le> length H"
  shows "after (sid_of (fst (H ! (p - 1)))) H = drop p H"
  using after_nth[OF assms(1), of "p - 1" "length H"] assms(2,3) by simp

lemma follows_done:
  assumes H: "ids_ok H" "follows H E0 c" and c: "last_id c = Some (fst (last H))"
  shows "entities c = apply_log H E0"
proof -
  obtain p where p: "0 < p" "p \<le> length H" "last_id c = Some (fst (H ! (p - 1)))"
    "apply_log (drop p H) (entities c) = apply_log H E0" using H(2) by (auto simp: follows_def)
  have ne: "H \<noteq> []" using p(1,2) by auto
  then have "fst (H ! (length H - 1)) = fst (H ! (p - 1))" using p(3) c by (simp add: last_conv_nth)
  with after_entry[OF H(1) p(1,2)] after_entry[OF H(1), of "length H"] ne have "drop p H = []" by simp
  with p(4) show ?thesis by simp
qed

text \<open>The snapshot puts it there.\<close>

lemma snapshot_follows:
  assumes U: "redis_ok U u" and H: "ids_ok H" "log_ok H" "eids_ok E0" and up: "upstream u H E0 k s"
    and gen: "generate_frames U hscan J compress (True, True, True) scans s = Inr (lastID, frames)"
    and scans: "\<forall>(cancelled, answered, s') \<in> set scans. \<exists>k'. k \<le> k' \<and> upstream u H E0 k' s'"
    and promise: "scan_promise u (visited hscan scans 0)"
    and c: "entities c = fold put_ent (map pair_of (scanned hscan scans 0)) (\<lambda>_. None)" "last_id c = Some lastID"
  shows "follows H E0 c"
proof -
  obtain n where n: "streams (u s) changelogKey = drop n (take k H)" "k \<le> length H" using up by (auto simp: upstream_def)
  have ids: "ids_ok (drop n (take k H))" by (rule ids_ok_drop) (metis H(1) append_take_drop_id ids_ok_append)
  have last: "drop n (take k H) \<noteq> []" "lastID = fst (last (drop n (take k H)))"
    using gen stream_info[OF U ids n(1)[symmetric]] by (auto simp: generate_frames_def split: if_splits sum.splits)
  then have k: "0 < k" by (cases k) auto
  have "last (drop n (take k H)) = H ! (k - 1)"
    using last(1) n(2) k by (simp add: last_conv_nth)
  with last(2) c(2) have cur: "last_id c = Some (fst (H ! (k - 1)))" by simp
  have ts: "\<forall>(s', fvs) \<in> set (visited hscan scans 0). \<exists>k'. k \<le> k' \<and> upstream u H E0 k' s'"
  proof clarify
    fix s' fvs
    assume "(s', fvs) \<in> set (visited hscan scans 0)"
    from visited_states[OF this] obtain x a where "(x, a, s') \<in> set scans" by auto
    from bspec[OF scans this] show "\<exists>k'. k \<le> k' \<and> upstream u H E0 k' s'" by simp
  qed
  have keys: "\<forall>(s', fvs) \<in> set (visited hscan scans 0). \<forall>(f, m) \<in> set fvs. canonical_eid f"
  proof clarify
    fix s' fvs f m
    assume t: "(s', fvs) \<in> set (visited hscan scans 0)" "(f, m) \<in> set fvs"
    from bspec[OF ts t(1)] obtain k' where "entities (u s') = apply_log (take k' H) E0" by (auto simp: upstream_def)
    moreover have "log_ok (take k' H)" using H(2) by (auto simp: log_ok_def dest: in_set_takeD)
    ultimately have "eids_ok (entities (u s'))" using log_keys[OF _ H(3)] by metis
    moreover have "entities (u s') f = Some m"
      using bspec[OF promise[unfolded scan_promise_def, THEN conjunct1] t(1)] t(2) by auto
    ultimately show "canonical_eid f" by (auto simp: eids_ok_def)
  qed
  have "entities c = map_of (rev (concat (map snd (visited hscan scans 0))))"
    unfolding c(1) scanned_visited by (rule scanned_map[OF keys])
  with fuzzy_snapshot[OF H(2,3) n(2) promise ts] cur k n(2) show ?thesis by (auto simp: follows_def)
qed

text \<open>
  A connection to the stream: the upstream serves it from the replica's cursor, without trimming its
  changelog past that meanwhile, and it may be cut anywhere but inside the payload of a change.
\<close>

inductive connection ::
  "'u redis \<Rightarrow> ('u \<Rightarrow> content) \<Rightarrow> stream_entry list \<Rightarrow> 's redis \<Rightarrow> ('s \<Rightarrow> content) \<Rightarrow> (string \<Rightarrow> string) \<Rightarrow>
   (string \<Rightarrow> string \<Rightarrow> (string \<times> bool) option) \<Rightarrow> Writer \<times> 's \<Rightarrow> Writer \<times> 's \<Rightarrow> bool" for U u H R v rst inflate where
  served: "last_id (v (snd ws)) = Some since \<Longrightarrow> 0 \<le> limit \<Longrightarrow>
    \<forall>rd \<in> set rounds. \<exists>k. after (sid_of since) (streams (u (rd_state rd)) changelogKey) = take k (after (sid_of since) H) \<Longrightarrow>
    hr_Status resp = 200 \<Longrightarrow> openStreamBody inflate resp = Inr (body, read_error) \<Longrightarrow>
    cut_stream (serve_rounds U limit timeout rounds since 0) body \<Longrightarrow>
    connectStream R rst inflate (Some resp) c fates ws = (out, ws') \<Longrightarrow> connection U u H R v rst inflate ws ws'"
| refused: "case reply of None \<Rightarrow> True | Some resp \<Rightarrow> hr_Status resp \<noteq> 200 \<or> (\<exists>e. openStreamBody inflate resp = Inl e) \<Longrightarrow>
    connectStream R rst inflate reply c fates ws = (out, ws') \<Longrightarrow> connection U u H R v rst inflate ws ws'"

lemma connection_follows:
  assumes U: "redis_ok U u" and R: "redis_ok R v" and H: "ids_ok H" "log_ok H" and ev: "\<forall>e \<in> set H. event_ok R (entry_event e)"
  shows "connection U u H R v rst inflate ws ws' \<Longrightarrow> index_ok R (v (snd ws)) \<Longrightarrow> follows H E0 (v (snd ws)) \<Longrightarrow>
    index_ok R (v (snd ws')) \<and> follows H E0 (v (snd ws'))"
proof (induction ws ws' rule: connection.induct)
  case (served ws since limit rounds resp body read_error timeout c fates out ws')
  let ?E = "entities (v (snd ws))" and ?cs = "serve_rounds U limit timeout rounds since 0"
  obtain p where p: "0 < p" "p \<le> length H" "last_id (v (snd ws)) = Some (fst (H ! (p - 1)))"
    "apply_log (drop p H) ?E = apply_log H E0" using served.prems(2) by (auto simp: follows_def)
  let ?t = "sid_of since"
  have since: "since = fst (H ! (p - 1))" using served.hyps(1) p(3) by simp
  have in_H: "H ! (p - 1) \<in> set H" using p(1,2) by simp
  have t: "since = sid_str ?t" "sid64 ?t" using ids_okD[OF H(1) in_H] since by simp_all
  have F: "after ?t H = drop p H" using after_entry[OF H(1) p(1,2)] since by simp
  obtain j where j: "sent_events ?cs = map entry_event (take j (drop p H))"
    using serve_contiguous[OF U cursor_start(2,3)[OF H(1) t(2)] _ cursor_start(1)[OF H(1) t(2)] served.hyps(2), of rounds timeout]
      served.hyps(3) t(1) F by (auto simp: shows_part_def)
  let ?L = "take j (drop p H)"
  have sub: "set ?L \<subseteq> set H" using set_take_subset set_drop_subset by (metis subset_trans)
  then have ok: "\<forall>e \<in> set (sent_events ?cs). event_ok R e" using ev unfolding j by auto
  have log: "log_ok ?L" using H(2) sub by (auto simp: log_ok_def)
  note res = cut_stream_converges[OF R served.prems(1) served.hyps(1) ok served.hyps(4-7)]
  then obtain m where m: "index_ok R (v (snd ws'))"
    "on_course (fold event_change (sent_events ?cs) ?E) (sent_events ?cs) m since (v (snd ws'))" by blast
  have le: "m \<le> length ?L" using m(2) unfolding on_course_def j by simp
  have "fold event_change (map entry_event (drop m ?L)) (entities (v (snd ws'))) = fold event_change (map entry_event ?L) ?E"
    using m(2) unfolding on_course_def j by (simp add: drop_map)
  moreover have "log_ok (drop m ?L)" using log by (auto simp: log_ok_def dest: in_set_dropD)
  ultimately have "apply_log (drop m ?L) (entities (v (snd ws'))) = apply_log ?L ?E"
    using events_log[OF log] events_log[of "drop m ?L"] by simp
  moreover have "drop p H = ?L @ drop j (drop p H)" by (simp only: append_take_drop_id)
  moreover have "drop (p + m) H = drop m ?L @ drop j (drop p H)"
  proof -
    have "drop m (drop p H) = drop m (?L @ drop j (drop p H))" by (simp only: append_take_drop_id)
    with le show ?thesis by (simp add: add.commute)
  qed
  ultimately have "apply_log (drop (p + m) H) (entities (v (snd ws'))) = apply_log (drop p H) ?E"
    by (metis apply_log_append)
  moreover have "last_id (v (snd ws')) = Some (fst (H ! (p + m - 1)))"
  proof (cases "m = 0")
    case True
    with m(2) since show ?thesis by (simp add: on_course_def)
  next
    case False
    then have lt: "m - 1 < length ?L" using le by linarith
    then have "?L ! (m - 1) = H ! (p + m - 1)" using p(2) False by simp
    then have "sent_events ?cs ! (m - 1) = entry_event (H ! (p + m - 1))" unfolding j nth_map[OF lt] by (rule arg_cong)
    with m(2) False show ?thesis by (simp add: on_course_def)
  qed
  ultimately show ?case using m(1) p le by (intro conjI) (auto simp: follows_def intro!: exI[of _ "p + m"])
next
  case (refused reply c fates ws out ws')
  then show ?case by (auto simp: connectStream_def split: option.splits if_splits)
qed

definition replica_safe ::
  "'u redis \<Rightarrow> ('u \<Rightarrow> content) \<Rightarrow> stream_entry list \<Rightarrow> (string \<Rightarrow> string option) \<Rightarrow> 's redis \<Rightarrow> ('s \<Rightarrow> content) \<Rightarrow> Writer \<times> 's \<Rightarrow> bool" where
  "replica_safe U u H E0 R v ws \<longleftrightarrow> redis_ok U u \<and> redis_ok R v \<and> ids_ok H \<and> log_ok H \<and>
     (\<forall>e \<in> set H. event_ok R (entry_event e)) \<and> index_ok R (v (snd ws)) \<and> follows H E0 (v (snd ws))"

interpretation replica: invariant "connection U u H R v rst inflate" "replica_safe U u H E0 R v" for U u H R v rst inflate E0
proof unfold_locales
  fix x y
  assume step: "connection U u H R v rst inflate x y" and i: "replica_safe U u H E0 R v x"
  then have s: "redis_ok U u" "redis_ok R v" "ids_ok H" "log_ok H" "\<forall>e \<in> set H. event_ok R (entry_event e)"
    "index_ok R (v (snd x))" "follows H E0 (v (snd x))"
    by (simp_all add: replica_safe_def)
  from connection_follows[OF s(1-5) step s(6,7)] s show "replica_safe U u H E0 R v y" by (simp add: replica_safe_def)
qed

text \<open>
  Claim C6: a replica that fetched a snapshot, which was scanned while the upstream went on changing,
  and then reads the change stream over any number of connections, which may be cut anywhere but
  inside the payload of a change, and however its own pipes break, always has a cursor from which the upstream's changes lead to the
  upstream's entities; and when the cursor is at the end of the history, it holds exactly those.
\<close>

theorem replica_converges:
  assumes "redis_ok U u" and "redis_ok R v" and "json_ok J"
    and "ids_ok H" and "log_ok H" and "eids_ok E0" and "\<forall>e \<in> set H. event_ok R (entry_event e)"
    and "upstream u H E0 k s"
    and "generate_frames U hscan J compress (True, True, True) scans s = Inr (lastID, frames)"
    and "\<forall>(cancelled, answered, s') \<in> set scans. \<exists>k'. k \<le> k' \<and> upstream u H E0 k' s'"
    and "scan_promise u (visited hscan scans 0)"
    and "readable R J compress (scanned hscan scans 0) lastID frames"
    and "\<forall>j < length frames. inflate (concat (map compress (drop j frames))) = Some (concat (drop j frames), False)"
    and "index_ok R (v (snd ws))"
    and "resumable compress etag (scanned hscan scans 0) frames
      (resume_state (GetSyncStates R answered snapshot_keys (snd ws))) (entities (v (snd ws)))"
    and "fetchSnapshot R J inflate (\<lambda>req. Some (ServeContent etag (concat (map compress frames)) req)) answered call fates ws =
      (Inr i, ws1)"
    and "(connection U u H R v rst decode)\<^sup>*\<^sup>* ws1 ws2"
  shows "index_ok R (v (snd ws2)) \<and> follows H E0 (v (snd ws2)) \<and>
    (last_id (v (snd ws2)) = Some (fst (last H)) \<longrightarrow> entities (v (snd ws2)) = apply_log H E0)"
proof -
  note f = fetch_installs[OF assms(2,14,3,9,12,13,15,16)]
  then have "last_id (v (snd ws1)) = Some lastID" by (simp add: settled_def last_id_abstract del: abstract_sel)
  with snapshot_follows[OF assms(1,4-6,8-11)] f have "follows H E0 (v (snd ws1))" by blast
  with f assms(1,2,4,5,7) have "replica_safe U u H E0 R v ws1" by (simp add: replica_safe_def)
  from replica.always[OF assms(17) this] follows_done[OF assms(4)] show ?thesis by (auto simp: replica_safe_def)
qed

section \<open>Witness\<close>

text \<open>
  An entity that is stored before the snapshot and deleted after it; the snapshot has it, the
  stream says that it is gone.
\<close>

definition example_history :: "stream_entry list" where
  "example_history = [(sid_str (3, 0), change_fields (FormatInt 42) ''[]''), (sid_str (4, 0), change_fields (FormatInt 42) [])]"

definition example_upstream :: "nat \<Rightarrow> content" where
  "example_upstream k = \<lparr>hashes = (\<lambda>key. if key = entitiesKey then apply_log (take k example_history) (\<lambda>_. None) else Map.empty),
     rsets = (\<lambda>_. {}), zsets = (\<lambda>_. Map.empty), streams = (\<lambda>key. if key = changelogKey then take k example_history else [])\<rparr>"

lemma example_history_ok:
  "ids_ok example_history" "log_ok example_history" "eids_ok (\<lambda>_. None)"
  "\<forall>e \<in> set example_history. event_ok mem_redis (entry_event e)"
proof -
  have t: "sid64 (3, 0)" "sid64 (4, 0)" by (simp_all add: sid64_def)
  have "\<exists>t. sid64 t \<and> sid_str (3, 0) = sid_str t" "\<exists>t. sid64 t \<and> sid_str (4, 0) = sid_str t" using t by blast+
  with t show "ids_ok example_history" by (simp add: ids_ok_def ids_increasing_def example_history_def sid_less_def)
  have "\<exists>n m. int64 n \<and> change_fields (FormatInt 42) x = change_fields (FormatInt n) m" for x
    by (intro exI[of _ 42] exI[of _ x]) (simp add: int64_def)
  then show "log_ok example_history" by (simp add: log_ok_def example_history_def)
  show "eids_ok (\<lambda>_. None)" by (simp add: eids_ok_def)
  have p: "ParseInt (FormatInt 42) = (42, None)" using ParseInt_FormatInt[of 42] by (simp add: int64_def)
  have f: "sid_str (3, 0) = ''3-0''" "sid_str (4, 0) = ''4-0''" by code_simp+
  have m: "mappings_ok mem_redis ''[]''" using example_ent by (simp add: ent_ok_def)
  show "\<forall>e \<in> set example_history. event_ok mem_redis (entry_event e)"
    using m by (simp add: example_history_def entry_event_def change_fields_def p[unfolded format_42] event_ok_def event_lines_def
        FormatStreamChangeData_def line_fits_def streamBufferSize_def drop_cr_def format_42 f int64_def)
qed

lemma example_upstream: "upstream id example_history (\<lambda>_. None) 1 (example_upstream 1)"
  by (auto simp: upstream_def example_upstream_def example_history_def intro!: exI[of _ 0])

lemma example_promise: "scan_promise id (visited example_scan [(False, True, example_upstream 1)] 0)"
  by (auto simp: scan_promise_def example_scan_def example_upstream_def example_history_def apply_change_def format_42
      split: if_splits)

abbreviation example_connection :: "Writer \<times> content \<Rightarrow> Writer \<times> content \<Rightarrow> bool" where
  "example_connection \<equiv> connection mem_redis id example_history mem_redis id (\<lambda>_. []) (\<lambda>_ b. Some (b, False))"

lemma replica_converges_witness:
  "\<exists>ws1 ws2. fetchSnapshot mem_redis text_codec (\<lambda>b. Some (b, False)) (\<lambda>req. Some (ServeContent ''\"s\"'' example_lines req))
      True Answered [] example_start = (Inr (sid_str (3, 0)), ws1) \<and>
    example_connection ws1 ws2 \<and> follows example_history (\<lambda>_. None) (snd ws2)"
proof -
  let ?scans = "[(False, True, example_upstream 1)]" and ?fl = "\<lambda>b. Some (b, False)"
  have s1: "streams (id (example_upstream 1)) changelogKey = take 1 example_history" by (simp add: example_upstream_def)
  have "ids_ok (take 1 example_history)" by (metis example_history_ok(1) append_take_drop_id ids_ok_append)
  from stream_info[OF mem_redis_ok this s1[symmetric]]
  have "StreamInfo mem_redis True True True (example_upstream 1) = Inr (sid_str (3, 0), sid_str (3, 0), 1)"
    by (simp add: example_history_def)
  note gen = example_file[OF this, of "example_upstream 1"]
  have fresh: "resumable id ''\"s\"'' (scanned example_scan ?scans 0) [example_lines]
      (resume_state (GetSyncStates mem_redis True snapshot_keys (snd example_start))) (entities (id (snd example_start)))"
    using example_fresh by simp
  have room: "room id (snd example_start) (length (scanned example_scan ?scans 0))"
    unfolding example_scanned using example_room by simp
  from fetch_succeeds[OF mem_redis_ok example_fetch(1) text_codec_ok gen example_readable example_fetch(2,3) _ fresh room]
  obtain w s where run: "fetchSnapshot mem_redis text_codec ?fl
      (\<lambda>req. Some (ServeContent ''\"s\"'' (concat (map id [example_lines])) req)) True Answered [] example_start = (Inr (sid_str (3, 0)), w, s)"
    by (metis (no_types, lifting) list.distinct(1) fst_conv surj_pair)
  note conv = replica_converges[OF mem_redis_ok mem_redis_ok text_codec_ok example_history_ok example_upstream gen _ example_promise
      example_readable example_fetch(2,1) fresh run]
  have last: "last_id s = Some (sid_str (3, 0))"
    using fetch_installs[OF mem_redis_ok example_fetch(1) text_codec_ok gen example_readable example_fetch(2) fresh run]
    by (simp add: settled_def last_id_abstract del: abstract_sel)
  let ?round = "\<lparr>rd_cancelled = False, rd_answered = True, rd_state = example_upstream 2, rd_expired = False\<rparr>"
  let ?resp = "plain_reply (preamble @ concat (map render_chunk (serve_rounds mem_redis 5 0 [?round] (sid_str (3, 0)) 0)))"
  obtain out ws2 where con: "connectStream mem_redis (\<lambda>_. []) (\<lambda>_ b. Some (b, False)) (Some ?resp) Answered [good_fate] (w, s) = (out, ws2)"
    by (metis surj_pair)
  have "streams (id (rd_state ?round)) changelogKey = example_history" by (simp add: example_upstream_def example_history_def)
  then have parts: "\<forall>rd \<in> set [?round]. \<exists>k. after (sid_of (sid_str (3, 0))) (streams (id (rd_state rd)) changelogKey) =
      take k (after (sid_of (sid_str (3, 0))) example_history)"
    by (simp add: exI[of _ "length (after (sid_of (sid_str (3, 0))) example_history)"])
  have step: "example_connection (w, s) ws2"
    by (rule connection.served[OF _ _ parts _ open_plain cut_stream_full con]) (simp_all add: last)
  have "\<forall>(cancelled, answered, s') \<in> set ?scans. \<exists>k'. 1 \<le> k' \<and> upstream id example_history (\<lambda>_. None) k' s'"
    using example_upstream by auto
  from conv[OF this r_into_rtranclp[of example_connection, OF step]] have "follows example_history (\<lambda>_. None) (snd ws2)" by simp
  with run step show ?thesis by (intro exI[of _ "(w, s)"] exI[of _ ws2]) simp
qed

end
