(* ===== verification/SnapshotAttempt.thy ===== *)
theory SnapshotAttempt
  imports SnapshotRoundtrip
begin

text \<open>
  A fetch of a snapshot that may fail anywhere: the body ends after any of its lines, any pipe
  breaks at any of its commands. Whatever an attempt leaves behind, the next one may go on from it:
  the offset that is stored is that of a checkpoint of the file whose ETag is stored, and the
  entities before this checkpoint are in the store (\<open>on_file\<close>). The count beside the offset may be
  that of another checkpoint; then no attempt against the file gets past its first line.
\<close>

section \<open>Invariants of a pipe\<close>

lemma pipe_invariant:
  assumes R: "redis_ok R v" and c: "index_ok R (v (snd ws))"
    and st: "\<And>p e. p_err p = Some e \<Longrightarrow> p_err (build p) = Some e"
    and ok: "pipe_ok R (build \<lparr>p_err = None, p_cmds = []\<rparr>)"
    and step: "\<And>k a. k \<in> set (p_cmds (build \<lparr>p_err = None, p_cmds = []\<rparr>)) \<Longrightarrow> I a \<Longrightarrow> I (cmd_spec k a)"
    and i: "I (abstract (v (snd ws)))" and run: "run_pipe R f build ws = (err, ws')"
  shows "index_ok R (v (snd ws')) \<and> I (abstract (v (snd ws')))"
proof -
  let ?cs = "p_cmds (build \<lparr>p_err = None, p_cmds = []\<rparr>)"
  obtain ps where ps: "\<forall>p \<in> set ps. \<exists>n. p = take n ?cs"
    "abstract (v (snd (snd (run_pipe R f build ws)))) = prefixes_spec ps (abstract (v (snd ws)))"
    "index_ok R (v (snd (snd (run_pipe R f build ws))))"
    by (rule run_pipe_refines[where f = f and build = build, OF R c st ok])
  have "I (fold cmd_spec cs a)" if "I a" "set cs \<subseteq> set ?cs" for cs a
    using that by (induction cs arbitrary: a) (auto simp: step)
  then have "I (fold cmd_spec (take n ?cs) a)" if "I a" for n a using that set_take_subset by metis
  from prefixes_keep[where I = I, OF ps(1) this i] ps(2,3) run show ?thesis by simp
qed

section \<open>A place in a file\<close>

text \<open>The store agrees with the first \<open>n\<close> entities of a scan, wherever the later ones do not decide.\<close>

definition holds_before :: "SnapshotEntity list \<Rightarrow> nat \<Rightarrow> (string \<Rightarrow> string option) \<Rightarrow> bool" where
  "holds_before es n E \<longleftrightarrow>
     (\<forall>eid. eid \<notin> (\<lambda>x. FormatInt (se_QID x)) ` set (drop n es) \<longrightarrow>
        E eid = fold put_ent (map pair_of (take n es)) (\<lambda>_. None) eid)"

lemma put_ents_agree_at:
  "(eid \<notin> (\<lambda>(q, m). FormatInt q) ` set xs \<longrightarrow> E eid = E' eid) \<Longrightarrow> fold put_ent xs E eid = fold put_ent xs E' eid"
proof (induction xs arbitrary: E E')
  case Nil
  then show ?case by simp
next
  case (Cons x xs)
  obtain q m where x: "x = (q, m)" by fastforce
  have "fold put_ent xs (put_ent x E) eid = fold put_ent xs (put_ent x E') eid"
    by (rule Cons.IH) (use Cons.prems in \<open>auto simp: x put_ent_def\<close>)
  then show ?case by simp
qed

lemma pair_keys: "(\<lambda>(q, m). FormatInt q) ` set (map pair_of xs) = (\<lambda>x. FormatInt (se_QID x)) ` set xs"
  by (force simp: pair_of_def)

lemma holds_before_put:
  assumes "holds_before es n E" "set xs \<subseteq> set (map pair_of (drop n es))"
  shows "holds_before es n (fold put_ent xs E)"
  unfolding holds_before_def
proof (intro allI impI)
  fix eid
  assume eid: "eid \<notin> (\<lambda>x. FormatInt (se_QID x)) ` set (drop n es)"
  then have "eid \<notin> (\<lambda>(q, m). FormatInt q) ` set xs" using assms(2) unfolding pair_keys[symmetric] by blast
  with assms(1) eid show "fold put_ent xs E eid = fold put_ent (map pair_of (take n es)) (\<lambda>_. None) eid"
    by (simp add: put_ents_outside holds_before_def)
qed

lemma holds_before_later:
  assumes h: "holds_before es n E" and nm: "n \<le> m"
  shows "holds_before es m (fold put_ent (map pair_of (take (m - n) (drop n es))) E)"
  unfolding holds_before_def
proof (intro allI impI)
  fix eid
  let ?T = "take (m - n) (drop n es)"
  assume eid: "eid \<notin> (\<lambda>x. FormatInt (se_QID x)) ` set (drop m es)"
  have t: "take m es = take n es @ ?T" using take_add[of n "m - n" es] nm by simp
  have "drop n es = ?T @ drop m es" using append_take_drop_id[of "m - n" "drop n es"] nm by simp
  then have "set (drop n es) = set ?T \<union> set (drop m es)" by (metis set_append)
  then have "eid \<notin> (\<lambda>(q, m). FormatInt q) ` set (map pair_of ?T) \<longrightarrow>
      E eid = fold put_ent (map pair_of (take n es)) (\<lambda>_. None) eid"
    using h eid unfolding pair_keys by (auto simp: holds_before_def)
  from put_ents_agree_at[where xs = "map pair_of ?T" and E = E and eid = eid and
      E' = "fold put_ent (map pair_of (take n es)) (\<lambda>_. None)", OF this]
  show "fold put_ent (map pair_of ?T) E eid = fold put_ent (map pair_of (take m es)) (\<lambda>_. None) eid"
    by (simp add: t)
qed

lemma holds_before_all:
  assumes "holds_before es n E"
  shows "fold put_ent (map pair_of (drop n es)) E = fold put_ent (map pair_of es) (\<lambda>_. None)"
  unfolding drop_map[symmetric] by (rule put_all)
    (use assms in \<open>simp add: holds_before_def drop_map take_map image_image pair_of_def\<close>)

text \<open>
  The store of a replica that has no position yet, and may be reading the file with ETag \<open>etag\<close>,
  of which it has got \<open>p\<close> entities.
\<close>

definition unsynced :: "astore \<Rightarrow> bool" where
  "unsynced a \<longleftrightarrow> a_sync a ''last_replicated_id'' \<in> {None, Some []}"

definition on_file ::
  "(string \<Rightarrow> string) \<Rightarrow> string \<Rightarrow> SnapshotEntity list \<Rightarrow> string list \<Rightarrow> nat \<Rightarrow> astore \<Rightarrow> bool" where
  "on_file compress etag es frames p a \<longleftrightarrow> unsynced a \<and> a_sync a ''snapshot_etag'' \<in> {None, Some etag} \<and>
     (\<forall>x. a_sync a ''snapshot_resume_offset'' = Some x \<longrightarrow>
        (\<exists>j < length frames. x = FormatInt (compressed_size compress (take j frames)) \<and> j * SnapshotFrameSize \<le> p \<and>
           holds_before es (j * SnapshotFrameSize) (a_entities a)))"

lemma on_file_mono: "on_file compress etag es frames p a \<Longrightarrow> p \<le> p' \<Longrightarrow> on_file compress etag es frames p' a"
  unfolding on_file_def by (meson order_trans)

lemma on_file_upsert:
  assumes o': "on_file compress etag es frames p a" and x: "x \<in> set (map pair_of (drop p es))"
  shows "on_file compress etag es frames p (cmd_spec (raw_cmd x) a)"
proof -
  obtain q m where q: "x = (q, m)" by fastforce
  have e: "a_entities (cmd_spec (raw_cmd x) a) = fold put_ent [x] (a_entities a)"
    using raw_entities[of "[x]" a] by simp
  have s: "a_sync (cmd_spec (raw_cmd x) a) = a_sync a" by (simp add: q raw_cmd_def change_entity_def)
  have "holds_before es n (fold put_ent [x] (a_entities a))" if "holds_before es n (a_entities a)" "n \<le> p" for n
  proof (rule holds_before_put[OF that(1)])
    have "set (drop p es) \<subseteq> set (drop n es)" using that(2) by (rule set_drop_subset_set_drop)
    with x show "set [x] \<subseteq> set (map pair_of (drop n es))" by auto
  qed
  with o' show ?thesis unfolding on_file_def unsynced_def s e by blast
qed

lemma on_file_offset:
  assumes "on_file compress etag es frames p a" "i < length frames" "i * SnapshotFrameSize \<le> p"
    "holds_before es (i * SnapshotFrameSize) (a_entities a)"
  shows "on_file compress etag es frames p
    (cmd_spec (HSet k ''snapshot_resume_offset'' (FormatInt (compressed_size compress (take i frames)))) a)"
  using assms by (auto simp: on_file_def unsynced_def)

lemma on_file_etag: "on_file compress etag es frames p a \<Longrightarrow> on_file compress etag es frames p (cmd_spec (HSet k ''snapshot_etag'' etag) a)"
  by (simp add: on_file_def unsynced_def)

lemma on_file_other:
  assumes "f \<notin> {''last_replicated_id'', ''snapshot_etag'', ''snapshot_resume_offset''}"
  shows "on_file compress etag es frames p (cmd_spec (HSet k f x) a) \<longleftrightarrow> on_file compress etag es frames p a"
proof -
  have "a_entities (cmd_spec (HSet k f x) a) = a_entities a" by simp
  moreover have "a_sync (cmd_spec (HSet k f x) a) g = a_sync a g"
    if "g \<in> {''last_replicated_id'', ''snapshot_etag'', ''snapshot_resume_offset''}" for g
    using assms that by auto
  ultimately show ?thesis unfolding on_file_def unsynced_def by simp
qed

section \<open>The lines of a file\<close>

text \<open>What a reader needs of a file.\<close>

definition file_ok ::
  "'s redis \<Rightarrow> json_codec \<Rightarrow> (string \<Rightarrow> string) \<Rightarrow> SnapshotEntity list \<Rightarrow> string \<Rightarrow> string list \<Rightarrow> bool" where
  "file_ok R J compress es lastID frames \<longleftrightarrow>
     json_ok J \<and> readable R J compress es lastID frames \<and> (\<exists>fss. file_frames J compress es lastID frames fss)"

definition check_of :: "(string \<Rightarrow> string) \<Rightarrow> string list \<Rightarrow> nat \<Rightarrow> snap_item" where
  "check_of compress frames j = Check (compressed_size compress (take j frames)) (int (j * SnapshotFrameSize))"

lemma ents_check [simp]: "ents (check_of compress frames j # its) = ents its"
  by (simp add: check_of_def)

lemma file_items:
  assumes "file_ok R J compress es lastID frames" "j < length frames"
  obtains its where "concat (drop j frames) = snapshot_text J (check_of compress frames j # its) (lastID, int (length es))"
    "counted R J (int (j * SnapshotFrameSize)) (check_of compress frames j # its)"
    "ents its = map pair_of (drop (j * SnapshotFrameSize) es)"
    "\<forall>it \<in> set its. (\<exists>q m. it = Ent q m) \<or> (\<exists>i < length frames. it = check_of compress frames i)"
    "j * SnapshotFrameSize \<le> length es"
proof -
  obtain fss where J: "json_ok J" and ok: "readable R J compress es lastID frames" and F: "file_frames J compress es lastID frames fss"
    using assms(1) by (auto simp: file_ok_def)
  note f = file_frames_facts[OF F]
  have jl: "j < length fss" using assms(2) f(1) by simp
  have fr: "framed J compress fss" "\<forall>f \<in> set (butlast fss). length (ents f) = SnapshotFrameSize" using F by (simp_all add: file_frames_def)
  have head: "\<exists>xs. fss ! i = check_of compress frames i # map item_of xs" if i: "i < length fss" for i
  proof -
    obtain xs where "fss ! i = frame_of J compress (take i fss) xs" using fr(1)[unfolded framed_def] i by blast
    then have "fss ! i = check_of compress frames i # map item_of xs"
      unfolding check_of_def frame_of_def f(5)[OF i] f(2)[OF i] .
    then show ?thesis by blast
  qed
  obtain xs where xs: "fss ! j = check_of compress frames j # map item_of xs" using head[OF jl] by blast
  let ?its = "map item_of xs @ concat (drop (Suc j) fss)"
  have all: "concat (drop j fss) = check_of compress frames j # ?its"
    using Cons_nth_drop_Suc[OF jl, symmetric] xs by simp
  have "\<forall>x \<in> set (ents (concat fss)). ent_ok R x" using F ok by (auto simp: file_frames_def readable_def)
  from counted_from[OF fr this _ less_imp_le[OF jl]] file_checkpoints[OF J F ok]
  have "counted R J (int (length (ents (concat (take j fss))))) (concat (drop j fss))" by blast
  then have c: "counted R J (int (j * SnapshotFrameSize)) (check_of compress frames j # ?its)" unfolding f(2)[OF jl] all .
  have items: "\<forall>it \<in> set ?its. (\<exists>q m. it = Ent q m) \<or> (\<exists>i < length frames. it = check_of compress frames i)"
  proof
    fix it
    assume "it \<in> set ?its"
    then consider x where "it = item_of x" | f' where "f' \<in> set fss" "it \<in> set f'" by (auto dest: in_set_dropD)
    then show "(\<exists>q m. it = Ent q m) \<or> (\<exists>i < length frames. it = check_of compress frames i)"
    proof cases
      case 1
      then show ?thesis by (simp add: item_of_def)
    next
      case 2
      then obtain i where i: "i < length fss" "f' = fss ! i" by (metis in_set_conv_nth)
      from head[OF i(1)] 2(2) i f(1) show ?thesis by (auto simp: item_of_def)
    qed
  qed
  show thesis
  proof (rule that[OF _ c _ items f(4)[OF jl]])
    show "concat (drop j frames) = snapshot_text J (check_of compress frames j # ?its) (lastID, int (length es))"
      using f(6)[OF jl] by (simp add: all snapshot_text_def frame_text_def AppendSnapshotDoneLine_def done_of_def unlines_def)
    show "ents ?its = map pair_of (drop (j * SnapshotFrameSize) es)"
      using f(3)[OF jl] by (simp add: all check_of_def)
  qed
qed

text \<open>A body that ends after one of its lines, or before the first.\<close>

definition cut_after_line :: "string \<Rightarrow> string \<Rightarrow> bool" where
  "cut_after_line text t \<longleftrightarrow> (\<exists>rest. text = t @ rest) \<and> (t = [] \<or> last t = newline)"

lemma cut_lines:
  "cut_after_line (unlines ls) t \<Longrightarrow> \<forall>l \<in> set ls. newline \<notin> set l \<Longrightarrow> \<exists>k. t = unlines (take k ls)"
proof (induction ls arbitrary: t)
  case Nil
  then show ?case by (simp add: cut_after_line_def)
next
  case (Cons l ls)
  obtain rest where t: "l @ newline # unlines ls = t @ rest" "t = [] \<or> last t = newline"
    using Cons.prems(1) by (auto simp: cut_after_line_def)
  show ?case
  proof (cases "t = []")
    case True
    then show ?thesis by (intro exI[of _ 0]) simp
  next
    case False
    have "\<exists>t'. t = l @ newline # t'"
    proof (cases "length t \<le> length l")
      case True
      then have "t = take (length t) l" using t(1) by (metis append_eq_append_conv_if append_take_drop_id)
      then have "last t \<in> set l" using False by (metis last_in_set in_set_takeD)
      with t(2) False Cons.prems(2) show ?thesis by auto
    next
      case long: False
      then have "take (length l) t = l" "drop (length l) t @ rest = newline # unlines ls" "drop (length l) t \<noteq> []"
        using t(1) by (auto simp: append_eq_append_conv_if)
      moreover from this(1) have "t = l @ drop (length l) t" by (metis append_take_drop_id)
      ultimately show ?thesis by (cases "drop (length l) t") (metis, metis append_Cons list.inject)
    qed
    then obtain t' where t': "t = l @ newline # t'" by blast
    then have "cut_after_line (unlines ls) t'" using t by (auto simp: cut_after_line_def split: if_splits)
    then obtain k where "t' = unlines (take k ls)" using Cons.IH Cons.prems(2) by auto
    with t' show ?thesis by (intro exI[of _ "Suc k"]) simp
  qed
qed

section \<open>Reading while the store keeps up\<close>

text \<open>
  The client has read the entities \<open>pre\<close> after the first \<open>n0\<close> of the file; those that are not in its
  batch are in the store. \<open>E0\<close> is what the store held at first.
\<close>

definition tracking ::
  "'s redis \<Rightarrow> ('s \<Rightarrow> content) \<Rightarrow> (string \<Rightarrow> string) \<Rightarrow> string \<Rightarrow> SnapshotEntity list \<Rightarrow> string list \<Rightarrow> nat \<Rightarrow>
   (string \<Rightarrow> string option) \<Rightarrow> (int \<times> string) list \<Rightarrow> 's snap_state \<Rightarrow> bool" where
  "tracking R v compress etag es frames n0 E0 pre st \<longleftrightarrow> \<not> sn_done st \<and> index_ok R (v (snd (sn_ws st))) \<and>
     (\<exists>n \<le> length pre. sn_applied st = int n \<and> sn_batch st = map raw_rec (drop n pre) \<and>
        entities (v (snd (sn_ws st))) = fold put_ent (take n pre) E0 \<and>
        on_file compress etag es frames (n0 + n) (abstract (v (snd (sn_ws st)))))"

definition left_behind ::
  "'s redis \<Rightarrow> ('s \<Rightarrow> content) \<Rightarrow> (string \<Rightarrow> string) \<Rightarrow> string \<Rightarrow> SnapshotEntity list \<Rightarrow> string list \<Rightarrow> Writer \<times> 's \<Rightarrow> bool" where
  "left_behind R v compress etag es frames ws \<longleftrightarrow>
     index_ok R (v (snd ws)) \<and> (\<exists>p. on_file compress etag es frames p (abstract (v (snd ws))))"

definition part_of_file :: "SnapshotEntity list \<Rightarrow> nat \<Rightarrow> (int \<times> string) list \<Rightarrow> bool" where
  "part_of_file es n0 pre \<longleftrightarrow> (\<exists>suf. map pair_of (drop n0 es) = pre @ suf)"

lemma part_of_file_take: "part_of_file es n0 pre \<Longrightarrow> pre = map pair_of (take (length pre) (drop n0 es))"
  by (auto simp: part_of_file_def take_map[symmetric])

lemma part_of_file_drop:
  assumes "part_of_file es n0 pre" "n \<le> length pre"
  shows "set (drop n pre) \<subseteq> set (map pair_of (drop (n0 + n) es))"
proof -
  obtain suf where "map pair_of (drop n0 es) = pre @ suf" using assms(1) by (auto simp: part_of_file_def)
  from arg_cong[OF this, of "drop n"] assms(2) have "map pair_of (drop (n0 + n) es) = drop n pre @ suf"
    by (simp add: drop_map add.commute)
  then show ?thesis by simp
qed

lemma part_of_file_ok:
  assumes "part_of_file es n0 pre" "\<forall>x \<in> set es. ent_ok R (pair_of x)"
  shows "\<forall>x \<in> set pre. ent_ok R x"
proof -
  have "set pre \<subseteq> set (map pair_of (drop n0 es))" using part_of_file_drop[OF assms(1), of 0] by simp
  with assms(2) show ?thesis by (auto dest!: in_set_dropD)
qed

lemma flush_tracking:
  assumes R: "redis_ok R v" and es: "\<forall>x \<in> set es. ent_ok R (pair_of x)" and pre: "part_of_file es n0 pre"
    and t: "tracking R v compress etag es frames n0 E0 pre st" and run: "flushBatch R st = (err, st')"
  shows "if err = None then tracking R v compress etag es frames n0 E0 pre st' \<and> sn_batch st' = [] \<and>
      sn_applied st' = int (length pre) \<and> entities (v (snd (sn_ws st'))) = fold put_ent pre E0 \<and>
      on_file compress etag es frames (n0 + length pre) (abstract (v (snd (sn_ws st'))))
    else left_behind R v compress etag es frames (sn_ws st')"
proof -
  obtain n where n: "n \<le> length pre" "sn_applied st = int n" "sn_batch st = map raw_rec (drop n pre)"
    "entities (v (snd (sn_ws st))) = fold put_ent (take n pre) E0" "\<not> sn_done st" "index_ok R (v (snd (sn_ws st)))"
    "on_file compress etag es frames (n0 + n) (abstract (v (snd (sn_ws st))))"
    using t by (auto simp: tracking_def)
  let ?xs = "drop n pre"
  show ?thesis
  proof (cases "?xs = []")
    case True
    with run n have "err = None" "st' = st" by (simp_all add: flushBatch_def)
    with True n t show ?thesis by simp
  next
    case False
    let ?b = "fold UpsertRawEntity (map raw_rec ?xs)" and ?new = "\<lparr>p_err = None, p_cmds = []\<rparr>"
    obtain e ws' where p: "run_pipe R (fst (next_fate (sn_fates st))) ?b (sn_ws st) = (e, ws')" by (metis surj_pair)
    have ok: "\<forall>x \<in> set ?xs. ent_ok R x" using part_of_file_ok[OF pre es] by (auto dest: in_set_dropD)
    have cmds: "?b ?new = \<lparr>p_err = None, p_cmds = map raw_cmd ?xs\<rparr>" using raw_queued[OF _ ok, of ?new] by simp
    have pok: "pipe_ok R (?b ?new)" unfolding cmds using ok by (auto simp: pipe_ok_def raw_cmd_def ent_ok_def)
    have "on_file compress etag es frames (n0 + n) (cmd_spec k a)"
      if "k \<in> set (p_cmds (?b ?new))" "on_file compress etag es frames (n0 + n) a" for k a
      using that part_of_file_drop[OF pre n(1)] on_file_upsert[OF that(2)] unfolding cmds by auto
    from pipe_invariant[where build = ?b, OF R n(6) raw_sticky pok this n(7) p]
    have inv: "index_ok R (v (snd ws'))" "on_file compress etag es frames (n0 + n) (abstract (v (snd ws')))" by simp_all
    show ?thesis
    proof (cases e)
      case (Some e')
      with run p False n(3) have "err \<noteq> None" "sn_ws st' = ws'" by (auto simp: flushBatch_def)
      with inv show ?thesis by (auto simp: left_behind_def)
    next
      case None
      with run p False n(2,3) have out: "err = None" "sn_ws st' = ws'" "sn_batch st' = []" "sn_done st' = sn_done st"
        "sn_applied st' = int (length pre)"
        using n(1) by (auto simp: flushBatch_def)
      have "entities (v (snd ws')) = fold put_ent ?xs (fold put_ent (take n pre) E0)"
        using flush_raw[OF R n(6) ok False p[unfolded None]] n(4) by simp
      also have "\<dots> = fold put_ent (take n pre @ ?xs) E0" by (simp only: fold_append comp_apply)
      finally have "entities (v (snd ws')) = fold put_ent pre E0" by simp
      with out inv on_file_mono[OF inv(2), of "n0 + length pre"] n(1,5) show ?thesis
        by (auto simp: tracking_def intro!: exI[of _ "length pre"])
    qed
  qed
qed

lemma entity_tracking:
  assumes R: "redis_ok R v" and es: "\<forall>x \<in> set es. ent_ok R (pair_of x)" and pre: "part_of_file es n0 (pre @ [(q, m)])"
    and t: "tracking R v compress etag es frames n0 E0 pre st"
    and run: "snapshot_line R J base (item_line J (Ent q m)) st = (err, st')"
  shows "if err = None then tracking R v compress etag es frames n0 E0 (pre @ [(q, m)]) st'
    else left_behind R v compress etag es frames (sn_ws st')"
proof -
  let ?st = "st\<lparr>sn_batch := sn_batch st @ [raw_rec (q, m)]\<rparr>"
  have "\<not> sn_done st" using t by (simp add: tracking_def)
  have x: "ent_ok R (q, m)" using part_of_file_ok[OF pre es] by simp
  then have "0 \<le> q" "int64 q" "m \<noteq> []" by (auto simp: ent_ok_def mappings_ok_def)
  then have "ParseSnapshotEntityLine (entity_line (q, m)) = Inr (q, m)" "ClassifySnapshotLine (entity_line (q, m)) = LineEntity"
    using entity_line_class[of q m] by (simp_all add: entity_line(1) parse_entity_line)
  then have line: "(if snapshotBatchSize \<le> length (sn_batch ?st) then flushBatch R ?st else (None, ?st)) = (err, st')"
    using run \<open>\<not> sn_done st\<close> by (auto simp: snapshot_line_def Let_def raw_rec_def split: if_splits)
  have t': "tracking R v compress etag es frames n0 E0 (pre @ [(q, m)]) ?st"
  proof -
    obtain n where "n \<le> length pre" "sn_applied st = int n" "sn_batch st = map raw_rec (drop n pre)"
      "entities (v (snd (sn_ws st))) = fold put_ent (take n pre) E0"
      "on_file compress etag es frames (n0 + n) (abstract (v (snd (sn_ws st))))"
      using t by (auto simp: tracking_def)
    with t show ?thesis by (auto simp: tracking_def intro!: exI[of _ n])
  qed
  show ?thesis
  proof (cases "snapshotBatchSize \<le> length (sn_batch ?st)")
    case True
    with line have "flushBatch R ?st = (err, st')" by simp
    from flush_tracking[OF R es pre t' this] show ?thesis by (auto split: if_splits)
  next
    case False
    with line have "err = None" "st' = ?st" by auto
    with t' show ?thesis by simp
  qed
qed

lemma part_of_file_append: "part_of_file es n0 (a @ b) \<Longrightarrow> part_of_file es n0 a"
  by (auto simp: part_of_file_def)

text \<open>What is in the store at a checkpoint.\<close>

lemma at_checkpoint:
  assumes h: "holds_before es n0 E0" and pre: "part_of_file es n0 pre"
  shows "holds_before es (n0 + length pre) (fold put_ent pre E0)"
  using holds_before_later[OF h, of "n0 + length pre"] part_of_file_take[OF pre] by simp

lemma checkpoint_tracking:
  assumes R: "redis_ok R v" and J: "json_ok J" and es: "\<forall>x \<in> set es. ent_ok R (pair_of x)"
    and pre: "part_of_file es n0 pre" and h: "holds_before es n0 E0"
    and ok: "counted R J (int n0 + int (length pre)) [check_of compress frames i]" and i: "i < length frames"
    and t: "tracking R v compress etag es frames n0 E0 pre st"
    and run: "snapshot_line R J (int n0) (item_line J (check_of compress frames i)) st = (err, st')"
  shows "if err = None then tracking R v compress etag es frames n0 E0 pre st'
    else left_behind R v compress etag es frames (sn_ws st')"
proof -
  let ?o = "compressed_size compress (take i frames)" and ?k = "int (i * SnapshotFrameSize)"
  let ?cp = "checkpoint_of (?o, ?k)"
  let ?line = "marshal_checkpoint J ?cp" and ?b = "checkpoint_pipe ?cp" and ?new = "\<lparr>p_err = None, p_cmds = []\<rparr>"
  have ck: "?k = int n0 + int (length pre)" and kp: "count_pair (?o, ?k)" using ok unfolding check_of_def counted.simps by blast+
  have k: "?k = int (n0 + length pre)" "count_pair (?o, ?k)" using ck kp by (simp_all only: of_nat_add)
  have n: "i * SnapshotFrameSize = n0 + length pre" using k(1) unfolding of_nat_eq_iff .
  note j = json_ok_checkpoint[OF J k(2)]
  have "\<not> sn_done st" "ClassifySnapshotLine ?line = LineControl" using t j(1) by (simp_all add: tracking_def json_line_def)
  then have cl: "control_line R J (int n0) ?line st = (err, st')"
    using run unfolding check_of_def item_line.simps by (simp add: snapshot_line_def)
  obtain e1 st1 where fl: "flushBatch R st = (e1, st1)" by fastforce
  note f = flush_tracking[OF R es pre t fl]
  show ?thesis
  proof (cases e1)
    case (Some e)
    with cl fl f show ?thesis by (auto simp: control_line_def)
  next
    case None
    with f have f1: "tracking R v compress etag es frames n0 E0 pre st1" "sn_batch st1 = []" "sn_applied st1 = int (length pre)"
      "entities (v (snd (sn_ws st1))) = fold put_ent pre E0"
      "on_file compress etag es frames (n0 + length pre) (abstract (v (snd (sn_ws st1))))" by simp_all
    obtain e2 ws' where p: "run_pipe R (fst (next_fate (sn_fates st1))) ?b (sn_ws st1) = (e2, ws')" by (metis surj_pair)
    have "cp_EntitiesBefore ?cp = int n0 + sn_applied st1" using k(1) f1(3) by (simp only: checkpoint_of_def) simp
    then have out: "err = None" "st' = st1\<lparr>sn_ws := ws', sn_fates := snd (next_fate (sn_fates st1))\<rparr>"
      using cl fl None j(2,3) p by (simp_all add: control_line_def Let_def)
    let ?I = "\<lambda>a. on_file compress etag es frames (n0 + length pre) a \<and> a_entities a = fold put_ent pre E0"
    have cmds: "p_cmds (?b ?new) = [HSet metaKey ''snapshot_resume_offset'' (FormatInt ?o), HSet metaKey ''snapshot_resume_entities'' (FormatInt ?k)]"
      by (simp add: checkpoint_pipe_def pipe_queues checkpoint_of_def)
    have pok: "pipe_ok R (?b ?new)" unfolding pipe_ok_def cmds by simp
    have hb: "holds_before es (i * SnapshotFrameSize) (fold put_ent pre E0)" unfolding n by (rule at_checkpoint[OF h pre])
    have step: "?I (cmd_spec k a)" if "k \<in> set (p_cmds (?b ?new))" "?I a" for k a
    proof -
      have "on_file compress etag es frames (n0 + length pre) (cmd_spec (HSet metaKey ''snapshot_resume_offset'' (FormatInt ?o)) a)"
        by (rule on_file_offset) (use that(2) hb i n in auto)
      moreover have "on_file compress etag es frames (n0 + length pre) (cmd_spec (HSet metaKey ''snapshot_resume_entities'' x) a)" for x
        using that(2) by (simp add: on_file_other del: cmd_spec.simps)
      ultimately show ?thesis using that unfolding cmds by auto
    qed
    have idx: "index_ok R (v (snd (sn_ws st1)))" using f1(1) by (simp add: tracking_def)
    have "?I (abstract (v (snd (sn_ws st1))))" using f1(4,5) by simp
    from pipe_invariant[where build = ?b and I = ?I, OF R idx snap_pipes(3) pok step this p]
    have "index_ok R (v (snd ws'))" "?I (abstract (v (snd ws')))" by simp_all
    with f1(1-3) show ?thesis by (auto simp: out tracking_def intro!: exI[of _ "length pre"])
  qed
qed

lemma lines_tracking:
  assumes R: "redis_ok R v" and J: "json_ok J" and es: "\<forall>x \<in> set es. ent_ok R (pair_of x)" and h: "holds_before es n0 E0"
  shows "part_of_file es n0 (pre @ ents its) \<Longrightarrow> counted R J (int n0 + int (length pre)) its \<Longrightarrow>
    \<forall>it \<in> set its. (\<exists>q m. it = Ent q m) \<or> (\<exists>i < length frames. it = check_of compress frames i) \<Longrightarrow>
    tracking R v compress etag es frames n0 E0 pre st \<Longrightarrow>
    for_each (snapshot_line R J (int n0)) (map (item_line J) its) st = (err, st') \<Longrightarrow>
    if err = None then tracking R v compress etag es frames n0 E0 (pre @ ents its) st'
    else left_behind R v compress etag es frames (sn_ws st')"
proof (induction its arbitrary: pre st)
  case Nil
  then show ?case by auto
next
  case (Cons it its)
  obtain e st1 where one: "snapshot_line R J (int n0) (item_line J it) st = (e, st1)" by fastforce
  have part: "part_of_file es n0 (pre @ ents [it])" "part_of_file es n0 ((pre @ ents [it]) @ ents its)" "part_of_file es n0 pre"
    using Cons.prems(1) ents_append[of "[it]" its] part_of_file_append by (auto simp: append_assoc)
  have cnt: "counted R J (int n0 + int (length pre)) [it]" "counted R J (int n0 + int (length (pre @ ents [it]))) its"
    using Cons.prems(2) by (cases it; simp add: algebra_simps)+
  have step: "if e = None then tracking R v compress etag es frames n0 E0 (pre @ ents [it]) st1
    else left_behind R v compress etag es frames (sn_ws st1)"
  proof (cases it)
    case (Ent q m)
    with entity_tracking[OF R es _ Cons.prems(4)] part(1) one show ?thesis by simp
  next
    case (Check o' k)
    then obtain i where i: "i < length frames" "it = check_of compress frames i" using Cons.prems(3) by auto
    from checkpoint_tracking[OF R J es part(3) h _ i(1) Cons.prems(4)] cnt(1) one i(2) Check show ?thesis by simp
  qed
  show ?case
  proof (cases e)
    case (Some x)
    with Cons.prems(5) one step show ?thesis by auto
  next
    case None
    with Cons.prems(5) one have rest: "for_each (snapshot_line R J (int n0)) (map (item_line J) its) st1 = (err, st')" by simp
    have "tracking R v compress etag es frames n0 E0 (pre @ ents [it]) st1" using step None by simp
    from Cons.IH[OF part(2) cnt(2) _ this rest] Cons.prems(3) ents_append[of "[it]" its] show ?thesis
      by (auto split: if_splits)
  qed
qed

lemma tracking_left: "tracking R v compress etag es frames n0 E0 pre st \<Longrightarrow> left_behind R v compress etag es frames (sn_ws st)"
  by (auto simp: tracking_def left_behind_def)

section \<open>An attempt\<close>

text \<open>What an attempt leaves: a place in the file, or all of it with the position that goes with it.\<close>

definition installed :: "SnapshotEntity list \<Rightarrow> string \<Rightarrow> astore \<Rightarrow> bool" where
  "installed es lastID a \<longleftrightarrow> a_entities a = fold put_ent (map pair_of es) (\<lambda>_. None) \<and>
     a_sync a ''last_replicated_id'' = Some lastID"

definition attempt_end ::
  "'s redis \<Rightarrow> ('s \<Rightarrow> content) \<Rightarrow> (string \<Rightarrow> string) \<Rightarrow> string \<Rightarrow> SnapshotEntity list \<Rightarrow> string list \<Rightarrow> string \<Rightarrow>
   'e + string \<Rightarrow> Writer \<times> 's \<Rightarrow> bool" where
  "attempt_end R v compress etag es frames lastID out ws \<longleftrightarrow> index_ok R (v (snd ws)) \<and>
     (left_behind R v compress etag es frames ws \<or> installed es lastID (abstract (v (snd ws)))) \<and>
     (\<forall>i. out = Inr i \<longrightarrow> i = lastID \<and> installed es lastID (abstract (v (snd ws))))"

lemma attempt_failed: "left_behind R v compress etag es frames ws \<Longrightarrow> attempt_end R v compress etag es frames lastID (Inl e) ws"
  by (simp add: attempt_end_def left_behind_def)

lemma done_attempt:
  assumes R: "redis_ok R v" and c: "index_ok R (v (snd ws))"
    and a: "on_file compress etag es frames p (abstract (v (snd ws)))"
    and E: "entities (v (snd ws)) = fold put_ent (map pair_of es) (\<lambda>_. None)"
    and run: "run_pipe R f (done_pipe lastID n) ws = (err, ws')"
  shows "attempt_end R v compress etag es frames lastID (case err of None \<Rightarrow> Inr lastID | Some e \<Rightarrow> Inl e) ws'"
proof -
  let ?b = "done_pipe lastID n" and ?new = "\<lparr>p_err = None, p_cmds = []\<rparr>"
  let ?I = "\<lambda>a. a_entities a = fold put_ent (map pair_of es) (\<lambda>_. None) \<and>
    (on_file compress etag es frames p a \<or> a_sync a ''last_replicated_id'' = Some lastID)"
  have pok: "pipe_ok R (?b ?new)" unfolding pipe_ok_def done_cmds by simp
  have step: "?I (cmd_spec k a)" if "k \<in> set (p_cmds (?b ?new))" "?I a" for k a
    using that unfolding done_cmds by (auto simp: on_file_def unsynced_def)
  have "?I (abstract (v (snd ws)))" using a E by simp
  from pipe_invariant[where build = ?b and I = ?I, OF R c snap_pipes(5) pok step this run]
  have i: "index_ok R (v (snd ws'))" "?I (abstract (v (snd ws')))" by simp_all
  have "installed es lastID (abstract (v (snd ws')))" if "err = None"
    using done_run[OF R c run[unfolded that]] E by (simp add: installed_def settled_def del: abstract_sel) simp
  with i show ?thesis by (auto simp: attempt_end_def left_behind_def installed_def split: option.splits)
qed

lemma done_line:
  assumes R: "redis_ok R v" and J: "json_ok J" and es: "\<forall>x \<in> set es. ent_ok R (pair_of x)"
    and dn: "done_pair (lastID, n)" and pre: "part_of_file es n0 pre"
    and t: "tracking R v compress etag es frames n0 E0 pre st"
    and run: "snapshot_line R J (int n0) (marshal_done J (done_of (lastID, n))) st = (err, st')"
  shows "if err = None then sn_done st' \<and> sn_id st' = lastID \<and> sn_batch st' = [] \<and> index_ok R (v (snd (sn_ws st'))) \<and>
      entities (v (snd (sn_ws st'))) = fold put_ent pre E0 \<and> (\<exists>p. on_file compress etag es frames p (abstract (v (snd (sn_ws st')))))
    else left_behind R v compress etag es frames (sn_ws st')"
proof -
  let ?line = "marshal_done J (done_of (lastID, n))"
  note j = json_ok_done[OF J dn]
  have "\<not> sn_done st" "ClassifySnapshotLine ?line = LineControl" using t j(1) by (simp_all add: tracking_def json_line_def)
  then have cl: "control_line R J (int n0) ?line st = (err, st')" using run by (simp add: snapshot_line_def)
  obtain e1 st1 where fl: "flushBatch R st = (e1, st1)" by fastforce
  note f = flush_tracking[OF R es pre t fl]
  show ?thesis
  proof (cases e1)
    case (Some e)
    with cl fl f show ?thesis by (auto simp: control_line_def)
  next
    case None
    with f have f1: "tracking R v compress etag es frames n0 E0 pre st1" "sn_batch st1 = []"
      "entities (v (snd (sn_ws st1))) = fold put_ent pre E0"
      "on_file compress etag es frames (n0 + length pre) (abstract (v (snd (sn_ws st1))))" by simp_all
    consider "err = None" "st' = st1\<lparr>sn_id := lastID, sn_done := True\<rparr>" | "err \<noteq> None" "st' = st1"
      using cl fl None j(2,3)
      by (auto simp: control_line_def Let_def SnapshotControlTypeDone_def SnapshotControlTypeCheckpoint_def done_of_def split: if_splits)
    then show ?thesis
    proof cases
      case 1
      have "index_ok R (v (snd (sn_ws st1)))" using f1(1) by (simp add: tracking_def)
      with 1 f1(2-4) show ?thesis by (simp, blast)
    next
      case 2
      with tracking_left[OF f1(1)] show ?thesis by auto
    qed
  qed
qed

text \<open>The end of a body: with the done line, the metadata is set; without it, the attempt fails.\<close>

lemma finish_attempt:
  assumes R: "redis_ok R v" and es: "\<forall>x \<in> set es. ent_ok R (pair_of x)"
    and run: "(case flushBatch R st of
        (Some e, st1) \<Rightarrow> (Inl e, sn_ws st1)
      | (None, st1) \<Rightarrow>
          if broken then (Inl ScanFailed, sn_ws st1)
          else if \<not> sn_done st1 then (Inl MissingDone, sn_ws st1)
          else (case run_pipe R (fst (next_fate (sn_fates st1))) (done_pipe (sn_id st1) (base + sn_applied st1)) (sn_ws st1) of
                  (Some e, ws') \<Rightarrow> (Inl (StoreFailed ''set metadata'' e), ws')
                | (None, ws') \<Rightarrow> (Inr (sn_id st1), ws'))) = (out, ws')"
  shows "tracking R v compress etag es frames n0 E0 pre st \<Longrightarrow> part_of_file es n0 pre \<Longrightarrow>
      attempt_end R v compress etag es frames lastID out ws'"
    and "sn_done st \<Longrightarrow> sn_id st = lastID \<Longrightarrow> sn_batch st = [] \<Longrightarrow> index_ok R (v (snd (sn_ws st))) \<Longrightarrow>
      entities (v (snd (sn_ws st))) = fold put_ent (map pair_of es) (\<lambda>_. None) \<Longrightarrow>
      on_file compress etag es frames p (abstract (v (snd (sn_ws st)))) \<Longrightarrow>
      attempt_end R v compress etag es frames lastID out ws'"
proof -
  assume t: "tracking R v compress etag es frames n0 E0 pre st" and pre: "part_of_file es n0 pre"
  obtain e st1 where fl: "flushBatch R st = (e, st1)" by fastforce
  note f = flush_tracking[OF R es pre t fl]
  have "left_behind R v compress etag es frames (sn_ws st1)"
    using f tracking_left by (cases e) (simp, blast, simp)
  moreover have "\<not> sn_done st1" if "e = None" using f that by (simp add: tracking_def)
  ultimately show "attempt_end R v compress etag es frames lastID out ws'"
    using run fl by (cases e) (auto split: if_splits intro!: attempt_failed)
next
  assume st: "sn_done st" "sn_id st = lastID" "sn_batch st = []" "index_ok R (v (snd (sn_ws st)))"
    "entities (v (snd (sn_ws st))) = fold put_ent (map pair_of es) (\<lambda>_. None)"
    "on_file compress etag es frames p (abstract (v (snd (sn_ws st))))"
  have fl: "flushBatch R st = (None, st)" using st(3) by (simp add: flushBatch_def)
  show "attempt_end R v compress etag es frames lastID out ws'"
  proof (cases broken)
    case True
    with run fl st(4,6) show ?thesis by (auto simp: attempt_end_def left_behind_def)
  next
    case False
    obtain e ws1 where p: "run_pipe R (fst (next_fate (sn_fates st))) (done_pipe (sn_id st) (base + sn_applied st)) (sn_ws st) = (e, ws1)"
      by (metis surj_pair)
    from done_attempt[OF R st(4,6,5) p[unfolded st(2)]] run fl False st(1,2) p show ?thesis
      by (cases e) (auto simp: attempt_end_def)
  qed
qed

text \<open>A client that starts at a checkpoint of the file, with what is before it in its store.\<close>

lemma apply_attempt:
  assumes R: "redis_ok R v" and F: "file_ok R J compress es lastID frames" and j: "j < length frames"
    and c: "index_ok R (v (snd ws))" and a: "on_file compress etag es frames (j * SnapshotFrameSize) (abstract (v (snd ws)))"
    and h: "holds_before es (j * SnapshotFrameSize) (entities (v (snd ws)))"
    and t: "cut_after_line (concat (drop j frames)) t"
    and run: "apply_snapshot R J (int (j * SnapshotFrameSize)) (t, read_error) fates ws = (out, ws')"
  shows "attempt_end R v compress etag es frames lastID out ws'"
proof -
  let ?n0 = "j * SnapshotFrameSize" and ?E0 = "entities (v (snd ws))" and ?dl = "marshal_done J (done_of (lastID, int (length es)))"
  let ?left = "left_behind R v compress etag es frames"
  obtain its0 where its: "concat (drop j frames) = snapshot_text J (check_of compress frames j # its0) (lastID, int (length es))"
    "counted R J (int ?n0) (check_of compress frames j # its0)"
    "ents its0 = map pair_of (drop ?n0 es)"
    "\<forall>it \<in> set its0. (\<exists>q m. it = Ent q m) \<or> (\<exists>i < length frames. it = check_of compress frames i)" "?n0 \<le> length es"
    using file_items[OF F j] by metis
  define its where "its = check_of compress frames j # its0"
  have J: "json_ok J" and ok: "readable R J compress es lastID frames" using F by (simp_all add: file_ok_def)
  have es: "\<forall>x \<in> set es. ent_ok R (pair_of x)" using ok by (simp add: readable_def)
  have dn: "done_pair (lastID, int (length es))" using ok by (simp add: done_pair_def readable_def)
  note jd = json_ok_done[OF J dn]
  have fit: "line_fits snapshotBufferSize ?dl" using jd(1) ok by (simp add: line_fits_def json_line_def readable_def)
  let ?ls = "map (item_line J) its @ [?dl]"
  have fits: "\<forall>l \<in> set ?ls. line_fits snapshotBufferSize l" using counted_fits[OF its(2)] fit by (auto simp: its_def)
  then have "\<forall>l \<in> set ?ls. newline \<notin> set l" by (auto simp: line_fits_def)
  then obtain k where k: "t = unlines (take k ?ls)"
    using cut_lines t unfolding its(1) snapshot_text_def its_def[symmetric] by blast
  have scan: "scan_lines snapshotBufferSize t = (take k ?ls, False)"
    unfolding k by (rule scan_unlines) (meson fits in_set_takeD)
  let ?st0 = "\<lparr>sn_batch = [], sn_applied = 0, sn_done = False, sn_id = [], sn_ws = ws, sn_fates = fates\<rparr>"
  have start: "tracking R v compress etag es frames ?n0 ?E0 [] ?st0" using c a by (simp add: tracking_def)
  let ?its = "take k its"
  have part': "part_of_file es ?n0 ([] @ ents ?its)"
  proof -
    have "ents its = ents ?its @ ents (drop k its)" by (metis append_take_drop_id ents_append)
    then show ?thesis using its(3) by (auto simp: part_of_file_def its_def)
  qed
  then have part: "part_of_file es ?n0 (ents ?its)" by simp
  have "counted R J (int ?n0) ?its" using its(2) counted_append by (metis append_take_drop_id its_def)
  then have cnt': "counted R J (int ?n0 + int (length ([] :: (int \<times> string) list))) ?its" by simp
  have items: "\<forall>it \<in> set ?its. (\<exists>q m. it = Ent q m) \<or> (\<exists>i < length frames. it = check_of compress frames i)"
  proof
    fix it
    assume "it \<in> set ?its"
    then have "it = check_of compress frames j \<or> it \<in> set its0" by (auto simp: its_def dest: in_set_takeD)
    with its(4) j show "(\<exists>q m. it = Ent q m) \<or> (\<exists>i < length frames. it = check_of compress frames i)" by blast
  qed
  obtain e st where fe: "for_each (snapshot_line R J (int ?n0)) (map (item_line J) ?its) ?st0 = (e, st)" by fastforce
  have read: "if e = None then tracking R v compress etag es frames ?n0 ?E0 (ents ?its) st else ?left (sn_ws st)"
    using lines_tracking[OF R J es h part' cnt' items start fe] unfolding append_Nil .
  have lines: "take k ?ls = map (item_line J) ?its @ (if length its < k then [?dl] else [])"
    by (cases "length its < k") (simp_all add: take_map not_less)
  have whole: "for_each (snapshot_line R J (int ?n0)) (take k ?ls) ?st0 =
      (case e of Some x \<Rightarrow> (Some x, st)
       | None \<Rightarrow> for_each (snapshot_line R J (int ?n0)) (if length its < k then [?dl] else []) st)"
    unfolding lines for_each_append fe by (cases e) simp_all
  note run' = run[unfolded apply_snapshot_def fst_conv snd_conv scan prod.case whole simp_thms]
  show ?thesis
  proof (cases e)
    case (Some x)
    with run' read show ?thesis by (auto intro!: attempt_failed)
  next
    case None
    with read have tr: "tracking R v compress etag es frames ?n0 ?E0 (ents ?its) st" by simp
    show ?thesis
    proof (cases "length its < k")
      case False
      show ?thesis
        by (rule finish_attempt(1)[OF R es _ tr part, where broken = read_error and base = "int ?n0"])
          (use run' None False in simp)
    next
      case True
      then have all: "ents ?its = map pair_of (drop ?n0 es)" using its(3) by (simp add: its_def)
      obtain e2 st2 where d: "snapshot_line R J (int ?n0) ?dl st = (e2, st2)" by fastforce
      note dl = done_line[OF R J es dn part tr d]
      show ?thesis
      proof (cases e2)
        case (Some x)
        with run' None True d dl show ?thesis by (auto intro!: attempt_failed)
      next
        case none: None
        with dl have f: "sn_done st2" "sn_id st2 = lastID" "sn_batch st2 = []" "index_ok R (v (snd (sn_ws st2)))"
          "entities (v (snd (sn_ws st2))) = fold put_ent (map pair_of es) (\<lambda>_. None)"
          "\<exists>p. on_file compress etag es frames p (abstract (v (snd (sn_ws st2))))"
          unfolding all holds_before_all[OF h] by simp_all
        then obtain p where p: "on_file compress etag es frames p (abstract (v (snd (sn_ws st2))))" by blast
        show ?thesis
          by (rule finish_attempt(2)[OF R es _ f(1-5) p, where broken = read_error and base = "int ?n0"])
            (use run' None True d none in simp)
      qed
    qed
  qed
qed

text \<open>With the count of another checkpoint the attempt ends at the first line.\<close>

lemma torn_attempt:
  assumes F: "file_ok R J compress es lastID frames" and j: "j < length frames" and n: "n \<noteq> int (j * SnapshotFrameSize)"
    and t: "cut_after_line (concat (drop j frames)) t"
    and run: "apply_snapshot R J n (t, read_error) fates ws = (out, ws')"
  shows "ws' = ws \<and> (\<exists>e. out = Inl e)"
proof -
  let ?o = "compressed_size compress (take j frames)" and ?k = "int (j * SnapshotFrameSize)"
  let ?cl = "marshal_checkpoint J (checkpoint_of (?o, ?k))" and ?dl = "marshal_done J (done_of (lastID, int (length es)))"
  obtain its where its: "concat (drop j frames) = snapshot_text J (check_of compress frames j # its) (lastID, int (length es))"
    "counted R J ?k (check_of compress frames j # its)"
    using file_items[OF F j] by metis
  have J: "json_ok J" and ok: "readable R J compress es lastID frames" using F by (simp_all add: file_ok_def)
  have dn: "done_pair (lastID, int (length es))" using ok by (simp add: done_pair_def readable_def)
  have fit: "line_fits snapshotBufferSize ?dl"
    using json_ok_done(1)[OF J dn] ok by (simp add: line_fits_def json_line_def readable_def)
  let ?ls = "map (item_line J) (check_of compress frames j # its) @ [?dl]"
  have fits: "\<forall>l \<in> set ?ls. line_fits snapshotBufferSize l" using counted_fits[OF its(2)] fit by auto
  then have "\<forall>l \<in> set ?ls. newline \<notin> set l" by (auto simp: line_fits_def)
  then obtain m where m: "t = unlines (take m ?ls)" using cut_lines t unfolding its(1) snapshot_text_def by blast
  have scan: "scan_lines snapshotBufferSize t = (take m ?ls, False)"
    unfolding m by (rule scan_unlines) (meson fits in_set_takeD)
  have kp: "count_pair (?o, ?k)" using its(2) unfolding check_of_def counted.simps by blast
  note jc = json_ok_checkpoint[OF J kp]
  have cl: "ClassifySnapshotLine ?cl = LineControl" using jc(1) by (simp add: json_line_def)
  show ?thesis
  proof (cases m)
    case 0
    with scan run show ?thesis by (auto simp: apply_snapshot_def flushBatch_def split: if_splits)
  next
    case (Suc i)
    then have "take m ?ls = ?cl # take i (tl ?ls)" by (simp add: check_of_def)
    with scan have sc: "scan_lines snapshotBufferSize t = (?cl # take i (tl ?ls), False)" by simp
    have "snapshot_line R J n ?cl st = (Some (CheckpointMismatch ?o n ?k), st)" if "sn_batch st = []" "sn_applied st = 0" "\<not> sn_done st" for st
      using that cl jc(2,3) n by (simp add: snapshot_line_def control_line_def flushBatch_def Let_def) (simp add: checkpoint_of_def)
    with run show ?thesis by (auto simp: apply_snapshot_def sc)
  qed
qed

section \<open>Resets\<close>

definition blank :: "astore \<Rightarrow> bool" where
  "blank a \<longleftrightarrow> a_entities a = (\<lambda>_. None) \<and> a_sync a ''last_replicated_id'' = None \<and>
     a_sync a ''snapshot_etag'' = None \<and> a_sync a ''snapshot_resume_offset'' = None"

lemma blank_on_file: "blank a \<Longrightarrow> on_file compress etag es frames p a"
  by (simp add: blank_def on_file_def unsynced_def)

lemma blank_holds: "blank a \<Longrightarrow> holds_before es 0 (a_entities a)"
  by (simp add: blank_def holds_before_def)

lemma reset_outcome:
  assumes R: "redis_ok R v" and c: "index_ok R (v (snd ws))" and run: "reset_db R call f ws = (err, ws')"
  shows "index_ok R (v (snd ws')) \<and> (blank (abstract (v (snd ws'))) \<or> err \<noteq> None \<and> v (snd ws') = v (snd ws))"
proof -
  let ?b = "SetSyncState ''schema_version'' SchemaVersion" and ?new = "\<lparr>p_err = None, p_cmds = []\<rparr>"
  obtain ok s where sd: "send call (r_flushdb R) (snd ws) = (ok, s)" by fastforce
  then have s: "s = snd ws \<and> \<not> ok \<or> s = r_flushdb R (snd ws)" by (cases call) auto
  have flushed: "index_ok R (v s) \<and> blank (abstract (v s))" if "s = r_flushdb R (snd ws)"
  proof -
    have "v s = no_content" using that by (simp add: redis_hash[OF R])
    then show ?thesis using index_ok_empty by (simp add: blank_def no_content_def)
  qed
  show ?thesis
  proof (cases ok)
    case False
    with run sd have "err \<noteq> None" "ws' = (fst ws, s)" by (auto simp: reset_db_def)
    with s flushed c show ?thesis by auto
  next
    case True
    with s flushed have e: "index_ok R (v (snd (fst ws, s)))" "blank (abstract (v (snd (fst ws, s))))" by auto
    obtain e2 ws2 where p: "run_pipe R f ?b (fst ws, s) = (e2, ws2)" by (metis surj_pair)
    have w: "ws' = ws2" using run sd True p by (cases e2) (simp_all add: reset_db_def)
    have st: "p_err p = Some e \<Longrightarrow> p_err (?b p) = Some e" for p e by (simp add: pipe_queues)
    have pok: "pipe_ok R (?b ?new)" by (simp add: pipe_ok_def pipe_queues)
    have step: "blank (cmd_spec k a)" if "k \<in> set (p_cmds (?b ?new))" "blank a" for k a
      using that by (simp add: pipe_queues blank_def)
    from pipe_invariant[where build = ?b and I = blank, OF R e(1) st pok step e(2) p] w show ?thesis by blast
  qed
qed

section \<open>Fetching\<close>

text \<open>The files that an upstream has published, by ETag: what was scanned, the position, the frames.\<close>

type_synonym files = "string \<Rightarrow> (SnapshotEntity list \<times> string \<times> string list) option"

definition resume_ok :: "(string \<Rightarrow> string) \<Rightarrow> files \<Rightarrow> astore \<Rightarrow> bool" where
  "resume_ok compress files a \<longleftrightarrow> unsynced a \<and>
     (\<forall>e es i frames x. a_sync a ''snapshot_etag'' = Some e \<longrightarrow> files e = Some (es, i, frames) \<longrightarrow>
        a_sync a ''snapshot_resume_offset'' = Some x \<longrightarrow>
        (\<exists>j < length frames. x = FormatInt (compressed_size compress (take j frames)) \<and>
           holds_before es (j * SnapshotFrameSize) (a_entities a)))"

definition files_ok :: "'s redis \<Rightarrow> json_codec \<Rightarrow> (string \<Rightarrow> string) \<Rightarrow> files \<Rightarrow> bool" where
  "files_ok R J compress files \<longleftrightarrow> (\<forall>e es i frames. files e = Some (es, i, frames) \<longrightarrow> file_ok R J compress es i frames)"

text \<open>
  A reply as the upstream sends it: a failure, a published file, or the rest of it from an offset
  that the request named together with the file's ETag. A body may end after any line.
\<close>

definition sends_part :: "(string \<Rightarrow> (string \<times> bool) option) \<Rightarrow> http_reply \<Rightarrow> string \<Rightarrow> bool" where
  "sends_part inflate resp text \<longleftrightarrow> (\<forall>t broken. inflate (hr_Body resp) = Some (t, broken) \<longrightarrow> cut_after_line text t)"

definition honest_reply ::
  "(string \<Rightarrow> string) \<Rightarrow> files \<Rightarrow> (string \<Rightarrow> (string \<times> bool) option) \<Rightarrow> (int \<times> string) option \<Rightarrow> http_reply option \<Rightarrow> bool" where
  "honest_reply compress files inflate req reply \<longleftrightarrow>
     (\<forall>resp. reply = Some resp \<longrightarrow> hr_Status resp \<in> {200, 206} \<longrightarrow>
        (\<exists>es i frames. files (hr_ETag resp) = Some (es, i, frames) \<and>
           (if hr_Status resp = 200 then sends_part inflate resp (concat frames)
            else \<exists>offset. req = Some (offset, hr_ETag resp) \<and>
              (\<forall>j < length frames. offset = compressed_size compress (take j frames) \<longrightarrow>
                 sends_part inflate resp (concat (drop j frames))))))"

text \<open>What a fetch leaves: a state from which it can be repeated, or an installed file.\<close>

definition fetch_end ::
  "'s redis \<Rightarrow> ('s \<Rightarrow> content) \<Rightarrow> (string \<Rightarrow> string) \<Rightarrow> files \<Rightarrow> 'e + string \<Rightarrow> Writer \<times> 's \<Rightarrow> bool" where
  "fetch_end R v compress files out ws \<longleftrightarrow> index_ok R (v (snd ws)) \<and>
     (resume_ok compress files (abstract (v (snd ws))) \<or>
      (\<exists>e es i frames. files e = Some (es, i, frames) \<and> installed es i (abstract (v (snd ws))))) \<and>
     (\<forall>i. out = Inr i \<longrightarrow> (\<exists>e es frames. files e = Some (es, i, frames) \<and> installed es i (abstract (v (snd ws)))))"

lemma attempt_fetch_end:
  assumes "files e = Some (es, i, frames)" "attempt_end R v compress e es frames i out ws"
  shows "fetch_end R v compress files out ws"
proof -
  have "resume_ok compress files a" if "on_file compress e es frames p a" for p a
    using that assms(1) unfolding on_file_def resume_ok_def by (auto; blast)
  with assms show ?thesis by (fastforce simp: attempt_end_def fetch_end_def left_behind_def)
qed

lemma start_on_file:
  assumes R: "redis_ok R v" and c: "index_ok R (v (snd ws))" and j: "j < length frames"
    and a: "on_file compress e es frames (j * SnapshotFrameSize) (abstract (v (snd ws)))"
    and h: "holds_before es (j * SnapshotFrameSize) (entities (v (snd ws)))"
    and run: "run_pipe R f (start_pipe e (compressed_size compress (take j frames)) n) ws = (err, ws')"
  shows "index_ok R (v (snd ws')) \<and> on_file compress e es frames (j * SnapshotFrameSize) (abstract (v (snd ws'))) \<and>
    entities (v (snd ws')) = entities (v (snd ws))"
proof -
  let ?o = "compressed_size compress (take j frames)" and ?new = "\<lparr>p_err = None, p_cmds = []\<rparr>" and ?p = "j * SnapshotFrameSize"
  let ?I = "\<lambda>a. on_file compress e es frames ?p a \<and> a_entities a = entities (v (snd ws))"
  have cmds: "p_cmds (start_pipe e ?o n ?new) = [HSet metaKey ''snapshot_etag'' e,
      HSet metaKey ''snapshot_resume_offset'' (FormatInt ?o), HSet metaKey ''snapshot_resume_entities'' (FormatInt n)]"
    by (simp add: start_pipe_def pipe_queues)
  have pok: "pipe_ok R (start_pipe e ?o n ?new)" unfolding pipe_ok_def cmds by simp
  have step: "?I (cmd_spec k a)" if "k \<in> set (p_cmds (start_pipe e ?o n ?new))" "?I a" for k a
  proof -
    have o1: "on_file compress e es frames ?p (cmd_spec (HSet metaKey ''snapshot_etag'' e) a)"
      using that(2) on_file_etag by blast
    have o2: "on_file compress e es frames ?p (cmd_spec (HSet metaKey ''snapshot_resume_offset'' (FormatInt ?o)) a)"
      by (rule on_file_offset) (use that(2) h j in auto)
    have o3: "on_file compress e es frames ?p (cmd_spec (HSet metaKey ''snapshot_resume_entities'' x) a)" for x
      using that(2) by (simp add: on_file_other del: cmd_spec.simps)
    from that o1 o2 o3 show ?thesis unfolding cmds by auto
  qed
  have "?I (abstract (v (snd ws)))" using a by simp
  from pipe_invariant[where build = "start_pipe e ?o n" and I = ?I, OF R c snap_pipes(4) pok step this run]
  show ?thesis by simp
qed

lemma file_sizes:
  assumes "file_ok R J compress es i frames"
  shows "0 \<le> compressed_size compress (take j frames)" "int64 (compressed_size compress (take j frames))" "frames \<noteq> []"
proof -
  show o': "0 \<le> compressed_size compress (take j frames)" by (simp add: compressed_size_def)
  have "int64 (compressed_size compress frames)" using assms by (simp add: file_ok_def readable_def)
  with o' compressed_part[of compress j frames] show "int64 (compressed_size compress (take j frames))" by (simp add: int64_def)
  show "frames \<noteq> []" using assms by (auto simp: file_ok_def file_frames_def)
qed

lemma resume_point:
  assumes R: "redis_ok R v" and r: "resume_ok compress files (abstract (v s))"
    and rs: "resume_state (GetSyncStates R answered snapshot_keys s) = (tag, offset, n, req)" and q: req
    and f: "files tag = Some (es, i, frames)" "file_ok R' J compress es i frames"
  obtains j where "j < length frames" "offset = compressed_size compress (take j frames)"
    "on_file compress tag es frames (j * SnapshotFrameSize) (abstract (v s))" "holds_before es (j * SnapshotFrameSize) (entities (v s))"
proof -
  let ?m = "hashes (v s) metaKey"
  have "answered" using rs q by (cases answered) (simp_all add: GetSyncStates_def resume_state_def)
  with rs q have tag: "?m ''snapshot_etag'' = Some tag"
    by (auto simp: GetSyncStates_def resume_state_def snapshot_keys_def redis_hash(1)[OF R] Let_def split: option.splits)
  obtain x where x: "?m ''snapshot_resume_offset'' = Some x" "offset = fst (ParseInt x)"
    using rs q \<open>answered\<close>
    by (cases "?m ''snapshot_resume_offset''")
      (auto simp: GetSyncStates_def resume_state_def snapshot_keys_def redis_hash(1)[OF R] Let_def split: if_splits)
  obtain j where j: "j < length frames" "x = FormatInt (compressed_size compress (take j frames))"
    "holds_before es (j * SnapshotFrameSize) (a_entities (abstract (v s)))"
    using r f(1) tag x(1) by (fastforce simp: resume_ok_def)
  show thesis
  proof (rule that[OF j(1)])
    show "offset = compressed_size compress (take j frames)"
      using x(2) j(2) ParseInt_FormatInt[OF file_sizes(2)[OF f(2)]] by simp
    show "on_file compress tag es frames (j * SnapshotFrameSize) (abstract (v s))"
      using r tag x(1) j by (auto simp: on_file_def resume_ok_def)
    show "holds_before es (j * SnapshotFrameSize) (entities (v s))" using j(3) by simp
  qed
qed

lemma resumed_fetch:
  assumes R: "redis_ok R v" and c: "index_ok R (v (snd ws))" and F: "file_ok R J compress es i frames"
    and f: "files e = Some (es, i, frames)" and j: "j < length frames"
    and a: "on_file compress e es frames (j * SnapshotFrameSize) (abstract (v (snd ws)))"
    and h: "holds_before es (j * SnapshotFrameSize) (entities (v (snd ws)))"
    and st: "run_pipe R f1 (start_pipe e (compressed_size compress (take j frames)) n) ws = (err, ws1)"
    and body: "case body of None \<Rightarrow> True | Some b \<Rightarrow> cut_after_line (concat (drop j frames)) (fst b)"
    and run: "(case body of None \<Rightarrow> (Inl OpenBody, ws1) | Some b \<Rightarrow> apply_snapshot R J n b fates ws1) = (out, ws')"
  shows "fetch_end R v compress files out ws'"
proof -
  note s1 = start_on_file[OF R c j a h st]
  have left: "left_behind R v compress e es frames ws1" using s1 by (auto simp: left_behind_def)
  have "attempt_end R v compress e es frames i out ws'"
  proof (cases body)
    case None
    with run left show ?thesis by (auto intro: attempt_failed)
  next
    case (Some b)
    obtain t broken where b: "b = (t, broken)" by fastforce
    with body Some have t: "cut_after_line (concat (drop j frames)) t" by simp
    have ap: "apply_snapshot R J n (t, broken) fates ws1 = (out, ws')" using run Some b by simp
    show ?thesis
    proof (cases "n = int (j * SnapshotFrameSize)")
      case True
      have h1: "holds_before es (j * SnapshotFrameSize) (entities (v (snd ws1)))" using h s1 by simp
      show ?thesis
        by (rule apply_attempt[OF R F j _ _ h1 t ap[unfolded True]]) (use s1 in simp_all)
    next
      case False
      from torn_attempt[OF F j this t ap] left show ?thesis by (auto intro: attempt_failed)
    qed
  qed
  then show ?thesis by (rule attempt_fetch_end[where files = files, OF f])
qed

lemma fresh_fetch:
  assumes R: "redis_ok R v" and c: "index_ok R (v (snd ws))" and F: "file_ok R J compress es i frames"
    and f: "files e = Some (es, i, frames)" and r: "resume_ok compress files (abstract (v (snd ws)))"
    and rd: "reset_db R call f1 ws = cleared"
    and body: "case body of None \<Rightarrow> True | Some b \<Rightarrow> cut_after_line (concat frames) (fst b)"
    and run: "(case cleared of
        (Some x, ws0) \<Rightarrow> (Inl x, ws0)
      | (None, ws0) \<Rightarrow>
          (case run_pipe R f2 (start_pipe e 0 0) ws0 of
             (_, ws1) \<Rightarrow> (case body of None \<Rightarrow> (Inl OpenBody, ws1) | Some b \<Rightarrow> apply_snapshot R J 0 b fates ws1))) = (out, ws')"
  shows "fetch_end R v compress files out ws'"
proof -
  obtain e0 ws0 where cl: "cleared = (e0, ws0)" by (metis surj_pair)
  note res = reset_outcome[OF R c rd[unfolded cl]]
  show ?thesis
  proof (cases e0)
    case (Some x)
    have "resume_ok compress files (abstract (v (snd ws0)))"
      using res r by (auto simp: blank_def resume_ok_def unsynced_def)
    with res run cl Some show ?thesis by (auto simp: fetch_end_def)
  next
    case None
    with res have b: "index_ok R (v (snd ws0))" "blank (abstract (v (snd ws0)))" by simp_all
    obtain err ws1 where "run_pipe R f2 (start_pipe e 0 0) ws0 = (err, ws1)" by (metis surj_pair)
    then have st: "run_pipe R f2 (start_pipe e (compressed_size compress (take 0 frames)) 0) ws0 = (err, ws1)"
      "(case body of None \<Rightarrow> (Inl OpenBody, ws1) | Some b \<Rightarrow> apply_snapshot R J 0 b fates ws1) = (out, ws')"
      using run cl None by (simp_all add: compressed_size_def)
    have "0 < length frames" "holds_before es (0 * SnapshotFrameSize) (entities (v (snd ws0)))"
      using file_sizes(3)[OF F] blank_holds[OF b(2)] by simp_all
    from resumed_fetch[where files = files and j = 0, OF R b(1) F f this(1) blank_on_file[OF b(2)] this(2) st(1) _ st(2)]
    show ?thesis using body unfolding drop_0 .
  qed
qed

text \<open>An attempt to fetch, from any state that an attempt or a reset can leave.\<close>

lemma fetch_attempt:
  assumes R: "redis_ok R v" and c: "index_ok R (v (snd ws))" and F: "files_ok R J compress files"
    and r: "resume_ok compress files (abstract (v (snd ws)))"
    and up: "\<And>req. honest_reply compress files inflate req (upstream req)"
    and run: "fetchSnapshot R J inflate upstream answered call fates ws = (out, ws')"
  shows "fetch_end R v compress files out ws'"
proof -
  have failed: "fetch_end R v compress files (Inl x) ws" for x :: replica_error using c r by (simp add: fetch_end_def)
  obtain tag offset n req where rs: "resume_state (GetSyncStates R answered snapshot_keys (snd ws)) = (tag, offset, n, req)"
    by (metis surj_pair)
  let ?req = "if req then Some (offset, tag) else None"
  note run' = run[unfolded fetchSnapshot_def rs[unfolded snapshot_keys_def] prod.case]
  show ?thesis
  proof (cases "upstream ?req")
    case None
    with run' failed show ?thesis by auto
  next
    case (Some resp)
    let ?e = "hr_ETag resp"
    note run2 = run'[unfolded Some option.case]
    show ?thesis
    proof (cases "hr_Status resp \<in> {200, 206} \<and> ?e \<noteq> []")
      case False
      with run2 failed show ?thesis by (auto split: if_splits)
    next
      case ok: True
      then obtain es i frames where f: "files ?e = Some (es, i, frames)"
        and parts: "if hr_Status resp = 200 then sends_part inflate resp (concat frames)
            else \<exists>offset. ?req = Some (offset, ?e) \<and> (\<forall>j < length frames. offset = compressed_size compress (take j frames) \<longrightarrow>
                 sends_part inflate resp (concat (drop j frames)))"
        using up[of ?req] Some unfolding honest_reply_def by blast
      have Fe: "file_ok R J compress es i frames" using F f by (auto simp: files_ok_def)
      have bodies: "case inflate (hr_Body resp) of None \<Rightarrow> True | Some b \<Rightarrow> cut_after_line part (fst b)"
        if "sends_part inflate resp part" for part using that by (auto simp: sends_part_def split: option.splits)
      show ?thesis
      proof (cases "hr_Status resp = 206")
        case True
        with parts have req: "req" "tag = ?e" by (auto split: if_splits)
        obtain j where j: "j < length frames" "offset = compressed_size compress (take j frames)"
          "on_file compress ?e es frames (j * SnapshotFrameSize) (abstract (v (snd ws)))"
          "holds_before es (j * SnapshotFrameSize) (entities (v (snd ws)))"
          using resume_point[OF R r rs[unfolded req(2)] req(1) f Fe] by auto
        obtain err ws1 where st: "run_pipe R (fst (next_fate fates)) (start_pipe ?e offset n) ws = (err, ws1)" by (metis surj_pair)
        have part: "sends_part inflate resp (concat (drop j frames))" using parts True req j(1,2) by auto
        have "(case inflate (hr_Body resp) of None \<Rightarrow> (Inl OpenBody, ws1)
            | Some b \<Rightarrow> apply_snapshot R J n b (snd (next_fate fates)) ws1) = (out, ws')"
          using run2 True ok req st by (simp add: Let_def cong: option.case_cong)
        with resumed_fetch[where files = files, OF R c Fe f j(1,3,4) st[unfolded j(2)] bodies[OF part]] show ?thesis .
      next
        case False
        with ok have s200: "hr_Status resp = 200" by simp
        with parts have part: "sends_part inflate resp (concat frames)" by simp
        show ?thesis
          by (rule fresh_fetch[where files = files, OF R c Fe f r refl bodies[OF part]])
            (use run2 s200 ok in \<open>simp add: Let_def cong: option.case_cong prod.case_cong\<close>)
      qed
    qed
  qed
qed

end
