(* ===== verification/ReplicaRuns.thy ===== *)
theory ReplicaRuns
  imports Replication SnapshotAttempt
begin

text \<open>
  The state machine of the replica as its code has it: \<open>Client.Run\<close> over any list of turns, each
  with a fetch if there is no position and a connection to the stream. The upstream publishes any
  number of snapshots while its database changes, serves its stream or sends resets. A snapshot may
  be cut off between any two of its lines, a stream of changes anywhere but inside a payload, and any
  pipe of the replica may break at any command. The result
  (\<open>Run_converges\<close>): whatever the turns leave behind, the replica never takes a position that its
  entities do not belong to. It may stay without one: a checkpoint that is stored in part stops
  every fetch of its file with a mismatch.
\<close>

section \<open>Run\<close>

text \<open>What a turn meets: replies by request, decompressors, and the fates of calls and pipes.\<close>

record replica_in =
  ri_position :: bool
  ri_progress :: bool
  ri_upstream :: "(int \<times> string) option \<Rightarrow> http_reply option"
  ri_inflate :: "string \<Rightarrow> (string \<times> bool) option"
  ri_clear :: call
  ri_fates :: "fate list"
  ri_stream :: "string \<Rightarrow> http_reply option"
  ri_decode :: "string \<Rightarrow> string \<Rightarrow> (string \<times> bool) option"
  ri_stream_clear :: call
  ri_stream_fates :: "fate list"

definition client_turn ::
  "'s redis \<Rightarrow> json_codec \<Rightarrow> (string \<Rightarrow> string) \<Rightarrow> replica_in \<Rightarrow> Writer \<times> 's \<Rightarrow> replica_turn \<times> Writer \<times> 's" where
  "client_turn R J reset_state t =
     run_turn R (ri_position t)
       (fetchSnapshot R J (ri_inflate t) (ri_upstream t) (ri_progress t) (ri_clear t) (ri_fates t))
       (\<lambda>since. connectStream R reset_state (ri_decode t) (ri_stream t since) (ri_stream_clear t) (ri_stream_fates t))"

text \<open>The turns running out is a cancellation; the error is that of the position.\<close>

fun Run ::
  "'s redis \<Rightarrow> json_codec \<Rightarrow> (string \<Rightarrow> string) \<Rightarrow> replica_in list \<Rightarrow> Writer \<times> 's \<Rightarrow> store_error option \<times> Writer \<times> 's" where
  "Run R J reset_state [] ws = (None, ws)"
| "Run R J reset_state (t # ts) ws =
     (case client_turn R J reset_state t ws of
        (GetStateFailed e, ws') \<Rightarrow> (Some e, ws')
      | (TurnDone _, ws') \<Rightarrow> Run R J reset_state ts ws')"

section \<open>The upstream\<close>

text \<open>
  Every published file was generated from the upstream's database at some point of its history,
  while it went on changing, and can be read by the replica.
\<close>

definition published ::
  "'u redis \<Rightarrow> ('u \<Rightarrow> content) \<Rightarrow> stream_entry list \<Rightarrow> (string \<Rightarrow> string option) \<Rightarrow> 's redis \<Rightarrow> json_codec \<Rightarrow>
   (string \<Rightarrow> string) \<Rightarrow> files \<Rightarrow> bool" where
  "published U u H E0 R J compress files \<longleftrightarrow>
     (\<forall>e es i frames. files e = Some (es, i, frames) \<longrightarrow>
        (\<exists>hscan scans k s. es = scanned hscan scans 0 \<and>
           generate_frames U hscan J compress (True, True, True) scans s = Inr (i, frames) \<and> upstream u H E0 k s \<and>
           (\<forall>(cancelled, answered, s') \<in> set scans. \<exists>k'. k \<le> k' \<and> upstream u H E0 k' s') \<and>
           scan_promise u (visited hscan scans 0) \<and> readable R J compress es i frames))"

lemma published_files:
  assumes "json_ok J" "published U u H E0 R J compress files"
  shows "files_ok R J compress files"
  unfolding files_ok_def
proof (intro allI impI)
  fix e es i frames
  assume "files e = Some (es, i, frames)"
  then obtain hscan scans s where g: "es = scanned hscan scans 0"
    "generate_frames U hscan J compress (True, True, True) scans s = Inr (i, frames)" "readable R J compress es i frames"
    using assms(2) unfolding published_def by blast
  obtain fss where "file_frames J compress (scanned hscan scans 0) i frames fss" using generated_frames[OF g(2)] .
  with g assms(1) show "file_ok R J compress es i frames" by (auto simp: file_ok_def)
qed

lemma installed_follows:
  assumes U: "redis_ok U u" and H: "ids_ok H" "log_ok H" "eids_ok E0" and P: "published U u H E0 R J compress files"
    and f: "files e = Some (es, i, frames)" and a: "installed es i (abstract c)"
  shows "follows H E0 c"
proof -
  obtain hscan scans k s where g: "es = scanned hscan scans 0"
    "generate_frames U hscan J compress (True, True, True) scans s = Inr (i, frames)" "upstream u H E0 k s"
    "\<forall>(cancelled, answered, s') \<in> set scans. \<exists>k'. k \<le> k' \<and> upstream u H E0 k' s'"
    "scan_promise u (visited hscan scans 0)"
    using P f unfolding published_def by blast
  have "entities c = fold put_ent (map pair_of (scanned hscan scans 0)) (\<lambda>_. None)" "last_id c = Some i"
    using a g(1) by (simp_all add: installed_def last_id_def)
  from snapshot_follows[OF U H g(3,2,4,5) this] show ?thesis .
qed

text \<open>
  The reply to a request for the stream: a failure, the changes after the position, wherever they are
  cut off outside a payload, or a reset. A payload that is cut off can be applied as if it were whole,
  and so is left out here.
\<close>

definition reset_text :: "string \<Rightarrow> string" where
  "reset_text data = ''retry: 3000'' @ [newline] @ ''event: reset'' @ [newline] @ ''data: '' @ data @ crlf2"

definition honest_stream ::
  "'u redis \<Rightarrow> ('u \<Rightarrow> content) \<Rightarrow> stream_entry list \<Rightarrow> (string \<Rightarrow> string \<Rightarrow> (string \<times> bool) option) \<Rightarrow> string \<Rightarrow>
   http_reply option \<Rightarrow> bool" where
  "honest_stream U u H decode since reply \<longleftrightarrow>
     (\<forall>resp body broken. reply = Some resp \<longrightarrow> hr_Status resp = 200 \<longrightarrow> openStreamBody decode resp = Inr (body, broken) \<longrightarrow>
        (\<exists>limit timeout rounds. 0 \<le> limit \<and>
           (\<forall>rd \<in> set rounds. \<exists>k. after (sid_of since) (streams (u (rd_state rd)) changelogKey) = take k (after (sid_of since) H)) \<and>
           cut_stream (serve_rounds U limit timeout rounds since 0) body) \<or>
        (\<exists>data. line_fits streamBufferSize (''data: '' @ data) \<and> body = reset_text data))"

definition honest_turn ::
  "'u redis \<Rightarrow> ('u \<Rightarrow> content) \<Rightarrow> stream_entry list \<Rightarrow> (string \<Rightarrow> string) \<Rightarrow> files \<Rightarrow> replica_in \<Rightarrow> bool" where
  "honest_turn U u H compress files t \<longleftrightarrow>
     (\<forall>req. honest_reply compress files (ri_inflate t) req (ri_upstream t req)) \<and>
     (\<forall>since. honest_stream U u H (ri_decode t) since (ri_stream t since))"

section \<open>The invariant\<close>

text \<open>The replica has a position and follows the upstream, or has none and can fetch a snapshot.\<close>

definition replica_inv ::
  "'s redis \<Rightarrow> ('s \<Rightarrow> content) \<Rightarrow> (string \<Rightarrow> string) \<Rightarrow> files \<Rightarrow> stream_entry list \<Rightarrow> (string \<Rightarrow> string option) \<Rightarrow>
   Writer \<times> 's \<Rightarrow> bool" where
  "replica_inv R v compress files H E0 ws \<longleftrightarrow> index_ok R (v (snd ws)) \<and>
     (resume_ok compress files (abstract (v (snd ws))) \<or> follows H E0 (v (snd ws)))"

lemma reset_stream:
  assumes fit: "line_fits streamBufferSize (''data: '' @ data)"
    and st: "hr_Status resp = 200" "openStreamBody decode resp = Inr (reset_text data, broken)"
    and run: "connectStream R rst decode (Some resp) c fates ws = (out, ws')"
  shows "ws' = ws \<or> reset_db R c (fst (next_fate fates)) ws = (out, ws')"
proof -
  let ?ls = "[''retry: 3000'', ''event: reset'', ''data: '' @ data, []]"
  have t: "reset_text data = unlines ?ls" by (simp add: reset_text_def crlf2_def)
  have "line_fits streamBufferSize ''event: reset''" by (simp add: line_fits_def streamBufferSize_def drop_cr_def)
  with fit fixed_lines_fit have "\<forall>l \<in> set ?ls. line_fits streamBufferSize l" by simp
  from scan_unlines[OF this] have sc: "scan_lines streamBufferSize (reset_text data) = (?ls, False)" by (simp only: t)
  have "stream_lines R rst c fates ?ls [] [] ws = (if rst data = ''seeding'' then (Some (Some UpstreamSeeding), ws)
      else (case reset_db R c (fst (next_fate fates)) ws of (err, ws') \<Rightarrow> (Some err, ws')))"
    by (simp add: HasPrefix_def TrimPrefix_def)
  with run st sc show ?thesis
    by (cases "rst data = ''seeding''") (auto simp: connectStream_def split: prod.splits)
qed

lemma stream_turn:
  assumes U: "redis_ok U u" and R: "redis_ok R v" and H: "ids_ok H" "log_ok H" and ev: "\<forall>e \<in> set H. event_ok R (entry_event e)"
    and hon: "honest_stream U u H decode since reply" and cur: "last_id (v (snd ws)) = Some since"
    and i: "index_ok R (v (snd ws))" "follows H E0 (v (snd ws))"
    and run: "connectStream R rst decode reply c fates ws = (out, ws')"
  shows "replica_inv R v compress files H E0 ws'"
proof -
  have con: "replica_inv R v compress files H E0 ws'" if "connection U u H R v rst decode ws ws'"
    using connection_follows[OF U R H ev that i] by (simp add: replica_inv_def)
  show ?thesis
  proof (cases "\<exists>resp body broken. reply = Some resp \<and> hr_Status resp = 200 \<and> openStreamBody decode resp = Inr (body, broken)")
    case False
    then have "case reply of None \<Rightarrow> True | Some resp \<Rightarrow> hr_Status resp \<noteq> 200 \<or> (\<exists>e. openStreamBody decode resp = Inl e)"
      by (auto split: option.split) (metis sum.exhaust surj_pair)
    from con[OF connection.refused[OF this run]] show ?thesis .
  next
    case True
    then obtain resp body broken where r: "reply = Some resp" "hr_Status resp = 200" "openStreamBody decode resp = Inr (body, broken)"
      by blast
    note run' = run[unfolded r(1)]
    from hon r consider
        (served) limit timeout rounds where "0 \<le> limit"
          "\<forall>rd \<in> set rounds. \<exists>k. after (sid_of since) (streams (u (rd_state rd)) changelogKey) = take k (after (sid_of since) H)"
          "cut_stream (serve_rounds U limit timeout rounds since 0) body"
      | (reset) data where "line_fits streamBufferSize (''data: '' @ data)" "body = reset_text data"
      unfolding honest_stream_def by blast
    then show ?thesis
    proof cases
      case served
      from con[OF connection.served[where u = u and v = v and H = H, OF cur served(1,2) r(2,3) served(3) run']] show ?thesis .
    next
      case reset
      from reset_stream[OF reset(1) r(2) r(3)[unfolded reset(2)] run'] show ?thesis
      proof
        assume "ws' = ws"
        with i show ?thesis by (simp add: replica_inv_def)
      next
        assume "reset_db R c (fst (next_fate fates)) ws = (out, ws')"
        from reset_outcome[OF R i(1) this] i(2) show ?thesis
          by (auto simp: replica_inv_def blank_def resume_ok_def unsynced_def)
      qed
    qed
  qed
qed

lemma follows_position:
  assumes "ids_ok H" "follows H E0 c"
  obtains since where "last_id c = Some since" "since \<noteq> []"
proof -
  obtain p where p: "0 < p" "p \<le> length H" "last_id c = Some (fst (H ! (p - 1)))" using assms(2) by (auto simp: follows_def)
  have "H ! (p - 1) \<in> set H" using p(1,2) by simp
  then obtain t where "fst (H ! (p - 1)) = sid_str t" using assms(1) by (auto simp: ids_ok_def)
  with p(3) that show thesis by (simp add: sid_str_def)
qed

text \<open>The ways of a turn: it ends at once, connects, fails to fetch, or fetches and connects.\<close>

lemma run_turn_cases:
  assumes "run_turn R answered fetch stream ws = (out, ws')"
  obtains (failed) "ws' = ws"
  | (connect) since o' where "GetSyncState R answered ''last_replicated_id'' (snd ws) = Inr since" "since \<noteq> []"
      "stream since ws = (o', ws')"
  | (unfetched) e where "GetSyncState R answered ''last_replicated_id'' (snd ws) = Inr []" "fetch ws = (Inl e, ws')"
  | (fetched) i ws1 o' where "GetSyncState R answered ''last_replicated_id'' (snd ws) = Inr []" "fetch ws = (Inr i, ws1)"
      "stream i ws1 = (o', ws')"
proof -
  note run = assms[unfolded run_turn_def]
  consider (error) e where "GetSyncState R answered ''last_replicated_id'' (snd ws) = Inl e"
    | (position) since where "GetSyncState R answered ''last_replicated_id'' (snd ws) = Inr since" "since \<noteq> []"
    | (empty) "GetSyncState R answered ''last_replicated_id'' (snd ws) = Inr []"
    by (cases "GetSyncState R answered ''last_replicated_id'' (snd ws)") auto
  then show thesis
  proof cases
    case error
    with run failed show thesis by simp
  next
    case position
    obtain o' ws2 where s: "stream since ws = (o', ws2)" by (metis surj_pair)
    with run position have "ws' = ws2" by (auto simp: Let_def split: option.splits replica_error.splits)
    with connect[OF position] s show thesis by simp
  next
    case empty
    obtain o1 ws1 where f: "fetch ws = (o1, ws1)" by (metis surj_pair)
    show thesis
    proof (cases o1)
      case (Inl e)
      with run empty f have "ws' = ws1" by (simp add: Let_def)
      with unfetched[OF empty] f Inl show thesis by simp
    next
      case (Inr i)
      obtain o' ws2 where s: "stream i ws1 = (o', ws2)" by (metis surj_pair)
      with run empty f Inr have "ws' = ws2" by (auto simp: Let_def split: option.splits replica_error.splits)
      with fetched[OF empty] f Inr s show thesis by simp
    qed
  qed
qed

lemma client_turn_inv:
  assumes U: "redis_ok U u" and R: "redis_ok R v" and J: "json_ok J" and H: "ids_ok H" "log_ok H" "eids_ok E0"
    and ev: "\<forall>e \<in> set H. event_ok R (entry_event e)" and P: "published U u H E0 R J compress files"
    and hon: "honest_turn U u H compress files t" and i: "replica_inv R v compress files H E0 ws"
    and run: "client_turn R J rst t ws = (out, ws')"
  shows "replica_inv R v compress files H E0 ws'"
proof -
  let ?stream = "\<lambda>since. connectStream R rst (ri_decode t) (ri_stream t since) (ri_stream_clear t) (ri_stream_fates t)"
  let ?fetch = "fetchSnapshot R J (ri_inflate t) (ri_upstream t) (ri_progress t) (ri_clear t) (ri_fates t)"
  have idx: "index_ok R (v (snd ws))" using i by (simp add: replica_inv_def)
  have str: "replica_inv R v compress files H E0 ws2"
    if "last_id (v (snd ws1)) = Some since" "index_ok R (v (snd ws1))" "follows H E0 (v (snd ws1))" "?stream since ws1 = (o', ws2)"
    for ws1 since o' ws2
    using stream_turn[OF U R H(1,2) ev _ that(1-4)] hon by (simp add: honest_turn_def)
  have pos: "since = (case last_id (v (snd ws)) of None \<Rightarrow> [] | Some x \<Rightarrow> x)"
    if "GetSyncState R (ri_position t) ''last_replicated_id'' (snd ws) = Inr since" for since
    using that by (auto simp: GetSyncState_def redis_hash(1)[OF R] last_id_def split: if_splits option.splits)
  have fetch: "fetch_end R v compress files o1 ws1"
    if "GetSyncState R (ri_position t) ''last_replicated_id'' (snd ws) = Inr []" "?fetch ws = (o1, ws1)" for o1 ws1
  proof -
    have "\<not> follows H E0 (v (snd ws))" using follows_position[OF H(1)] pos[OF that(1)] by fastforce
    with i have res: "resume_ok compress files (abstract (v (snd ws)))" by (simp add: replica_inv_def)
    have "honest_reply compress files (ri_inflate t) req (ri_upstream t req)" for req using hon by (simp add: honest_turn_def)
    from fetch_attempt[OF R idx published_files[OF J P] res this that(2)] show ?thesis .
  qed
  have inst: "follows H E0 (v (snd ws1))" if "files e = Some (es, i, frames)" "installed es i (abstract (v (snd ws1)))"
    for e es i frames ws1 by (rule installed_follows[OF U H P that])
  show ?thesis
  proof (rule run_turn_cases[OF run[unfolded client_turn_def]])
    assume "ws' = ws"
    with i show ?thesis by simp
  next
    fix since o'
    assume g: "GetSyncState R (ri_position t) ''last_replicated_id'' (snd ws) = Inr since" "since \<noteq> []" "?stream since ws = (o', ws')"
    then have cur: "last_id (v (snd ws)) = Some since" using pos by (auto split: option.splits)
    with g(2) i have "follows H E0 (v (snd ws))" by (auto simp: replica_inv_def resume_ok_def unsynced_def last_id_def)
    from str[OF cur idx this g(3)] show ?thesis .
  next
    fix e
    assume "GetSyncState R (ri_position t) ''last_replicated_id'' (snd ws) = Inr []" "?fetch ws = (Inl e, ws')"
    from fetch[OF this] inst show ?thesis by (auto simp: fetch_end_def replica_inv_def)
  next
    fix i ws1 o'
    assume g: "GetSyncState R (ri_position t) ''last_replicated_id'' (snd ws) = Inr []" "?fetch ws = (Inr i, ws1)"
      "?stream i ws1 = (o', ws')"
    from fetch[OF g(1,2)] obtain e es frames where e: "files e = Some (es, i, frames)" "installed es i (abstract (v (snd ws1)))"
      "index_ok R (v (snd ws1))" by (auto simp: fetch_end_def)
    then have "last_id (v (snd ws1)) = Some i" by (simp add: installed_def last_id_def)
    from str[OF this e(3) inst[OF e(1,2)] g(3)] show ?thesis .
  qed
qed

lemma run_inv:
  assumes "redis_ok U u" "redis_ok R v" "json_ok J" "ids_ok H" "log_ok H" "eids_ok E0"
    "\<forall>e \<in> set H. event_ok R (entry_event e)" "published U u H E0 R J compress files"
  shows "\<forall>t \<in> set turns. honest_turn U u H compress files t \<Longrightarrow> replica_inv R v compress files H E0 ws \<Longrightarrow>
    Run R J rst turns ws = (res, ws') \<Longrightarrow> replica_inv R v compress files H E0 ws'"
proof (induction turns arbitrary: ws)
  case Nil
  then show ?case by simp
next
  case (Cons t ts)
  obtain out ws1 where t: "client_turn R J rst t ws = (out, ws1)" by (metis surj_pair)
  have "replica_inv R v compress files H E0 ws1"
    by (rule client_turn_inv[OF assms _ Cons.prems(2) t]) (use Cons.prems(1) in simp)
  with Cons t show ?case by (cases out) simp_all
qed

text \<open>
  Claim C5: \<open>Client.Run\<close>, over any number of turns with fetches that fail, snapshots that are cut off
  between two lines, streams of changes that are cut off outside a payload, checkpoints that are stored
  in part, resets, and snapshots that are replaced: at any time the replica either has a position from which the upstream's changes lead to the upstream's entities,
  or has none, and a stored offset belongs to a checkpoint of the file whose ETag is stored and
  every entity before it is in the store; and at the end of the history it holds exactly the
  upstream's entities. (Inside a line the code itself goes wrong: it takes what is left of a payload
  or of an entity line for a whole one.)
\<close>

theorem Run_converges:
  assumes "redis_ok U u" and "redis_ok R v" and "json_ok J"
    and "ids_ok H" and "log_ok H" and "eids_ok E0" and "\<forall>e \<in> set H. event_ok R (entry_event e)"
    and "published U u H E0 R J compress files"
    and "\<forall>t \<in> set turns. honest_turn U u H compress files t"
    and "index_ok R (v (snd ws))" and "resume_ok compress files (abstract (v (snd ws))) \<or> follows H E0 (v (snd ws))"
    and "Run R J reset_state turns ws = (res, ws')"
  shows "index_ok R (v (snd ws')) \<and> (resume_ok compress files (abstract (v (snd ws'))) \<or> follows H E0 (v (snd ws'))) \<and>
    (last_id (v (snd ws')) = Some (fst (last H)) \<and> H \<noteq> [] \<longrightarrow> entities (v (snd ws')) = apply_log H E0)"
proof -
  have i: "replica_inv R v compress files H E0 ws'"
    by (rule run_inv[OF assms(1-9) _ assms(12)]) (use assms(10,11) in \<open>simp add: replica_inv_def\<close>)
  moreover have "entities (v (snd ws')) = apply_log H E0" if l: "last_id (v (snd ws')) = Some (fst (last H))" "H \<noteq> []"
  proof -
    obtain t where "fst (last H) = sid_str t" using assms(4) last_in_set[OF l(2)] by (auto simp: ids_ok_def)
    then have "fst (last H) \<noteq> []" by (simp add: sid_str_def)
    with i l(1) have "follows H E0 (v (snd ws'))" by (auto simp: replica_inv_def resume_ok_def unsynced_def last_id_def)
    from follows_done[OF assms(4) this l(1)] show ?thesis .
  qed
  ultimately show ?thesis by (simp add: replica_inv_def)
qed

section \<open>Witness\<close>

text \<open>A file server is honest.\<close>

lemma server_honest:
  assumes f: "files etag = Some (es, i, frames)" and ne: "frames \<noteq> []"
    and z: "\<And>j t b. j < length frames \<Longrightarrow> inflate (concat (map compress (drop j frames))) = Some (t, b) \<Longrightarrow>
      cut_after_line (concat (drop j frames)) t"
  shows "honest_reply compress files inflate req (Some (ServeContent etag (concat (map compress frames)) req))"
proof -
  let ?c = "concat (map compress frames)"
  have full: "sends_part inflate resp (concat frames)" if "hr_Body resp = ?c" for resp
    using z[of 0] ne that by (simp add: sends_part_def)
  have part: "sends_part inflate resp (concat (drop j frames))"
    if "hr_Body resp = drop (nat (compressed_size compress (take j frames))) ?c" "j < length frames" for resp j
    using z[of j] that by (simp add: sends_part_def drop_compressed)
  show ?thesis
  proof (cases req)
    case None
    with f full show ?thesis by (simp add: honest_reply_def ServeContent_def)
  next
    case (Some r)
    obtain offset tag where "r = (offset, tag)" by fastforce
    with Some f full part show ?thesis by (auto simp: honest_reply_def ServeContent_def Let_def)
  qed
qed

definition example_files :: files where
  "example_files = [''\"s\"'' \<mapsto> ([\<lparr>se_QID = 42, se_RawMappings = ''[]''\<rparr>], sid_str (3, 0), [example_lines])]"

definition example_serving :: "content round" where
  "example_serving = \<lparr>rd_cancelled = False, rd_answered = True, rd_state = example_upstream 2, rd_expired = False\<rparr>"

definition example_reply :: "string \<Rightarrow> http_reply option" where
  "example_reply since = (if since = sid_str (3, 0)
     then Some (plain_reply (preamble @ concat (map render_chunk (serve_rounds mem_redis 5 0 [example_serving] since 0)))) else None)"

text \<open>The first turn loses its connection before the first line; the second one does not.\<close>

definition example_in :: "(string \<Rightarrow> (string \<times> bool) option) \<Rightarrow> replica_in" where
  "example_in fl = \<lparr>ri_position = True, ri_progress = True,
     ri_upstream = (\<lambda>req. Some (ServeContent ''\"s\"'' (concat (map id [example_lines])) req)), ri_inflate = fl,
     ri_clear = Answered, ri_fates = [],
     ri_stream = example_reply, ri_decode = (\<lambda>_ b. Some (b, False)), ri_stream_clear = Answered, ri_stream_fates = []\<rparr>"

lemma example_published: "published mem_redis id example_history (\<lambda>_. None) mem_redis text_codec id example_files"
  unfolding published_def
proof (intro allI impI)
  fix e es i frames
  assume "example_files e = Some (es, i, frames)"
  then have f: "es = scanned example_scan [(False, True, example_upstream 1)] 0" "i = sid_str (3, 0)" "frames = [example_lines]"
    unfolding example_scanned by (auto simp: example_files_def split: if_splits)
  have s1: "streams (id (example_upstream 1)) changelogKey = take 1 example_history" by (simp add: example_upstream_def)
  have "ids_ok (take 1 example_history)" by (metis example_history_ok(1) append_take_drop_id ids_ok_append)
  from stream_info[OF mem_redis_ok this s1[symmetric]]
  have "StreamInfo mem_redis True True True (example_upstream 1) = Inr (sid_str (3, 0), sid_str (3, 0), 1)"
    by (simp add: example_history_def)
  note gen = example_file[OF this, of "example_upstream 1"]
  have later: "\<forall>(cancelled, answered, s') \<in> set [(False, True, example_upstream 1)].
      \<exists>k'. 1 \<le> k' \<and> upstream id example_history (\<lambda>_. None) k' s'"
    using example_upstream by auto
  show "\<exists>hscan scans k s. es = scanned hscan scans 0 \<and>
      generate_frames mem_redis hscan text_codec id (True, True, True) scans s = Inr (i, frames) \<and>
      upstream id example_history (\<lambda>_. None) k s \<and>
      (\<forall>(cancelled, answered, s') \<in> set scans. \<exists>k'. k \<le> k' \<and> upstream id example_history (\<lambda>_. None) k' s') \<and>
      scan_promise id (visited hscan scans 0) \<and> readable mem_redis text_codec id es i frames"
    by (intro exI[of _ example_scan] exI[of _ "[(False, True, example_upstream 1)]"] exI[of _ 1] exI[of _ "example_upstream 1"] conjI)
      (use f gen later example_upstream example_promise example_readable in simp_all)
qed

lemma example_honest:
  assumes fl: "\<And>t b. fl example_lines = Some (t, b) \<Longrightarrow> cut_after_line example_lines t"
  shows "honest_turn mem_redis id example_history id example_files (example_in fl)"
  unfolding honest_turn_def
proof (intro conjI allI)
  fix req
  have "honest_reply id example_files fl req (Some (ServeContent ''\"s\"'' (concat (map id [example_lines])) req))"
    by (rule server_honest) (use fl in \<open>auto simp: example_files_def\<close>)
  then show "honest_reply id example_files (ri_inflate (example_in fl)) req (ri_upstream (example_in fl) req)"
    by (simp only: example_in_def replica_in.simps)
next
  fix since
  have "streams (id (rd_state example_serving)) changelogKey = example_history"
    by (simp add: example_serving_def example_upstream_def example_history_def)
  then have part: "\<forall>rd \<in> set [example_serving]. \<exists>k. after (sid_of since) (streams (id (rd_state rd)) changelogKey) =
      take k (after (sid_of since) example_history)"
    by (simp add: exI[of _ "length (after (sid_of since) example_history)"])
  have "honest_stream mem_redis id example_history (\<lambda>_ b. Some (b, False)) since (example_reply since)"
    unfolding honest_stream_def
  proof (intro allI impI disjI1)
    fix resp body broken
    assume g: "example_reply since = Some resp" "openStreamBody (\<lambda>_ b. Some (b, False)) resp = Inr (body, broken)"
    have "resp = plain_reply (preamble @ concat (map render_chunk (serve_rounds mem_redis 5 0 [example_serving] since 0)))"
      using g(1) unfolding example_reply_def by (simp del: serve_rounds.simps split: if_splits)
    with g(2) have "body = preamble @ concat (map render_chunk (serve_rounds mem_redis 5 0 [example_serving] since 0))"
      by (simp add: open_plain del: serve_rounds.simps)
    with part show "\<exists>limit timeout rounds. 0 \<le> limit \<and>
        (\<forall>rd \<in> set rounds. \<exists>k. after (sid_of since) (streams (id (rd_state rd)) changelogKey) =
          take k (after (sid_of since) example_history)) \<and>
        cut_stream (serve_rounds mem_redis limit timeout rounds since 0) body"
      by (intro exI[of _ 5] exI[of _ 0] exI[of _ "[example_serving]"] conjI) (simp_all add: cut_stream_full del: serve_rounds.simps)
  qed
  then show "honest_stream mem_redis id example_history (ri_decode (example_in fl)) since (ri_stream (example_in fl) since)"
    by (simp add: example_in_def)
qed

lemma turn_done:
  "\<exists>d a' b'. (case e of None \<Rightarrow> (TurnDone 0, a, b) | Some UpstreamSeeding \<Rightarrow> (TurnDone seedingRetryDelay, a, b)
     | Some _ \<Rightarrow> (TurnDone retryBaseDelay, a, b)) = (TurnDone d, a', b')"
proof (cases e)
  case (Some r)
  then show ?thesis by (cases r) simp_all
qed simp

lemma run_answered: "\<forall>t \<in> set turns. ri_position t \<Longrightarrow> fst (Run R J rst turns ws) = None"
proof (induction turns arbitrary: ws)
  case (Cons t ts)
  obtain out ws1 where t: "client_turn R J rst t ws = (out, ws1)" by (metis surj_pair)
  obtain pos where "GetSyncState R (ri_position t) ''last_replicated_id'' (snd ws) = Inr pos"
    using Cons.prems
    by (cases "r_hget R metaKey ''last_replicated_id'' (snd ws)") (auto simp: GetSyncState_def)
  then have "\<exists>d w. client_turn R J rst t ws = (TurnDone d, w)"
    unfolding client_turn_def run_turn_def Let_def
    by (cases "pos = []") (simp_all add: turn_done split: prod.split sum.split)
  with Cons t show ?case by (cases out) simp_all
qed simp

lemma Run_converges_witness:
  "\<exists>ws. Run mem_redis text_codec (\<lambda>_. []) [example_in (\<lambda>_. Some ([], True)), example_in (\<lambda>b. Some (b, False))] example_start =
       (None, ws) \<and>
     index_ok mem_redis (snd ws) \<and> (resume_ok id example_files (abstract (snd ws)) \<or> follows example_history (\<lambda>_. None) (snd ws))"
proof -
  let ?turns = "[example_in (\<lambda>_. Some ([], True)), example_in (\<lambda>b. Some (b, False))]"
  obtain res ws where run: "Run mem_redis text_codec (\<lambda>_. []) ?turns example_start = (res, ws)" by (metis surj_pair)
  have "cut_after_line example_lines []" by (simp add: cut_after_line_def)
  then have one: "honest_turn mem_redis id example_history id example_files (example_in (\<lambda>_. Some ([], True)))"
    by (intro example_honest) simp
  have "cut_after_line example_lines example_lines" by (simp add: cut_after_line_def snapshot_text_def unlines_def)
  then have "honest_turn mem_redis id example_history id example_files (example_in (\<lambda>b. Some (b, False)))"
    by (intro example_honest) simp
  with one have hon: "\<forall>t \<in> set ?turns. honest_turn mem_redis id example_history id example_files t" by simp
  have fresh: "resume_ok id example_files (abstract (id (snd example_start))) \<or> follows example_history (\<lambda>_. None) (id (snd example_start))"
    by (simp add: resume_ok_def unsynced_def no_content_def)
  have "fst (Run mem_redis text_codec (\<lambda>_. []) ?turns example_start) = None"
    by (rule run_answered) (simp add: example_in_def)
  then have out: "Run mem_redis text_codec (\<lambda>_. []) ?turns example_start = (None, ws)" unfolding run by simp
  have "index_ok mem_redis (snd ws)" "resume_ok id example_files (abstract (snd ws)) \<or> follows example_history (\<lambda>_. None) (snd ws)"
    using Run_converges[OF mem_redis_ok mem_redis_ok text_codec_ok example_history_ok example_published hon example_fetch(1) fresh run]
    unfolding id_apply by blast+
  with out show ?thesis by blast
qed

end
