(* ===== verification/Roles.thy ===== *)
theory Roles
  imports Admin Api
begin

text \<open>
  \<open>cmd/wdxref/main.go\<close> and \<open>internal/store/client.go\<close>: which roles a process takes, what they need,
  its connection to the database, its HTTP server, and how it starts. The settings
  come from the environment; \<open>parse_duration\<close> stands for \<open>time.ParseDuration\<close>. The loop of the
  primary is in \<open>Primary\<close>, that of the replica in \<open>Replica\<close>.

  The results: a process that starts has at most one writer, and its database has the current
  schema by then.
\<close>

section \<open>Roles\<close>

definition roleAPI :: string where "roleAPI = ''api''"
definition rolePrimary :: string where "rolePrimary = ''primary''"
definition roleReplica :: string where "roleReplica = ''replica''"
definition roleReplicator :: string where "roleReplicator = ''replicator''"

lemmas role_names = roleAPI_def rolePrimary_def roleReplica_def roleReplicator_def

fun collect_roles :: "string list \<Rightarrow> string set \<Rightarrow> string + string set" where
  "collect_roles [] roles = Inr roles"
| "collect_roles (raw # raws) roles =
     (let r = TrimSpace raw in
      if r = [] then collect_roles raws roles
      else if r = roleAPI \<or> r = rolePrimary \<or> r = roleReplica \<or> r = roleReplicator
      then collect_roles raws (insert r roles)
      else Inl r)"

text \<open>The error is the unknown role.\<close>

definition selectRoles :: "string list \<Rightarrow> string \<Rightarrow> string + string set" where
  "selectRoles args env = collect_roles (if args = [] \<and> env \<noteq> [] then Split env CHR '','' else args) {}"

definition roleList :: "string set \<Rightarrow> string" where
  "roleList roles = Join (filter (\<lambda>r. r \<in> roles) [rolePrimary, roleReplica, roleReplicator, roleAPI]) '',''"

section \<open>Settings\<close>

text \<open>Durations are nanoseconds.\<close>

definition hour_ns :: int where "hour_ns = 3600000000000"
definition DefaultChangelogRetention :: int where "DefaultChangelogRetention = 168 * hour_ns"
definition defaultSnapshotInterval :: int where "defaultSnapshotInterval = 24 * hour_ns"

datatype setting_error =
    InvalidRetention string | InvalidSnapshotInterval string | SnapshotDirFailed | InvalidMaxEvents string
  | InvalidMaxTimeout string | NoContact | NoUpstream

definition parseChangelogRetention :: "(string \<Rightarrow> int option) \<Rightarrow> string \<Rightarrow> setting_error + int" where
  "parseChangelogRetention parse_duration val =
     (if val = [] then Inr DefaultChangelogRetention
      else (case parse_duration val of
              Some d \<Rightarrow> Inr d
            | None \<Rightarrow>
                (case ParseInt val of
                   (_, Some _) \<Rightarrow> Inl (InvalidRetention val)
                 | (h, None) \<Rightarrow> Inr (wrap64 (h * hour_ns)))))"

text \<open>What the two writers need before they start; the result is the retention of the changelog.\<close>

definition primary_settings :: "(string \<Rightarrow> int option) \<Rightarrow> string \<Rightarrow> string \<Rightarrow> setting_error + int" where
  "primary_settings parse_duration contact retention =
     (if contact = [] then Inl NoContact else parseChangelogRetention parse_duration retention)"

definition replica_settings :: "(string \<Rightarrow> int option) \<Rightarrow> string \<Rightarrow> string \<Rightarrow> setting_error + int" where
  "replica_settings parse_duration upstream retention =
     (if upstream = [] then Inl NoUpstream else parseChangelogRetention parse_duration retention)"

record replicator_env =
  re_snapshotDir :: string
  re_interval :: string
  re_maxEvents :: string
  re_maxTimeout :: string
  re_mkdir :: bool

record replicator =
  rp_dir :: string
  rp_interval :: int
  rp_limits :: StreamLimits

definition max_events :: "string \<Rightarrow> StreamLimits \<Rightarrow> setting_error + StreamLimits" where
  "max_events val limits =
     (if val = [] then Inr limits
      else (case ParseInt val of
              (_, Some _) \<Rightarrow> Inl (InvalidMaxEvents val)
            | (n, None) \<Rightarrow> if n \<le> 0 then Inl (InvalidMaxEvents val) else Inr (limits\<lparr>MaxEvents := n\<rparr>)))"

definition max_timeout :: "(string \<Rightarrow> int option) \<Rightarrow> string \<Rightarrow> StreamLimits \<Rightarrow> setting_error + StreamLimits" where
  "max_timeout parse_duration val limits =
     (if val = [] then Inr limits
      else (case parse_duration val of
              None \<Rightarrow> Inl (InvalidMaxTimeout val)
            | Some d \<Rightarrow> if d < 0 then Inl (InvalidMaxTimeout val) else Inr (limits\<lparr>MaxTimeout := d\<rparr>)))"

definition setupReplicateHandler :: "(string \<Rightarrow> int option) \<Rightarrow> replicator_env \<Rightarrow> setting_error + replicator" where
  "setupReplicateHandler parse_duration env =
     (let dir = (if re_snapshotDir env = [] then ''/data/snapshots'' else re_snapshotDir env) in
      (case (if re_interval env = [] then Some defaultSnapshotInterval else parse_duration (re_interval env)) of
         None \<Rightarrow> Inl (InvalidSnapshotInterval (re_interval env))
       | Some interval \<Rightarrow>
           if \<not> re_mkdir env then Inl SnapshotDirFailed
           else (case max_events (re_maxEvents env) DefaultStreamLimits of
                   Inl e \<Rightarrow> Inl e
                 | Inr limits1 \<Rightarrow>
                     (case max_timeout parse_duration (re_maxTimeout env) limits1 of
                        Inl e \<Rightarrow> Inl e
                      | Inr limits2 \<Rightarrow> Inr \<lparr>rp_dir = dir, rp_interval = interval, rp_limits = limits2\<rparr>))))"

section \<open>The database connection\<close>

text \<open>Durations of the driver are nanoseconds; a field that is not set is zero.\<close>

record Options =
  op_Addr :: string
  op_Protocol :: int
  op_DialTimeout :: int
  op_ReadTimeout :: int
  op_WriteTimeout :: int
  op_PoolSize :: int
  op_MaxRetries :: int
  op_MinRetryBackoff :: int

record Client =
  cl_Options :: Options
  cl_open :: bool

definition client_options :: "string \<Rightarrow> Options" where
  "client_options addr = \<lparr>op_Addr = addr, op_Protocol = 2, op_DialTimeout = 5000000000, op_ReadTimeout = 60000000000,
     op_WriteTimeout = 60000000000, op_PoolSize = 10, op_MaxRetries = 0, op_MinRetryBackoff = 0\<rparr>"

definition test_options :: "string \<Rightarrow> Options" where
  "test_options addr = \<lparr>op_Addr = addr, op_Protocol = 2, op_DialTimeout = 50000000, op_ReadTimeout = 100000000,
     op_WriteTimeout = 100000000, op_PoolSize = 2, op_MaxRetries = 0, op_MinRetryBackoff = - 1\<rparr>"

definition Close :: "Client \<Rightarrow> Client" where
  "Close c = c\<lparr>cl_open := False\<rparr>"

text \<open>The result (the error names the address) and the driver's pool; \<open>ping\<close> says whether the server answered.\<close>

definition newClient :: "string \<Rightarrow> Options \<Rightarrow> bool \<Rightarrow> (string + Client) \<times> Client" where
  "newClient addr opts ping =
     (let rdb = \<lparr>cl_Options = opts, cl_open = True\<rparr>
      in if ping then (Inr rdb, rdb) else (Inl addr, Close rdb))"

definition NewClient :: "string \<Rightarrow> bool \<Rightarrow> (string + Client) \<times> Client" where
  "NewClient addr ping = newClient addr (client_options addr) ping"

definition NewTestClient :: "string \<Rightarrow> bool \<Rightarrow> (string + Client) \<times> Client" where
  "NewTestClient addr ping = newClient addr (test_options addr) ping"

text \<open>No pool is left open by a connection that failed.\<close>

lemma newClient_pool: "cl_open (snd (newClient addr opts ping)) \<longleftrightarrow> (\<exists>c. fst (newClient addr opts ping) = Inr c)"
  by (simp add: newClient_def Close_def Let_def)

section \<open>The HTTP roles\<close>

definition httpRoleName :: "bool \<Rightarrow> bool \<Rightarrow> string" where
  "httpRoleName replicator api = (if replicator \<and> api then ''http'' else if replicator then roleReplicator else roleAPI)"

definition apiWriteTimeout :: int where "apiWriteTimeout = 10000000000"

text \<open>The deadline for writing a reply, if the connection has such deadlines.\<close>

definition withWriteDeadline :: "int \<Rightarrow> bool \<Rightarrow> int \<Rightarrow> int option" where
  "withWriteDeadline d supported now = (if supported then Some (now + d) else None)"

definition setupAPIHandler :: "Reader \<Rightarrow> string \<Rightarrow> string \<Rightarrow> Server" where
  "setupAPIHandler rd ver encodings = \<lparr>sv_reader = rd, sv_version = ver, sv_encodings = ParseEncodings encodings\<rparr>"

text \<open>Timeouts of the server; zero is none.\<close>

record http_server =
  hs_Addr :: string
  hs_ReadTimeout :: int
  hs_WriteTimeout :: int
  hs_IdleTimeout :: int

definition newHTTPServer :: "string \<Rightarrow> http_server" where
  "newHTTPServer addr = \<lparr>hs_Addr = addr, hs_ReadTimeout = 5000000000, hs_WriteTimeout = 0, hs_IdleTimeout = 120000000000\<rparr>"

datatype http_target = ReplicateTarget "string list" | ApiTarget "int option" "string list" | SubtreeRedirect

text \<open>
  Where a request goes: the replication handler sees its path without the prefix \<open>/v1\<close>; the
  multiplexer answers the root of its subtree without the last slash with a redirect.
\<close>

fun mountReplicate :: "string list \<Rightarrow> string list option" where
  "mountReplicate (a # b # c # rest) = (if a = ''v1'' \<and> b = ''replicate'' then Some (b # c # rest) else None)"
| "mountReplicate _ = None"

definition buildHTTPHandler :: "bool \<Rightarrow> bool \<Rightarrow> bool \<Rightarrow> int \<Rightarrow> string list \<Rightarrow> http_target option" where
  "buildHTTPHandler replicator api supported now segs =
     (if replicator \<and> segs = [''v1'', ''replicate''] then Some SubtreeRedirect
      else case (if replicator then mountReplicate segs else None) of
        Some path \<Rightarrow> Some (ReplicateTarget path)
      | None \<Rightarrow> if api then Some (ApiTarget (withWriteDeadline apiWriteTimeout supported now) segs) else None)"

text \<open>
  On one server the two roles do not get in each other's way: a request for the replication is
  never the API's and has no deadline, every other one is the API's and has one.
\<close>

lemma roles_apart:
  "segs \<noteq> [''v1'', ''replicate''] \<Longrightarrow> buildHTTPHandler True True True now segs =
     (case mountReplicate segs of Some path \<Rightarrow> Some (ReplicateTarget path) | None \<Rightarrow> Some (ApiTarget (Some (now + apiWriteTimeout)) segs))"
  "buildHTTPHandler False True True now segs = Some (ApiTarget (Some (now + apiWriteTimeout)) segs)"
  "segs \<noteq> [''v1'', ''replicate''] \<Longrightarrow>
     buildHTTPHandler True False supported now segs = map_option ReplicateTarget (mountReplicate segs)"
  by (simp_all add: buildHTTPHandler_def withWriteDeadline_def split: option.split)

text \<open>The name, the server and the replicator of the HTTP roles, if there are any.\<close>

definition startHTTPRoles ::
  "(string \<Rightarrow> int option) \<Rightarrow> replicator_env \<Rightarrow> string \<Rightarrow> bool \<Rightarrow> bool \<Rightarrow>
   setting_error + (string \<times> http_server \<times> replicator option) option" where
  "startHTTPRoles parse_duration env listen replicator api =
     (if \<not> replicator \<and> \<not> api then Inr None
      else
        let server = newHTTPServer (if listen = [] then '':8080'' else listen) in
        if replicator
        then (case setupReplicateHandler parse_duration env of
                Inl e \<Rightarrow> Inl e
              | Inr rp \<Rightarrow> Inr (Some (httpRoleName replicator api, server, Some rp)))
        else Inr (Some (httpRoleName replicator api, server, None)))"

datatype serve_error = ListenFailed string | ShutdownFailed string

text \<open>The first of the two events counts: the server stops by itself, or the context is cancelled.\<close>

definition serveHTTP :: "string \<Rightarrow> bool option \<Rightarrow> bool \<Rightarrow> serve_error option" where
  "serveHTTP name stopped shutdown_ok =
     (case stopped of
        Some ok \<Rightarrow> if ok then None else Some (ListenFailed name)
      | None \<Rightarrow> if shutdown_ok then None else Some (ShutdownFailed name))"

section \<open>The process\<close>

record process_env =
  pe_args :: "string list"
  pe_roles :: string
  pe_kvrocks :: string
  pe_ping :: bool
  pe_reader :: bool
  pe_migrate :: "call \<times> call \<times> call"
  pe_replicator :: replicator_env
  pe_listen :: string

datatype start_error =
    InvalidRoles string | NoRoles | TwoWriters | NotConnected string | MigrationFailed store_error
  | HttpRolesFailed setting_error "string list"

definition kvrocks_addr :: "string \<Rightarrow> string" where
  "kvrocks_addr addr = (if addr = [] then ''localhost:6666'' else addr)"

text \<open>
  The reader of the process and the goroutines that \<open>main\<close> starts, by name. The reader is made before
  the schema is migrated. An error of the HTTP roles comes with the writers that run by then.
\<close>

definition main :: "'s redis \<Rightarrow> (string \<Rightarrow> int option) \<Rightarrow> process_env \<Rightarrow> 's \<Rightarrow> (start_error + Reader \<times> string list) \<times> 's" where
  "main R parse_duration env s =
     (case selectRoles (pe_args env) (pe_roles env) of
        Inl r \<Rightarrow> (Inl (InvalidRoles r), s)
      | Inr roles \<Rightarrow>
          if roles = {} then (Inl NoRoles, s)
          else if rolePrimary \<in> roles \<and> roleReplica \<in> roles then (Inl TwoWriters, s)
          else
            (case fst (NewClient (kvrocks_addr (pe_kvrocks env)) (pe_ping env)) of
               Inl addr \<Rightarrow> (Inl (NotConnected addr), s)
             | Inr _ \<Rightarrow>
                 let reader = NewReader R (pe_reader env) s in
                 (case (if rolePrimary \<in> roles \<or> roleReplica \<in> roles
                        then (case pe_migrate env of (c0, c1, c2) \<Rightarrow> MigrateSchema R c0 c1 c2 s)
                        else (None, s)) of
                    (Some e, s') \<Rightarrow> (Inl (MigrationFailed e), s')
                  | (None, s') \<Rightarrow>
                      let writers = (if rolePrimary \<in> roles then [rolePrimary] else []) @
                            (if roleReplica \<in> roles then [roleReplica] else [])
                      in (case startHTTPRoles parse_duration (pe_replicator env) (pe_listen env)
                                 (roleReplicator \<in> roles) (roleAPI \<in> roles) of
                            Inl e \<Rightarrow> (Inl (HttpRolesFailed e writers), s')
                          | Inr http \<Rightarrow>
                              (Inr (reader, writers @ (case http of None \<Rightarrow> [] | Some (name, _) \<Rightarrow> [name])), s')))))"

datatype role_result = Returned | RoleCancelled | RoleFailed string

text \<open>The results of the roles in the order in which they come; the first failure is the one reported.\<close>

fun first_failure :: "role_result list \<Rightarrow> string option" where
  "first_failure [] = None"
| "first_failure (RoleFailed e # rs) = Some e"
| "first_failure (_ # rs) = first_failure rs"

section \<open>What a process starts with\<close>

definition all_roles :: "string set" where
  "all_roles = {roleAPI, rolePrimary, roleReplica, roleReplicator}"

lemma collect_known: "collect_roles raws roles = Inr roles' \<Longrightarrow> roles \<subseteq> all_roles \<Longrightarrow> roles' \<subseteq> all_roles"
  by (induction raws arbitrary: roles) (auto simp: Let_def all_roles_def split: if_splits)

lemma role_names_distinct:
  "rolePrimary \<noteq> roleReplica" "httpRoleName a b \<noteq> rolePrimary" "httpRoleName a b \<noteq> roleReplica"
  by (auto simp: httpRoleName_def role_names)

lemma http_started:
  "startHTTPRoles pd env listen r a = Inr None \<Longrightarrow> \<not> r \<and> \<not> a"
  "startHTTPRoles pd env listen r a = Inr (Some (name, x)) \<Longrightarrow> name = httpRoleName r a"
  by (auto simp: startHTTPRoles_def Let_def split: if_splits sum.splits)

lemma migrated:
  assumes R: "redis_ok R v" and run: "MigrateSchema R c0 c1 c2 s = (None, s')"
  shows "hashes (v s') metaKey ''schema_version'' = Some SchemaVersion \<and> (v s' = v s \<or> v s' = fresh_content)"
  using run by (cases c1; cases c2)
    (auto simp: MigrateSchema_def redis_hash(1)[OF R] view_flush[OF R] split: if_splits)

text \<open>What a process does that gets past its checks.\<close>

definition writers_of :: "string set \<Rightarrow> string list" where
  "writers_of roles = (if rolePrimary \<in> roles then [rolePrimary] else []) @ (if roleReplica \<in> roles then [roleReplica] else [])"

lemma main_started:
  assumes "main R pd env s = (Inr (rd, started), s')"
  obtains roles http where "roles \<noteq> {}" "roles \<subseteq> all_roles" "\<not> (rolePrimary \<in> roles \<and> roleReplica \<in> roles)"
    "rolePrimary \<in> roles \<or> roleReplica \<in> roles \<Longrightarrow> \<exists>c0 c1 c2. MigrateSchema R c0 c1 c2 s = (None, s')"
    "startHTTPRoles pd (pe_replicator env) (pe_listen env) (roleReplicator \<in> roles) (roleAPI \<in> roles) = Inr http"
    "started = writers_of roles @ (case http of None \<Rightarrow> [] | Some (name, _) \<Rightarrow> [name])"
    "rd = NewReader R (pe_reader env) s"
proof -
  obtain roles where sel: "selectRoles (pe_args env) (pe_roles env) = Inr roles"
    using assms by (auto simp: main_def split: sum.splits)
  then have known: "roles \<subseteq> all_roles" using collect_known unfolding selectRoles_def by blast
  obtain e1 s1 where m: "(if rolePrimary \<in> roles \<or> roleReplica \<in> roles
      then (case pe_migrate env of (c0, c1, c2) \<Rightarrow> MigrateSchema R c0 c1 c2 s) else (None, s)) = (e1, s1)" by fastforce
  obtain h where h: "startHTTPRoles pd (pe_replicator env) (pe_listen env) (roleReplicator \<in> roles) (roleAPI \<in> roles) = h" by blast
  note run = assms[unfolded main_def sel sum.case m h prod.case, folded writers_of_def, unfolded Let_def]
  have c: "roles \<noteq> {}" "\<not> (rolePrimary \<in> roles \<and> roleReplica \<in> roles)" using run by (auto split: if_splits)
  then obtain http where http: "h = Inr http" "e1 = None" "s1 = s'" "rd = NewReader R (pe_reader env) s"
    "started = writers_of roles @ (case http of None \<Rightarrow> [] | Some (name, _) \<Rightarrow> [name])"
    using run by (simp only: if_False) (auto split: sum.splits option.splits)
  moreover have "\<exists>c0 c1 c2. MigrateSchema R c0 c1 c2 s = (None, s')" if "rolePrimary \<in> roles \<or> roleReplica \<in> roles"
    using m http(2,3) that by (cases "pe_migrate env") auto
  ultimately show thesis using that[OF c(1) known c(2)] h by blast
qed

text \<open>
  Claim C33: a process that starts runs something, never both writers, and if it runs one, the
  database has the current schema: it is as it was if it had that already, and empty otherwise. Its
  reader, however, is the one made before: unless the database had the current schema when the
  process began, the reader answers every lookup with a schema mismatch, for as long as the process runs.
\<close>

theorem main_starts_ready:
  assumes "redis_ok R v" and "main R parse_duration env s = (Inr (rd, started), s')"
  shows "started \<noteq> [] \<and> \<not> (rolePrimary \<in> set started \<and> roleReplica \<in> set started) \<and>
    (rolePrimary \<in> set started \<or> roleReplica \<in> set started \<longrightarrow>
       hashes (v s') metaKey ''schema_version'' = Some SchemaVersion \<and> (v s' = v s \<or> v s' = fresh_content)) \<and>
    (hashes (v s) metaKey ''schema_version'' \<noteq> Some SchemaVersion \<longrightarrow>
       (\<forall>answered property val t. LookupByPropertyContext R rd answered property val t = Inl SchemaMismatch))"
proof -
  obtain roles http where r: "roles \<noteq> {}" "roles \<subseteq> all_roles" "\<not> (rolePrimary \<in> roles \<and> roleReplica \<in> roles)"
    "rolePrimary \<in> roles \<or> roleReplica \<in> roles \<Longrightarrow> \<exists>c0 c1 c2. MigrateSchema R c0 c1 c2 s = (None, s')"
    "startHTTPRoles parse_duration (pe_replicator env) (pe_listen env) (roleReplicator \<in> roles) (roleAPI \<in> roles) = Inr http"
    and started: "started = writers_of roles @ (case http of None \<Rightarrow> [] | Some (name, _) \<Rightarrow> [name])"
    and rd: "rd = NewReader R (pe_reader env) s"
    using main_started[OF assms(2)] by metis
  have "name = httpRoleName (roleReplicator \<in> roles) (roleAPI \<in> roles)" if "http = Some (name, x)" for name x
    using http_started(2) r(5)[unfolded that] by blast
  then have writers: "rolePrimary \<in> set started \<longleftrightarrow> rolePrimary \<in> roles" "roleReplica \<in> set started \<longleftrightarrow> roleReplica \<in> roles"
    using role_names_distinct role_names_distinct(2,3)[symmetric] by (auto simp: started writers_of_def split: option.splits)
  have "started \<noteq> []" using r(1,2,5) by (auto simp: started writers_of_def all_roles_def dest: http_started(1) split: option.splits)
  moreover have "LookupByPropertyContext R rd answered property val t = Inl SchemaMismatch"
    if "hashes (v s) metaKey ''schema_version'' \<noteq> Some SchemaVersion" for answered property val t
    using that by (simp add: LookupByPropertyContext_def rd NewReader_def redis_hash(1)[OF assms(1)])
  ultimately show ?thesis using writers r(3,4) migrated[OF assms(1)] by metis
qed

section \<open>Settings that surprise\<close>

text \<open>A retention in hours is multiplied without a check: 2562048 hours are a negative duration.\<close>

lemma parseChangelogRetention_wraps:
  assumes "parse_duration ''2562048'' = None"
  shows "\<exists>d < 0. parseChangelogRetention parse_duration ''2562048'' = Inr d"
proof -
  have "FormatInt 2562048 = ''2562048''" by (simp add: FormatInt_def format_nat.simps digit_char_def char_of_eqI)
  moreover have "int64 2562048" by (simp add: int64_def)
  ultimately have "ParseInt ''2562048'' = (2562048, None)" using ParseInt_FormatInt by metis
  then have "parseChangelogRetention parse_duration ''2562048'' = Inr (wrap64 (2562048 * hour_ns))"
    using assms by (simp add: parseChangelogRetention_def)
  moreover have "wrap64 (2562048 * hour_ns) < 0" by (simp add: wrap64_def hour_ns_def)
  ultimately show ?thesis by blast
qed

section \<open>Witness\<close>

definition example_process :: process_env where
  "example_process = \<lparr>pe_args = [''primary'', ''api''], pe_roles = [], pe_kvrocks = [], pe_ping = True, pe_reader = True,
     pe_migrate = (Answered, Answered, Answered),
     pe_replicator = \<lparr>re_snapshotDir = [], re_interval = [], re_maxEvents = [], re_maxTimeout = [], re_mkdir = True\<rparr>,
     pe_listen = []\<rparr>"

lemma main_starts_ready_witness:
  "\<exists>rd s'. main mem_redis (\<lambda>_. None) example_process no_content = (Inr (rd, [''primary'', ''api'']), s') \<and>
     s' = fresh_content \<and> LookupByPropertyContext mem_redis rd True 1 ''x'' s' = Inl SchemaMismatch"
proof -
  have t: "TrimSpace ''primary'' = ''primary''" "TrimSpace ''api'' = ''api''"
    by (simp_all add: TrimSpace_def trim_front.simps white_space_def HasPrefix_def)
  have sel: "selectRoles [''primary'', ''api''] [] = Inr {''primary'', ''api''}"
    by (simp add: selectRoles_def t role_names insert_commute)
  have con: "fst (NewClient addr True) = Inr \<lparr>cl_Options = client_options addr, cl_open = True\<rparr>" for addr
    by (simp add: NewClient_def newClient_def Let_def)
  have http: "startHTTPRoles pd env listen False True = Inr (Some (''api'', newHTTPServer (if listen = [] then '':8080'' else listen), None))"
    for pd env listen by (simp add: startHTTPRoles_def httpRoleName_def role_names Let_def)
  obtain s' where m: "MigrateSchema mem_redis Answered Answered Answered no_content = (None, s')"
    by (auto simp: MigrateSchema_def redis_hash(1)[OF mem_redis_ok])
  obtain rd where run: "main mem_redis (\<lambda>_. None) example_process no_content = (Inr (rd, [''primary'', ''api'']), s')"
    by (simp add: main_def example_process_def sel con http m role_names Let_def)
  from main_starts_ready[OF mem_redis_ok run] have "hashes s' metaKey ''schema_version'' = Some SchemaVersion"
    "s' = no_content \<or> s' = fresh_content" "LookupByPropertyContext mem_redis rd True 1 ''x'' s' = Inl SchemaMismatch"
    by (simp_all add: role_names)
  moreover from this have "s' = fresh_content" by auto
  ultimately show ?thesis using run by blast
qed

end
