(* ===== verification/ReplicaRole.thy ===== *)
theory ReplicaRole
  imports ReplicaRuns Roles
begin

text \<open>
  \<open>runReplica\<close> of \<open>cmd/wdxref/main.go\<close>: the settings of the replica, then \<open>Client.Run\<close>. An error of
  \<open>Run\<close> counts only while the process is not being stopped. The trimmer of the changelog, which runs
  beside it, is \<open>trimmer_turn\<close> of \<open>Admin\<close>.
\<close>

datatype replica_exit = BadSettings setting_error | ReplicaFailed store_error

definition runReplica ::
  "'s redis \<Rightarrow> json_codec \<Rightarrow> (string \<Rightarrow> string) \<Rightarrow> (string \<Rightarrow> int option) \<Rightarrow> string \<Rightarrow> string \<Rightarrow> bool \<Rightarrow>
   replica_in list \<Rightarrow> Writer \<times> 's \<Rightarrow> replica_exit option \<times> Writer \<times> 's" where
  "runReplica R J reset_state parse_duration upstreamURL retention cancelled turns ws =
     (case replica_settings parse_duration upstreamURL retention of
        Inl e \<Rightarrow> (Some (BadSettings e), ws)
      | Inr _ \<Rightarrow>
          (case Run R J reset_state turns ws of
             (Some e, ws') \<Rightarrow> (if cancelled then None else Some (ReplicaFailed e), ws')
           | (None, ws') \<Rightarrow> (None, ws')))"

text \<open>
  Only a position that cannot be read ends a replica that has its settings: every other failure is
  tried again.
\<close>

lemma runReplica_runs:
  assumes "replica_settings pd upstreamURL retention = Inr d" "\<forall>t \<in> set turns. ri_position t"
  shows "runReplica R J reset_state pd upstreamURL retention cancelled turns ws =
    (None, snd (Run R J reset_state turns ws))"
  using run_answered[OF assms(2), of R J reset_state ws]
  by (cases "Run R J reset_state turns ws") (simp add: runReplica_def assms(1))

text \<open>Without an upstream or with a bad retention nothing is done.\<close>

lemma runReplica_refused:
  assumes "upstreamURL = [] \<or> (\<exists>e. parseChangelogRetention pd retention = Inl e)"
  shows "\<exists>e. runReplica R J reset_state pd upstreamURL retention cancelled turns ws = (Some (BadSettings e), ws)"
  using assms by (auto simp: runReplica_def replica_settings_def)

end
