(* ===== verification/Primary.thy ===== *)
theory Primary
  imports Queue Seed Transitions
begin

text \<open>
  The loop of the primary: \<open>runPrimary\<close> of \<open>cmd/wdxref/main.go\<close> and \<open>Watch\<close> of
  \<open>internal/watcher/eventstream.go\<close>, as a step relation over what its goroutines do to the store.
  A step is one call or one pipe; those of the event stream's writer, of the queue and of the
  retries interleave freely while the watcher runs, with any batch, fate, answer and clock.

  The results: the watcher only runs on a database whose import is complete, a stream that does
  not go back far enough leads to a new import, and the invariant of the store holds throughout.
  The changelog trimmer, which only shortens the changelog (\<open>Admin\<close>), is left out.
\<close>

section \<open>The machine\<close>

text \<open>
  \<open>TooOld\<close> is a watcher that has found the gap and waits for its goroutines; \<open>Stopped\<close> is a process
  that has returned, was cancelled or has crashed; another one may be started.
\<close>

datatype phase = Checking | Seeding | Announcing | Recovering | Watching | TooOld | Stopped

definition running :: "phase \<Rightarrow> bool" where
  "running ph \<longleftrightarrow> ph = Watching \<or> ph = TooOld"

definition next_phase :: "phase \<Rightarrow> 'e option \<Rightarrow> phase" where
  "next_phase ph err = (case err of None \<Rightarrow> ph | Some _ \<Rightarrow> Stopped)"

text \<open>\<open>rfc\<close> prints the date of a dump.\<close>

inductive primary_step ::
  "'s redis \<Rightarrow> wiki_json \<Rightarrow> (string \<Rightarrow> string) \<Rightarrow> (string \<Rightarrow> string option) \<Rightarrow>
   phase \<times> Writer \<times> 's \<Rightarrow> phase \<times> Writer \<times> 's \<Rightarrow> bool" for R W sha rfc where
  needs_seed: "NeedsSeed R sha a1 a2 (snd ws) = Inr True \<Longrightarrow> primary_step R W sha rfc (Checking, ws) (Seeding, ws)"
| up_to_date: "NeedsSeed R sha a1 a2 (snd ws) = Inr False \<Longrightarrow> primary_step R W sha rfc (Checking, ws) (Announcing, ws)"
| check_failed: "NeedsSeed R sha a1 a2 (snd ws) = Inl e \<Longrightarrow> primary_step R W sha rfc (Checking, ws) (Stopped, ws)"
| seed: "se_rfc3339 env = rfc \<Longrightarrow> Seed R W sha env ws = (err, ws') \<Longrightarrow>
    primary_step R W sha rfc (Seeding, ws) (next_phase Announcing err, ws')"
| announce: "run_pipe R f (SetSyncState ''state'' ''streaming'') ws = (err, ws') \<Longrightarrow>
    primary_step R W sha rfc (Announcing, ws) (next_phase Recovering err, ws')"
| recover: "RecoverProcessing R c1 c2 (snd ws) = (err, s') \<Longrightarrow>
    primary_step R W sha rfc (Recovering, ws) (next_phase Watching err, fst ws, s')"
| flush: "running ph \<Longrightarrow> flushOnce R f b ws = (err, b', ws') \<Longrightarrow> primary_step R W sha rfc (ph, ws) (ph, ws')"
| gap: "run_pipe R f (DelSyncStates [''dump_time'', ''last_event_id'']) ws = (err, ws') \<Longrightarrow>
    primary_step R W sha rfc (Watching, ws) (TooOld, ws')"
| claim: "running ph \<Longrightarrow> ClaimPendingBatch R c retryBatchSize (snd ws) = (out, s') \<Longrightarrow>
    primary_step R W sha rfc (ph, ws) (ph, fst ws, s')"
| process: "running ph \<Longrightarrow> processor R W up f wc qids ws = (res, ws') \<Longrightarrow> primary_step R W sha rfc (ph, ws) (ph, ws')"
| requeue: "running ph \<Longrightarrow> requeueOnFailure R f qids ws = ws' \<Longrightarrow> primary_step R W sha rfc (ph, ws) (ph, ws')"
| acknowledge: "running ph \<Longrightarrow> run_pipe R f (ack_pipe now errs qids) ws = (err, ws') \<Longrightarrow>
    primary_step R W sha rfc (ph, ws) (ph, ws')"
| retry: "running ph \<Longrightarrow> run_pipe R f (retry_pipe now errs qid) ws = (err, ws') \<Longrightarrow>
    primary_step R W sha rfc (ph, ws) (ph, ws')"
| too_old: "primary_step R W sha rfc (TooOld, ws) (Checking, ws)"
| stop: "primary_step R W sha rfc (ph, ws) (Stopped, ws)"
| restart: "primary_step R W sha rfc (Stopped, ws) (Checking, \<lparr>scriptsLoaded = False\<rparr>, snd ws)"

section \<open>Pipes of the primary\<close>

definition tidy :: "'s redis \<Rightarrow> (Pipe \<Rightarrow> Pipe) \<Rightarrow> bool" where
  "tidy R build \<longleftrightarrow> (\<forall>p e. p_err p = Some e \<longrightarrow> p_err (build p) = Some e) \<and> pipe_ok R (build \<lparr>p_err = None, p_cmds = []\<rparr>)"

text \<open>The fields that say whether the database counts as seeded.\<close>

definition mark :: "astore \<Rightarrow> string option \<times> string option" where
  "mark a = (a_sync a ''dump_time'', a_sync a ''config_hash'')"

definition leaves_mark :: "cmd list \<Rightarrow> bool" where
  "leaves_mark cs \<longleftrightarrow> (\<forall>k \<in> set cs. \<forall>a. mark (cmd_spec k a) = mark a)"

lemma leaves_mark_fold: "leaves_mark cs \<Longrightarrow> mark (fold cmd_spec cs a) = mark a"
  by (induction cs arbitrary: a) (auto simp: leaves_mark_def)

lemma a_fin_cmd: "a_fin a \<Longrightarrow> a_fin (cmd_spec k a)"
  by (cases k) (auto simp: a_fin_def change_entity_def)

lemma a_fin_fold: "a_fin a \<Longrightarrow> a_fin (fold cmd_spec cs a)"
  by (induction cs arbitrary: a) (simp_all add: a_fin_cmd)

lemma watch_inv_abstract:
  "redis_ok R v \<Longrightarrow> watch_inv R v s \<longleftrightarrow> index_ok R (v s) \<and> a_fin (abstract (v s))"
  by (auto simp: watch_inv_def queue_inv_def a_fin_def)

lemma pipe_step:
  assumes R: "redis_ok R v" and t: "tidy R build" and i: "watch_inv R v (snd ws)" and run: "run_pipe R f build ws = (err, ws')"
  shows "watch_inv R v (snd ws')"
    and "leaves_mark (p_cmds (build \<lparr>p_err = None, p_cmds = []\<rparr>)) \<Longrightarrow> mark (abstract (v (snd ws'))) = mark (abstract (v (snd ws)))"
proof -
  let ?new = "\<lparr>p_err = None, p_cmds = []\<rparr>"
  have keeps: "p_err p = Some e \<Longrightarrow> p_err (build p) = Some e" for p e using t by (simp add: tidy_def)
  have ok: "pipe_ok R (build ?new)" using t by (simp add: tidy_def)
  have c: "index_ok R (v (snd ws))" "a_fin (abstract (v (snd ws)))" using i watch_inv_abstract[OF R] by blast+
  obtain ps where ps: "\<forall>p \<in> set ps. \<exists>n. p = take n (p_cmds (build ?new))"
    "abstract (v (snd (snd (run_pipe R f build ws)))) = prefixes_spec ps (abstract (v (snd ws)))"
    "index_ok R (v (snd (snd (run_pipe R f build ws))))"
    using run_pipe_refines[where build = build and f = f, OF R c(1) keeps ok] by metis
  have "a_fin (prefixes_spec ps (abstract (v (snd ws))))"
    by (rule prefixes_keep[where I = a_fin, OF ps(1) a_fin_fold c(2)])
  with ps(2,3) run show "watch_inv R v (snd ws')" by (simp add: watch_inv_abstract[OF R])
  assume m: "leaves_mark (p_cmds (build ?new))"
  have "leaves_mark (take n (p_cmds (build ?new)))" for n using m by (auto simp: leaves_mark_def dest: in_set_takeD)
  then have "mark (prefixes_spec ps (abstract (v (snd ws)))) = mark (abstract (v (snd ws)))"
    using prefixes_keep[OF ps(1), of "\<lambda>a. mark a = mark (abstract (v (snd ws)))"] leaves_mark_fold by metis
  with ps(2) run show "mark (abstract (v (snd ws'))) = mark (abstract (v (snd ws)))" by simp
qed

definition safe_cmd :: "cmd \<Rightarrow> bool" where
  "safe_cmd k \<longleftrightarrow> (case k of HSet _ f _ \<Rightarrow> f \<notin> {''dump_time'', ''config_hash''} | HDel _ _ \<Rightarrow> False | _ \<Rightarrow> True)"

lemma safe_cmds: "\<forall>k \<in> set cs. safe_cmd k \<Longrightarrow> leaves_mark cs"
  unfolding leaves_mark_def
proof (intro ballI allI)
  fix k a
  assume "\<forall>k \<in> set cs. safe_cmd k" "k \<in> set cs"
  then have "safe_cmd k" by blast
  then show "mark (cmd_spec k a) = mark a"
    by (cases k) (auto simp: safe_cmd_def mark_def change_entity_def)
qed

definition safe :: "Pipe \<Rightarrow> bool" where
  "safe p \<longleftrightarrow> (\<forall>k \<in> set (p_cmds p). safe_cmd k)"

lemma safe_simps [simp]:
  "safe \<lparr>p_err = e, p_cmds = []\<rparr>" "safe (queue k p) \<longleftrightarrow> safe p \<and> safe_cmd k" "safe (fail err p) \<longleftrightarrow> safe p"
  by (auto simp: safe_def queue_def fail_def)

lemma safe_cmd_simps [simp]:
  "safe_cmd (SAdd k ms)" "safe_cmd (SRem k ms)" "safe_cmd (RunRecordFailed z g i m n t)" "safe_cmd (Del k)"
  "safe_cmd (ZRem k m)" "safe_cmd (RunUpsert m e)" "safe_cmd (RunDelete e)"
  "safe_cmd (HSet k f x) \<longleftrightarrow> f \<noteq> ''dump_time'' \<and> f \<noteq> ''config_hash''"
  by (simp_all add: safe_cmd_def)

lemma safe_ops [simp]:
  "safe p \<Longrightarrow> safe (EnqueueEntities qids p)" "safe p \<Longrightarrow> safe (AckProcessedEntities qids p)"
  "safe p \<Longrightarrow> safe (RecordFailedEntity now t qid msg p)" "safe p \<Longrightarrow> safe (DeleteFailedEntity qid p)"
  "safe p \<Longrightarrow> safe (UpsertEntity r p)" "safe p \<Longrightarrow> safe (DeleteEntity qid p)"
  "safe p \<Longrightarrow> f \<noteq> ''dump_time'' \<Longrightarrow> f \<noteq> ''config_hash'' \<Longrightarrow> safe (SetSyncState f x p)"
  by (simp_all add: EnqueueEntities_def AckProcessedEntities_def RecordFailedEntity_def DeleteFailedEntity_def UpsertEntity_def
      DeleteEntity_def SetSyncState_def split: sum.split option.split)

text \<open>A pipe of the running watcher: well formed, and without an effect on the mark.\<close>

definition harmless :: "'s redis \<Rightarrow> (Pipe \<Rightarrow> Pipe) \<Rightarrow> bool" where
  "harmless R build \<longleftrightarrow> tidy R build \<and> safe (build \<lparr>p_err = None, p_cmds = []\<rparr>)"

lemma harmlessI:
  assumes "\<And>p e. p_err p = Some e \<Longrightarrow> p_err (build p) = Some e"
    and "\<And>p. pipe_ok R p \<Longrightarrow> pipe_ok R (build p)" and "\<And>p. safe p \<Longrightarrow> safe (build p)"
  shows "harmless R build"
  unfolding harmless_def tidy_def using assms(1) assms(2)[OF new_pipe_ok] assms(3)[of "\<lparr>p_err = None, p_cmds = []\<rparr>"] by simp

lemma harmless_step:
  assumes "redis_ok R v" "harmless R build" "watch_inv R v (snd ws)" "run_pipe R f build ws = (err, ws')"
  shows "watch_inv R v (snd ws') \<and> mark (abstract (v (snd ws'))) = mark (abstract (v (snd ws)))"
  using pipe_step[OF assms(1) _ assms(3,4)] assms(2) safe_cmds by (simp add: harmless_def safe_def)

lemma harmless_pipes:
  "harmless R (flush_pipe b)" "harmless R (requeue_pipe qids)" "harmless R (ack_pipe now errs qids)"
  "harmless R (retry_pipe now errs qid)" "harmless R (SetSyncState ''state'' x)"
proof -
  show "harmless R (flush_pipe b)"
    by (rule harmlessI) (simp_all add: flush_sticky flush_pipe_ok, simp add: flush_pipe_def Let_def)
  show "harmless R (requeue_pipe qids)"
    by (rule harmlessI) (simp_all add: sticky queue_pipes_ok, simp add: requeue_pipe_def)
  have "safe (fold (record_failure now errs) qids p)" if "safe p" for p
    by (rule fold_invariant_set[where P = safe]) (use that in \<open>simp_all add: record_failure_def split: option.split\<close>)
  then show "harmless R (ack_pipe now errs qids)"
    by (intro harmlessI) (simp_all add: sticky queue_pipes_ok, simp add: ack_pipe_def)
  show "harmless R (retry_pipe now errs qid)"
  proof (rule harmlessI)
    show "p_err p = Some e \<Longrightarrow> p_err (retry_pipe now errs qid p) = Some e" for p e
      by (simp add: retry_pipe_def RecordFailedEntity_def DeleteFailedEntity_def split: option.split)
  qed (simp_all add: retry_pipe_def pipe_ok_ops split: option.split)
  show "harmless R (SetSyncState ''state'' x)"
    by (rule harmlessI) (simp_all add: pipe_ok_ops, simp add: SetSyncState_def)
qed

section \<open>Calls of the primary\<close>

definition same :: "('s \<Rightarrow> content) \<Rightarrow> 's redis \<Rightarrow> 's \<Rightarrow> 's \<Rightarrow> bool" where
  "same v R s s' \<longleftrightarrow> watch_inv R v s' \<and> mark (abstract (v s')) = mark (abstract (v s))"

lemma mark_content: "hashes c' metaKey = hashes c metaKey \<Longrightarrow> mark (abstract c') = mark (abstract c)"
  by (simp add: mark_def abstract_def)

lemma claim_same:
  assumes i: "watch_inv R v s" and run: "ClaimPendingBatch R c limit s = (out, s')"
  shows "same v R s s'"
proof -
  have R: "redis_ok R v" and fin: "finite (rsets (v s) pendingKey)" "finite (rsets (v s) processingKey)" and idx: "index_ok R (v s)"
    using i by (simp_all add: watch_inv_def queue_inv_def)
  obtain ms s2 where pop: "r_spop R pendingKey limit s = (ms, s2)" by fastforce
  obtain xs s1 where cl: "claimScript R pendingKey processingKey limit s = (xs, s1)" by fastforce
  note pl = redis_spop[OF R fin(1) pop]
  have "s1 = fold (r_sadd R processingKey) ms s2"
    using cl pop by (auto simp: claimScript_def split: if_splits)
  then have v: "v s1 = put_set processingKey (rsets (v s) processingKey \<union> set ms)
      (put_set pendingKey (rsets (v s) pendingKey - set ms) (v s))"
    by (simp add: view_fold_sadd[OF R] pl(4))
  have "same v R s s1"
    unfolding same_def
  proof
    show "watch_inv R v s1" using fin idx pl(2) by (simp add: watch_inv_def queue_inv_def R v set_frame)
    show "mark (abstract (v s1)) = mark (abstract (v s))" by (rule mark_content) (simp add: v)
  qed
  moreover have "same v R s s" using i by (simp add: same_def)
  moreover have "s' = s \<or> s' = s1" using run cl by (cases c) (auto simp: ClaimPendingBatch_def)
  ultimately show ?thesis by blast
qed

lemma recover_same:
  assumes i: "watch_inv R v s" and run: "RecoverProcessing R c1 c2 s = (err, s')"
  shows "same v R s s'"
proof -
  have R: "redis_ok R v" and fin: "finite (rsets (v s) pendingKey)" "finite (rsets (v s) processingKey)" and idx: "index_ok R (v s)"
    using i by (simp_all add: watch_inv_def queue_inv_def)
  let ?u = "put_set pendingKey (rsets (v s) pendingKey \<union> rsets (v s) processingKey) (v s)"
  have "v s' = v s \<or> v s' = ?u \<or> v s' = drop_key processingKey ?u"
    using run by (cases c1; cases c2) (auto simp: RecoverProcessing_def redis_set(3)[OF R] redis_hash(4)[OF R])
  moreover have "index_ok R (drop_key processingKey ?u) = index_ok R ?u"
    by (rule index_ok_cong) (auto simp: key_defs HasPrefix_def)
  ultimately show ?thesis using fin idx
    by (auto simp: same_def watch_inv_def queue_inv_def R set_frame key_defs intro!: mark_content)
qed

lemma process_same:
  assumes R: "redis_ok R v" and W: "wiki_utf8 W" and cj: "cjson_ok R" and i: "watch_inv R v (snd ws)"
    and run: "processor R W up f wc qids ws = (res, ws')"
  shows "same v R (snd ws) (snd ws')"
proof -
  have h: "harmless R (batch_pipe (batch_of W results qids))" for results
  proof -
    have "pipe_ok R (batch_pipe (batch_of W results qids) \<lparr>p_err = None, p_cmds = []\<rparr>)"
      "entity_cmds (p_cmds (batch_pipe (batch_of W results qids) \<lparr>p_err = None, p_cmds = []\<rparr>))"
      using batch_pipe_inv[OF W cj new_pipe_ok, of results qids] by (simp_all add: entity_cmds_def)
    moreover have "safe_cmd k" if "entity_cmd k \<noteq> None" for k
      using that by (cases k) (simp_all add: entity_cmd_def)
    ultimately show ?thesis
      unfolding harmless_def tidy_def safe_def by (auto simp: entity_cmds_def batch_pipe_def ops_keep_error)
  qed
  from processor_cases[of R W up f wc qids ws] show ?thesis
  proof (elim disjE exE)
    assume "snd (processor R W up f wc qids ws) = ws"
    with run i show ?thesis by (simp add: same_def)
  next
    fix results
    assume "snd (processor R W up f wc qids ws) = snd (run_pipe R f (batch_pipe (batch_of W results qids)) ws)"
    then obtain err where "run_pipe R f (batch_pipe (batch_of W results qids)) ws = (err, ws')"
      using run by (metis prod.collapse snd_conv)
    from harmless_step[OF R h i this] show ?thesis by (simp add: same_def)
  qed
qed

section \<open>The import\<close>

lemma tidy_pipes:
  "tidy R (state_pipe fp)" "tidy R (SetSyncState f x)" "tidy R (DelSyncStates fs)"
  by (simp_all add: tidy_def state_pipe_def pipe_ok_ops new_pipe_ok SetSyncState_def[of _ _ "\<lparr>p_err = Some _, p_cmds = _\<rparr>"])
    (simp_all add: SetSyncState_def DelSyncStates_def)

lemma tidy_batch: "cjson_ok R \<Longrightarrow> recs_ok rs \<Longrightarrow> tidy R (fold UpsertEntity rs)"
  by (simp add: tidy_def upsert_sticky batch_pipe_ok new_pipe_ok)

lemma attempts_inv:
  assumes R: "redis_ok R v" and t: "tidy R (fold UpsertEntity rs)"
  shows "watch_inv R v (snd ws) \<Longrightarrow> seed_attempts R rs n k err tries ws = (res, tries', ws') \<Longrightarrow> watch_inv R v (snd ws')"
proof (induction n arbitrary: k err tries ws)
  case 0
  then show ?case by simp
next
  case (Suc n)
  obtain t ts where nt: "next_try tries = (t, ts)" by fastforce
  obtain e ws1 where p: "run_pipe R (sd_fate t) (fold UpsertEntity rs) ws = (e, ws1)" by (metis surj_pair)
  have w1: "watch_inv R v (snd ws1)" by (rule pipe_step(1)[OF R assms(2) Suc.prems(1) p])
  show ?case
    using Suc.prems Suc.IH[OF w1] w1 by (auto simp: nt p split: if_splits option.splits)
qed

lemma writer_inv:
  assumes R: "redis_ok R v" and J: "cjson_ok R"
  shows "recs_ok (batch @ items) \<Longrightarrow> watch_inv R v (snd ws) \<Longrightarrow> seed_writer R batch items tries ws = (res, tries', ws') \<Longrightarrow>
    watch_inv R v (snd ws')"
proof (induction items arbitrary: batch tries ws)
  have flush: "watch_inv R v (snd ws')"
    if "recs_ok rs" "watch_inv R v (snd ws)" "seed_flush R rs tries ws = (res, tries', ws')" for rs tries ws res tries' ws'
    using that attempts_inv[OF R tidy_batch[OF J that(1)] that(2)] by (auto simp: seed_flush_def split: if_splits)
  {
    case Nil
    with flush[of batch] show ?case by simp
  next
    case (Cons item items)
    let ?b = "batch @ [item]"
    have ok: "recs_ok ?b" "recs_ok ([] @ items)" "recs_ok (?b @ items)" using Cons.prems(1) by (auto simp: recs_ok_def)
    obtain e ts ws1 where f: "seed_flush R ?b tries ws = (e, ts, ws1)" by (metis surj_pair)
    from flush[OF ok(1) Cons.prems(2) f] Cons.IH[OF ok(2)] Cons.IH[OF ok(3) Cons.prems(2)] Cons.prems(3) f
    show ?case by (cases e) (auto simp: Let_def split: if_splits)
  }
qed

lemma process_inv:
  assumes R: "redis_ok R v" and J: "cjson_ok R" and W: "wiki_utf8 W" and i: "watch_inv R v (snd ws)"
    and run: "processDumpStream R W cancel text tries ws = (res, ws')"
  shows "watch_inv R v (snd ws')"
proof -
  obtain lines too_long where sc: "scan_lines dumpScannerBufSize (fst text) = (lines, too_long)" by fastforce
  let ?seen = "case cancel of None \<Rightarrow> lines | Some k \<Rightarrow> take k lines"
  let ?items = "concat (map (dump_line W) ?seen)"
  obtain err ts ws1 where w: "seed_writer R [] ?items tries ws = (err, ts, ws1)" by (metis surj_pair)
  have "recs_ok ([] @ ?items)" using concat_recs_ok[of "map (dump_line W) ?seen"] dump_line_ok[OF W] by simp
  from writer_inv[OF R J this i w] show ?thesis
    using run sc w by (auto simp: processDumpStream_def Let_def split: if_splits option.splits)
qed

lemma flush_data_inv:
  assumes i: "watch_inv R v s" and run: "FlushDataContext R c1 c2 s = (err, s')"
  shows "watch_inv R v s'"
proof -
  have R: "redis_ok R v" using i by (simp add: watch_inv_def queue_inv_def)
  have "watch_inv R v s'" if "v s' = no_content \<or> v s' = fresh_content"
    using that R by (auto simp: watch_inv_def queue_inv_def index_ok_empty)
  moreover have "watch_inv R v s'" if "v s' = v s" using that i by (simp add: watch_inv_def queue_inv_def)
  ultimately show ?thesis using flush_data[OF R run] by blast
qed

lemma seed_inv:
  assumes R: "redis_ok R v" and J: "cjson_ok R" and W: "wiki_utf8 W" and i: "watch_inv R v (snd ws)"
    and run: "Seed R W sha env ws = (err, ws')"
  shows "watch_inv R v (snd ws')"
proof -
  obtain url d stale where loc: "se_located env = (url, d, stale)" by (metis surj_pair)
  obtain e1 s1 where fl: "FlushDataContext R (fst (se_flush env)) (snd (se_flush env)) (snd ws) = (e1, s1)" by fastforce
  have w1: "watch_inv R v (snd (fst ws, s1))" using flush_data_inv[OF i fl] by simp
  obtain e2 ws2 where st: "run_pipe R (se_state env) (state_pipe (configFingerprint sha)) (fst ws, s1) = (e2, ws2)" by (metis surj_pair)
  have w2: "watch_inv R v (snd ws2)" by (rule pipe_step(1)[OF R tidy_pipes(1) w1 st])
  obtain res ws3 where p: "processDumpStream R W (se_cancel env) (se_text env) (se_tries env) ws2 = (res, ws3)" by (metis surj_pair)
  have w3: "watch_inv R v (snd ws3)" by (rule process_inv[OF R J W w2 p])
  note w4 = pipe_step(1)[OF R tidy_pipes(2) w3]
  obtain eo where eo: "openDumpStream (se_status env) = eo" by blast
  consider "ws' = ws" | "ws' = (fst ws, s1)" | "ws' = ws2" | "ws' = ws3"
    | f t e where "run_pipe R f (SetSyncState ''dump_time'' t) ws3 = (e, ws')"
    using run by (cases eo) (auto simp: Seed_def loc fl st eo p split: if_splits option.splits sum.splits prod.splits)
  then show ?thesis using i w1 w2 w3 w4 by cases auto
qed

section \<open>What holds in every state\<close>

lemma seeded_mark:
  assumes "redis_ok R v" "mark (abstract (v s')) = mark (abstract (v s))"
  shows "NeedsSeed R sha True True s' = NeedsSeed R sha True True s"
proof -
  have "hashes (v s') metaKey f = hashes (v s) metaKey f" if "f = ''dump_time'' \<or> f = ''config_hash''" for f
    using assms(2) that by (auto simp: mark_def)
  then have g: "GetSyncState R True ''dump_time'' s' = GetSyncState R True ''dump_time'' s"
    "GetSyncState R True ''config_hash'' s' = GetSyncState R True ''config_hash'' s"
    by (simp_all add: GetSyncState_def redis_hash(1)[OF assms(1)])
  show ?thesis unfolding NeedsSeed_def g ..
qed

lemma seeded_answered: "NeedsSeed R sha a1 a2 s = Inr False \<Longrightarrow> NeedsSeed R sha True True s = Inr False"
  by (auto simp: NeedsSeed_def GetSyncState_def split: if_splits option.splits)

fun primary_inv :: "'s redis \<Rightarrow> (string \<Rightarrow> string) \<Rightarrow> ('s \<Rightarrow> content) \<Rightarrow> phase \<times> Writer \<times> 's \<Rightarrow> bool" where
  "primary_inv R sha v (ph, ws) \<longleftrightarrow> watch_inv R v (snd ws) \<and>
     (ph \<in> {Announcing, Recovering, Watching} \<longrightarrow> NeedsSeed R sha True True (snd ws) = Inr False)"

lemma inv_same:
  assumes R: "redis_ok R v" and i: "primary_inv R sha v (ph, ws)" and s: "same v R (snd ws) (snd ws')"
    and ph: "ph' \<in> {Announcing, Recovering, Watching} \<Longrightarrow> ph \<in> {Announcing, Recovering, Watching}"
  shows "primary_inv R sha v (ph', ws')"
proof -
  have "NeedsSeed R sha True True (snd ws') = NeedsSeed R sha True True (snd ws)"
    using s by (intro seeded_mark[OF R]) (simp add: same_def)
  with i s ph show ?thesis unfolding primary_inv.simps same_def by metis
qed

text \<open>The steps within a phase are those of the goroutines; none of them touches the mark.\<close>

lemma goroutine_step:
  assumes R: "redis_ok R v" and J: "cjson_ok R" and W: "wiki_utf8 W"
  shows "primary_step R W sha rfc x y \<Longrightarrow> fst x = fst y \<Longrightarrow> watch_inv R v (snd (snd x)) \<Longrightarrow>
    same v R (snd (snd x)) (snd (snd y))"
proof (induction x y rule: primary_step.induct)
  case (flush ph f b ws err b' ws')
  show ?case
  proof (cases "eb_batch b = []")
    case True
    with flush show ?thesis by (simp add: flushOnce_def same_def)
  next
    case False
    then obtain e where "run_pipe R f (flush_pipe b) ws = (e, ws')"
      using flush.hyps(2) by (auto simp: flushOnce_def split: prod.splits option.splits)
    with harmless_step[OF R harmless_pipes(1) _ this] flush.prems show ?thesis by (simp add: same_def)
  qed
next
  case (claim ph c ws out s')
  then show ?case using claim_same[OF _ claim.hyps(2)] by simp
next
  case (process ph up f wc qids ws res ws')
  then show ?case using process_same[OF R W J _ process.hyps(2)] by simp
next
  case (requeue ph f qids ws ws')
  show ?case
  proof (cases "qids = []")
    case True
    with requeue show ?thesis by (auto simp: requeueOnFailure_def same_def)
  next
    case False
    then obtain e where "run_pipe R f (requeue_pipe qids) ws = (e, ws')"
      using requeue.hyps(2) by (metis requeueOnFailure_def prod.collapse)
    with harmless_step[OF R harmless_pipes(2) _ this] requeue.prems show ?thesis by (simp add: same_def)
  qed
next
  case (acknowledge ph f now errs qids ws err ws')
  then show ?case using harmless_step[OF R harmless_pipes(3) _ acknowledge.hyps(2)] by (simp add: same_def)
next
  case (retry ph f now errs qid ws err ws')
  then show ?case using harmless_step[OF R harmless_pipes(4) _ retry.hyps(2)] by (simp add: same_def)
qed (auto simp: next_phase_def same_def split: option.splits)

lemma next_phase_cases: "next_phase ph err = ph \<or> next_phase ph err = Stopped"
  by (cases err) (simp_all add: next_phase_def)

lemma primary_inv_step:
  assumes R: "redis_ok R v" and J: "cjson_ok R" and W: "wiki_utf8 W" and rfc: "\<forall>d t. rfc d = Some t \<longrightarrow> t \<noteq> []"
  shows "primary_step R W sha rfc x y \<Longrightarrow> primary_inv R sha v x \<Longrightarrow> primary_inv R sha v y"
proof (induction x y rule: primary_step.induct)
  case (up_to_date a1 a2 ws)
  then show ?case using seeded_answered by simp
next
  case (seed env ws err ws')
  have "watch_inv R v (snd ws')" by (rule seed_inv[OF R J W _ seed.hyps(2)]) (use seed.prems in simp)
  moreover have "NeedsSeed R sha True True (snd ws') = Inr False" if "err = None"
    using seed_outcome[OF R J W _ seed.hyps(2)] rfc seed.hyps(1) that by simp
  ultimately show ?case by (cases err) (simp_all add: next_phase_def)
next
  case (announce f ws err ws')
  have "same v R (snd ws) (snd ws')"
    using harmless_step[OF R harmless_pipes(5) _ announce.hyps] announce.prems by (simp add: same_def)
  from inv_same[OF R announce.prems this] next_phase_cases[of Recovering err] show ?case by auto
next
  case (recover c1 c2 ws err s')
  have "same v R (snd ws) (snd (fst ws, s'))" using recover_same[OF _ recover.hyps] recover.prems by simp
  from inv_same[OF R recover.prems this] next_phase_cases[of Watching err] show ?case by auto
next
  case (gap f ws err ws')
  then show ?case using pipe_step(1)[OF R tidy_pipes(3) _ gap.hyps] by simp
next
  case (flush ph f b ws err b' ws')
  then show ?case using inv_same[OF R flush.prems] goroutine_step[OF R J W primary_step.flush[OF flush.hyps]] by simp
next
  case (claim ph c ws out s')
  then show ?case using inv_same[OF R claim.prems, of "(fst ws, s')"] goroutine_step[OF R J W primary_step.claim[OF claim.hyps]] by simp
next
  case (process ph up f wc qids ws res ws')
  then show ?case using inv_same[OF R process.prems] goroutine_step[OF R J W primary_step.process[OF process.hyps]] by simp
next
  case (requeue ph f qids ws ws')
  then show ?case using inv_same[OF R requeue.prems] goroutine_step[OF R J W primary_step.requeue[OF requeue.hyps]] by simp
next
  case (acknowledge ph f now errs qids ws err ws')
  then show ?case using inv_same[OF R acknowledge.prems] goroutine_step[OF R J W primary_step.acknowledge[OF acknowledge.hyps]] by simp
next
  case (retry ph f now errs qid ws err ws')
  then show ?case using inv_same[OF R retry.prems] goroutine_step[OF R J W primary_step.retry[OF retry.hyps]] by simp
qed simp_all

text \<open>The invariant, with what it needs of the server, of the JSON library and of the dump's date.\<close>

definition primary_safe ::
  "'s redis \<Rightarrow> wiki_json \<Rightarrow> (string \<Rightarrow> string) \<Rightarrow> (string \<Rightarrow> string option) \<Rightarrow> ('s \<Rightarrow> content) \<Rightarrow> phase \<times> Writer \<times> 's \<Rightarrow> bool" where
  "primary_safe R W sha rfc v x \<longleftrightarrow>
     redis_ok R v \<and> cjson_ok R \<and> wiki_utf8 W \<and> (\<forall>d t. rfc d = Some t \<longrightarrow> t \<noteq> []) \<and> primary_inv R sha v x"

interpretation primary: invariant "primary_step R W sha rfc" "primary_safe R W sha rfc v" for R W sha rfc v
proof unfold_locales
  fix x y
  assume step: "primary_step R W sha rfc x y" and i: "primary_safe R W sha rfc v x"
  then have R: "redis_ok R v" "cjson_ok R" "wiki_utf8 W" "\<forall>d t. rfc d = Some t \<longrightarrow> t \<noteq> []" and inv: "primary_inv R sha v x"
    by (simp_all add: primary_safe_def)
  from primary_inv_step[OF R step inv] R show "primary_safe R W sha rfc v y" by (simp add: primary_safe_def)
qed

lemma primary_inv_reach:
  assumes "redis_ok R v" "cjson_ok R" "wiki_utf8 W" "\<forall>d t. rfc d = Some t \<longrightarrow> t \<noteq> []"
    and "(primary_step R W sha rfc)\<^sup>*\<^sup>* x y" "primary_inv R sha v x"
  shows "primary_inv R sha v y"
  using primary.always[OF assms(5), of v] assms by (simp add: primary_safe_def)

text \<open>
  Claim C13: in whatever order the steps of the primary come and wherever its pipes break, its
  watcher only ever runs on a database that counts as seeded.
\<close>

theorem primary_watches_seeded:
  assumes "redis_ok R v" and "cjson_ok R" and "wiki_utf8 W" and "\<forall>d t. rfc d = Some t \<longrightarrow> t \<noteq> []"
    and "watch_inv R v (snd ws)"
    and "(primary_step R W sha rfc)\<^sup>*\<^sup>* (Checking, ws) (Watching, ws')"
  shows "NeedsSeed R sha True True (snd ws') = Inr False"
  using primary_inv_reach[OF assms(1-4,6)] assms(5) by simp

text \<open>
  Claim C14: every state that the primary can reach, a crash included, has an exact reverse index
  and finite queue sets, if the first one has.
\<close>

theorem primary_keeps_store:
  assumes "redis_ok R v" and "cjson_ok R" and "wiki_utf8 W" and "\<forall>d t. rfc d = Some t \<longrightarrow> t \<noteq> []"
    and "watch_inv R v (snd ws)"
    and "(primary_step R W sha rfc)\<^sup>*\<^sup>* (Checking, ws) (ph, ws')"
  shows "watch_inv R v (snd ws')"
  using primary_inv_reach[OF assms(1-4,6)] assms(5) by simp

section \<open>A gap leads to a new import\<close>

lemma gap_cleared:
  assumes R: "redis_ok R v" and i: "watch_inv R v (snd ws)"
    and run: "run_pipe R f (DelSyncStates [''dump_time'', ''last_event_id'']) ws = (None, ws')"
  shows "a_sync (abstract (v (snd ws'))) ''dump_time'' = None"
proof -
  let ?b = "DelSyncStates [''dump_time'', ''last_event_id'']" and ?new = "\<lparr>p_err = None, p_cmds = []\<rparr>"
  obtain w' t where ws': "ws' = (w', t)" by fastforce
  have keeps: "p_err p = Some e \<Longrightarrow> p_err (?b p) = Some e" for p e by (simp add: DelSyncStates_def)
  have p: "?b ?new = \<lparr>p_err = None, p_cmds = [HDel metaKey [''dump_time'', ''last_event_id'']]\<rparr>"
    by (simp add: DelSyncStates_def queue_def)
  from run_pipe_ok[where build = ?b, OF keeps run[unfolded ws']] p
  have t: "t = snd (Exec R (f_attempts f) False (?b ?new) (snd ws))" by simp
  have c: "index_ok R (v (snd ws))" and ok: "\<forall>k \<in> set (p_cmds (?b ?new)). cmd_ok R k"
    using i by (simp_all add: watch_inv_def p)
  from Exec_refines(1)[OF R c ok, of "f_attempts f" False, folded t]
  obtain b where "abstract (v t) = fold cmd_spec [HDel metaKey [''dump_time'', ''last_event_id'']] b"
    by (auto simp: exec_prefixes_def prefixes_spec_def p)
  then show ?thesis by (simp add: ws' del: abstract_sel)
qed

text \<open>
  Claim C16: once a gap is found and its fields are cleared, the database needs an import when the
  watcher returns, whatever its other goroutines still write before that.
\<close>

theorem primary_reseeds:
  assumes "redis_ok R v" and "cjson_ok R" and "wiki_utf8 W" and "watch_inv R v (snd ws)"
    and "run_pipe R f (DelSyncStates [''dump_time'', ''last_event_id'']) ws = (None, ws1)"
    and "(\<lambda>x y. primary_step R W sha rfc x y \<and> fst x = TooOld \<and> fst y = TooOld)\<^sup>*\<^sup>* (TooOld, ws1) (TooOld, ws2)"
  shows "NeedsSeed R sha True True (snd ws2) = Inr True \<and> primary_step R W sha rfc (TooOld, ws2) (Checking, ws2) \<and>
    primary_step R W sha rfc (Checking, ws2) (Seeding, ws2)"
proof -
  note R = assms(1)
  have "watch_inv R v (snd (snd y)) \<and> mark (abstract (v (snd (snd y)))) = mark (abstract (v (snd ws1)))"
    if "(\<lambda>x y. primary_step R W sha rfc x y \<and> fst x = TooOld \<and> fst y = TooOld)\<^sup>*\<^sup>* (TooOld, ws1) y" for y
    using that
  proof (induction rule: rtranclp_induct)
    case base
    show ?case using pipe_step(1)[OF R tidy_pipes(3) assms(4,5)] by simp
  next
    case (step x y)
    then show ?case using goroutine_step[OF R assms(2,3), of sha rfc x y] by (simp add: same_def)
  qed
  from this[OF assms(6)] gap_cleared[OF R assms(4,5)] have "a_sync (abstract (v (snd ws2))) ''dump_time'' = None"
    by (simp add: mark_def del: abstract_sel)
  then have n: "NeedsSeed R sha True True (snd ws2) = Inr True"
    by (simp add: NeedsSeed_def GetSyncState_def redis_hash(1)[OF R])
  with too_old needs_seed[OF n] show ?thesis by blast
qed

text \<open>
  If the fields could not be cleared, the error is only logged: the next turn finds the database
  seeded and goes straight back to the stream that does not go back far enough.
\<close>

lemma failed_clear_skips_import:
  assumes "run_pipe R f (DelSyncStates [''dump_time'', ''last_event_id'']) ws = (Some e, ws)"
    and "NeedsSeed R sha True True (snd ws) = Inr False"
  shows "(primary_step R W sha rfc)\<^sup>*\<^sup>* (Watching, ws) (Announcing, ws)"
  using primary_step.gap[OF assms(1)] primary_step.too_old primary_step.up_to_date[OF assms(2)]
  by (meson converse_rtranclp_into_rtranclp rtranclp.rtrancl_refl)

section \<open>Witnesses\<close>

text \<open>From an empty database through an import to the running watcher.\<close>

abbreviation example_reach :: "phase \<times> Writer \<times> content \<Rightarrow> phase \<times> Writer \<times> content \<Rightarrow> bool" where
  "example_reach \<equiv> (primary_step mem_redis plain_json id (se_rfc3339 example_env))\<^sup>*\<^sup>*"

definition example_start :: "Writer \<times> content" where
  "example_start = (\<lparr>scriptsLoaded = False\<rparr>, no_content)"

lemma example_start_inv: "watch_inv mem_redis id (snd example_start)"
  by (simp add: watch_inv_def queue_inv_def mem_redis_ok index_ok_empty example_start_def)

lemma example_seeded: "\<exists>ws. Seed mem_redis plain_json id example_env example_start = (None, ws)"
proof -
  have "fst (Seed mem_redis plain_json id example_env example_start) = None" unfolding example_start_def
    by (rule seed_success[OF mem_redis_ok mem_cjson_ok plain_json_utf8 example_seed(1-4,8,5-7) example_text example_seed(10-12)])
  then show ?thesis by (metis prod.collapse)
qed

lemma example_announced: "\<exists>ws'. run_pipe mem_redis good_fate (SetSyncState ''state'' ''streaming'') ws = (None, ws')"
proof -
  have p: "SetSyncState ''state'' ''streaming'' \<lparr>p_err = None, p_cmds = []\<rparr> =
      \<lparr>p_err = None, p_cmds = [HSet metaKey ''state'' ''streaming'']\<rparr>"
    by (simp add: SetSyncState_def queue_def)
  have "first_error (fst (run_cmds mem_redis [HSet metaKey ''state'' ''streaming''] (snd ws))) = None"
    by (rule meta_replies) simp
  then show ?thesis using good_pipe[of "SetSyncState ''state'' ''streaming''" mem_redis ws] by (auto simp: p)
qed

lemma example_watching: "\<exists>ws. example_reach (Checking, example_start) (Watching, ws)"
proof -
  let ?step = "primary_step mem_redis plain_json id (se_rfc3339 example_env)"
  obtain ws1 where s: "Seed mem_redis plain_json id example_env example_start = (None, ws1)" using example_seeded by blast
  obtain ws2 where a: "run_pipe mem_redis good_fate (SetSyncState ''state'' ''streaming'') ws1 = (None, ws2)"
    using example_announced by blast
  obtain s3 where r: "RecoverProcessing mem_redis Answered Answered (snd ws2) = (None, s3)"
    by (auto simp: RecoverProcessing_def)
  have "NeedsSeed mem_redis id True True (snd example_start) = Inr True"
    by (simp add: NeedsSeed_def GetSyncState_def example_start_def redis_hash(1)[OF mem_redis_ok])
  then have "?step (Checking, example_start) (Seeding, example_start)" by (rule primary_step.needs_seed)
  moreover have "?step (Seeding, example_start) (Announcing, ws1)"
    using primary_step.seed[where R = mem_redis and W = plain_json and sha = id, OF refl s] by (simp add: next_phase_def)
  moreover have "?step (Announcing, ws1) (Recovering, ws2)" using primary_step.announce[OF a] by (simp add: next_phase_def)
  moreover have "?step (Recovering, ws2) (Watching, fst ws2, s3)" using primary_step.recover[OF r] by (simp add: next_phase_def)
  ultimately show ?thesis by (meson converse_rtranclp_into_rtranclp rtranclp.rtrancl_refl)
qed

lemma primary_watches_seeded_witness:
  "\<exists>ws. example_reach (Checking, example_start) (Watching, ws) \<and> NeedsSeed mem_redis id True True (snd ws) = Inr False"
  using example_watching primary_watches_seeded[OF mem_redis_ok mem_cjson_ok plain_json_utf8 example_seed(9) example_start_inv] by blast

lemma primary_keeps_store_witness:
  "\<exists>ws. example_reach (Checking, example_start) (Watching, ws) \<and> watch_inv mem_redis id (snd ws)"
  using example_watching primary_keeps_store[OF mem_redis_ok mem_cjson_ok plain_json_utf8 example_seed(9) example_start_inv] by blast

lemma primary_reseeds_witness:
  "\<exists>ws ws1. Seed mem_redis plain_json id example_env example_start = (None, ws) \<and>
     run_pipe mem_redis good_fate (DelSyncStates [''dump_time'', ''last_event_id'']) ws = (None, ws1) \<and>
     NeedsSeed mem_redis id True True (snd ws1) = Inr True"
proof -
  obtain ws where s: "Seed mem_redis plain_json id example_env example_start = (None, ws)" using example_seeded by blast
  have inv: "watch_inv mem_redis id (snd ws)"
    by (rule seed_inv[OF mem_redis_ok mem_cjson_ok plain_json_utf8 example_start_inv s])
  let ?b = "DelSyncStates [''dump_time'', ''last_event_id'']"
  have p: "?b \<lparr>p_err = None, p_cmds = []\<rparr> = \<lparr>p_err = None, p_cmds = [HDel metaKey [''dump_time'', ''last_event_id'']]\<rparr>"
    by (simp add: DelSyncStates_def queue_def)
  have "first_error (fst (run_cmds mem_redis [HDel metaKey [''dump_time'', ''last_event_id'']] (snd ws))) = None" by simp
  then obtain ws1 where g: "run_pipe mem_redis good_fate ?b ws = (None, ws1)"
    using good_pipe[of ?b mem_redis ws] by (auto simp: p)
  from primary_reseeds[OF mem_redis_ok mem_cjson_ok plain_json_utf8 inv g rtranclp.rtrancl_refl] s g show ?thesis by blast
qed

end
