(* ===== verification/PrimaryRuns.thy ===== *)
theory PrimaryRuns
  imports Primary
begin

text \<open>
  \<open>runPrimary\<close> and \<open>Watch\<close> as functions, composed of the import, the connections to the stream, the
  drains of the queue and the retries as the code composes them, and the simulation: whatever
  these functions do is a run of the step relation of \<open>Primary\<close>, so that what holds in all of its
  reachable states holds for them.
\<close>

section \<open>The loops as functions\<close>

text \<open>
  What the two goroutines of \<open>Watch\<close> do between two connections: drains of the queue and ticks of
  the retries, in some order, each with its answers and its clock. A round of a drain has a
  function for the writes of the other goroutines; the finer interleaving is that of the relation.
\<close>

datatype 's background =
    Drained "'s drain_round list"
  | Retried bool "string \<Rightarrow> api_reply option" fate WikidataClient clock "string \<Rightarrow> fate"

fun run_background :: "'s redis \<Rightarrow> wiki_json \<Rightarrow> 's background \<Rightarrow> Writer \<times> 's \<Rightarrow> Writer \<times> 's" where
  "run_background R W (Drained rounds) ws = drainQueue R rounds None ws"
| "run_background R W (Retried answered up f c now fates) ws = retryFailedEntities R answered (processor R W up f c) now fates ws"

text \<open>
  One connection: its answers, the fates of its pipes, whether the context is cancelled when it
  ends, and what the goroutines do before the next one or before \<open>Watch\<close> returns.
\<close>

record 's conn_in =
  cn_first :: bool
  cn_second :: bool
  cn_upstream :: "int option \<Rightarrow> (int \<times> string \<times> bool) option"
  cn_weave :: "(string \<times> string) list \<Rightarrow> (writer_input \<times> fate) list"
  cn_gap :: fate
  cn_last :: fate
  cn_cancelled :: bool
  cn_others :: "'s background list"

datatype watch_result = StreamGap | WatchCancelled | RecoverFailed store_error

text \<open>The connections running out is a cancellation.\<close>

fun watch_loop ::
  "'s redis \<Rightarrow> wiki_json \<Rightarrow> event_env \<Rightarrow> (string \<Rightarrow> int option) \<Rightarrow> 's conn_in list \<Rightarrow> Writer \<times> 's \<Rightarrow> watch_result \<times> Writer \<times> 's" where
  "watch_loop R W env parse_time [] ws = (WatchCancelled, ws)"
| "watch_loop R W env parse_time (c # cs) ws =
     (case connectAndProcess R env parse_time (cn_first c) (cn_second c) (cn_upstream c) (cn_weave c) (cn_gap c) (cn_last c) ws of
        (err, ws1) \<Rightarrow>
          let ws2 = fold (run_background R W) (cn_others c) ws1
          in if err = StreamTooOld then (StreamGap, ws2)
             else if cn_cancelled c then (WatchCancelled, ws2)
             else watch_loop R W env parse_time cs ws2)"

definition Watch ::
  "'s redis \<Rightarrow> wiki_json \<Rightarrow> event_env \<Rightarrow> (string \<Rightarrow> int option) \<Rightarrow> call \<Rightarrow> call \<Rightarrow> 's conn_in list \<Rightarrow> Writer \<times> 's \<Rightarrow> watch_result \<times> Writer \<times> 's" where
  "Watch R W env parse_time c1 c2 conns ws =
     (case RecoverProcessing R c1 c2 (snd ws) of
        (Some e, s') \<Rightarrow> (RecoverFailed e, fst ws, s')
      | (None, s') \<Rightarrow> watch_loop R W env parse_time conns (fst ws, s'))"

record 's primary_turn =
  pt_first :: bool
  pt_second :: bool
  pt_seed :: seed_env
  pt_cancelled :: bool
  pt_state :: fate
  pt_recover :: "call \<times> call"
  pt_conns :: "'s conn_in list"

datatype primary_result =
    CheckFailed store_error | SeedFailed seed_error | StateFailed store_error | WatcherFailed store_error | PrimaryDone

fun runPrimary ::
  "'s redis \<Rightarrow> wiki_json \<Rightarrow> (string \<Rightarrow> string) \<Rightarrow> event_env \<Rightarrow> (string \<Rightarrow> int option) \<Rightarrow> 's primary_turn list \<Rightarrow> Writer \<times> 's \<Rightarrow>
   primary_result \<times> Writer \<times> 's" where
  "runPrimary R W sha env parse_time [] ws = (PrimaryDone, ws)"
| "runPrimary R W sha env parse_time (t # ts) ws =
     (case NeedsSeed R sha (pt_first t) (pt_second t) (snd ws) of
        Inl e \<Rightarrow> (CheckFailed e, ws)
      | Inr needs \<Rightarrow>
          (case (if needs then Seed R W sha (pt_seed t) ws else (None, ws)) of
             (Some e, ws1) \<Rightarrow> (if pt_cancelled t then PrimaryDone else SeedFailed e, ws1)
           | (None, ws1) \<Rightarrow>
               (case run_pipe R (pt_state t) (SetSyncState ''state'' ''streaming'') ws1 of
                  (Some e, ws2) \<Rightarrow> (StateFailed e, ws2)
                | (None, ws2) \<Rightarrow>
                    (case Watch R W env parse_time (fst (pt_recover t)) (snd (pt_recover t)) (pt_conns t) ws2 of
                       (StreamGap, ws3) \<Rightarrow> runPrimary R W sha env parse_time ts ws3
                     | (WatchCancelled, ws3) \<Rightarrow> (PrimaryDone, ws3)
                     | (RecoverFailed e, ws3) \<Rightarrow> (WatcherFailed e, ws3)))))"

section \<open>Simulation\<close>

abbreviation primary_run ::
  "'s redis \<Rightarrow> wiki_json \<Rightarrow> (string \<Rightarrow> string) \<Rightarrow> (string \<Rightarrow> string option) \<Rightarrow>
   phase \<times> Writer \<times> 's \<Rightarrow> phase \<times> Writer \<times> 's \<Rightarrow> bool" where
  "primary_run R W sha rfc \<equiv> (primary_step R W sha rfc)\<^sup>*\<^sup>*"

lemma one_step: "primary_step R W sha rfc x y \<Longrightarrow> primary_run R W sha rfc x y"
  by (rule r_into_rtranclp)

lemma flush_runs:
  assumes "running ph" "flushOnce R f b ws = (err, b', ws')"
  shows "primary_run R W sha rfc (ph, ws) (ph, ws')"
  by (rule one_step, rule primary_step.flush[OF assms])

lemma writer_runs:
  assumes ph: "running ph"
  shows "enqueue_writer R ins b ws = (err, ws') \<Longrightarrow> primary_run R W sha rfc (ph, ws) (ph, ws')"
proof (induction R ins b ws rule: enqueue_writer.induct)
  case (2 R qid eventID f ins b ws)
  let ?b1 = "b\<lparr>eb_batch := (if qid \<in> set (eb_batch b) then eb_batch b else eb_batch b @ [qid]), eb_lastEventID := eventID\<rparr>"
  show ?case
  proof (cases "enqueueBatchSize \<le> length (eb_batch ?b1)")
    case True
    obtain e b2 ws1 where fl: "flushOnce R f ?b1 ws = (e, b2, ws1)" by (metis surj_pair)
    note fr = flush_runs[OF ph fl, of W sha rfc]
    show ?thesis
    proof (cases e)
      case None
      with 2 True fl have "primary_run R W sha rfc (ph, ws1) (ph, ws')" by simp
      with fr show ?thesis by (rule rtranclp_trans)
    next
      case (Some x)
      with 2(3) True fl fr show ?thesis by simp
    qed
  next
    case False
    with 2 show ?thesis by simp
  qed
next
  case (3 R f ins b ws)
  obtain e b2 ws1 where fl: "flushOnce R f b ws = (e, b2, ws1)" by (metis surj_pair)
  note fr = flush_runs[OF ph fl, of W sha rfc]
  show ?case
  proof (cases e)
    case None
    with 3 fl have "primary_run R W sha rfc (ph, ws1) (ph, ws')" by simp
    with fr show ?thesis by (rule rtranclp_trans)
  next
    case (Some x)
    with 3(2) fl fr show ?thesis by simp
  qed
next
  case (4 R f ins b ws)
  obtain e b2 ws1 where fl: "flushOnce R f b ws = (e, b2, ws1)" by (metis surj_pair)
  with 4 flush_runs[OF ph fl] show ?case by simp
qed simp

lemma running_phases [simp]: "running Watching" "running TooOld"
  by (simp_all add: running_def)

lemma connection_runs:
  assumes "connectAndProcess R env parse_time a1 a2 upstream weave f_old f_last ws = (err, ws')"
  shows "primary_run R W sha rfc (Watching, ws) (if err = StreamTooOld then TooOld else Watching, ws')"
proof -
  have stay: ?thesis if "ws' = ws" "err \<noteq> StreamTooOld" using that by simp
  note run = assms[unfolded connectAndProcess_def]
  show ?thesis
  proof (cases "start_position R env parse_time a1 a2 (snd ws)")
    case (Inl e)
    then have "e \<noteq> StreamTooOld" by (auto simp: start_position_def split: sum.splits option.splits if_splits)
    with run Inl stay show ?thesis by auto
  next
    case (Inr r)
    obtain lastEventID since where r: "r = (lastEventID, since)" by fastforce
    show ?thesis
    proof (cases "upstream since")
      case None
      with run Inr r stay show ?thesis by auto
    next
      case (Some reply)
      obtain status body read_error where reply: "reply = (status, body, read_error)" by (metis surj_pair)
      show ?thesis
      proof (cases "status = 200")
        case False
        with run Inr r Some reply stay show ?thesis by auto
      next
        case True
        obtain ls too_long where sc: "scan_lines eventBufferSize body = (ls, too_long)" by fastforce
        obtain items old where rd: "read_events env since ls lastEventID [] (since = None) = (items, old)" by fastforce
        obtain e1 wsg where g: "run_pipe R f_old (DelSyncStates [''dump_time'', ''last_event_id'']) ws = (e1, wsg)" by (metis surj_pair)
        let ?ws1 = "if old then wsg else ws"
        obtain e2 ws2 where w: "enqueue_writer R (weave items @ [(Closed, f_last)]) empty_buffer ?ws1 = (e2, ws2)" by (metis surj_pair)
        note run' = run[unfolded Inr r sum.case prod.case Some option.case reply sc rd Let_def g]
        have out: "ws' = ws2" "err = StreamTooOld \<longleftrightarrow> old"
          using run' True w by (auto split: option.splits if_splits)
        show ?thesis
        proof (cases old)
          case True
          with w have "primary_run R W sha rfc (TooOld, wsg) (TooOld, ws2)" by (intro writer_runs) simp_all
          then have "primary_run R W sha rfc (Watching, ws) (TooOld, ws2)"
            by (rule converse_rtranclp_into_rtranclp[of "primary_step R W sha rfc", OF primary_step.gap[OF g]])
          with out True show ?thesis by simp
        next
          case False
          with w have "primary_run R W sha rfc (Watching, ws) (Watching, ws2)" by (intro writer_runs) simp_all
          with out False show ?thesis by simp
        qed
      qed
    qed
  qed
qed

text \<open>A round of the queue, with the processor of the code and steps of the machine around it.\<close>

definition runs_within :: "'s redis \<Rightarrow> wiki_json \<Rightarrow> (string \<Rightarrow> string) \<Rightarrow> (string \<Rightarrow> string option) \<Rightarrow> 's drain_round \<Rightarrow> bool" where
  "runs_within R W sha rfc r \<longleftrightarrow>
     (\<forall>ph w s. running ph \<longrightarrow> primary_run R W sha rfc (ph, w, s) (ph, w, dr_others r s)) \<and>
     (\<exists>up f c. dr_process r = processor R W up f c)"

lemma process_runs:
  assumes "running ph" "runs_within R W sha rfc r" "dr_process r qids ws = (res, ws')"
  shows "primary_run R W sha rfc (ph, ws) (ph, ws')"
proof -
  obtain up f c where "dr_process r = processor R W up f c" using assms(2) by (auto simp: runs_within_def)
  with assms(3) show ?thesis by (intro one_step primary_step.process[OF assms(1)]) simp
qed

lemma receive_runs:
  assumes ph: "running ph" and r: "runs_within R W sha rfc r" and run: "receive_batch R r f qids ws = (go, ws')"
  shows "primary_run R W sha rfc (ph, ws) (ph, ws')"
proof -
  obtain res ws1 where p: "dr_process r qids ws = (res, ws1)" by (metis surj_pair)
  have "primary_run R W sha rfc (ph, ws1) (ph, ws')"
  proof (cases res)
    case (Inl e)
    with run p have "ws' = requeueOnFailure R f qids ws1"
      by (cases e) (auto simp: receive_batch_def handleBatchResult_def split: fetch_error.splits)
    then show ?thesis by (intro one_step primary_step.requeue[OF ph]) simp
  next
    case (Inr errs)
    obtain e ws2 where a: "run_pipe R f (ack_pipe (dr_clock r) errs qids) ws1 = (e, ws2)" by (metis surj_pair)
    with run p Inr have "ws' = ws2" by (simp add: receive_batch_def handleBatchResult_def)
    with one_step[OF primary_step.acknowledge[OF ph a]] show ?thesis by simp
  qed
  with process_runs[OF ph r p] show ?thesis by (rule rtranclp_trans)
qed

lemma finish_runs:
  assumes "running ph" "runs_within R W sha rfc r"
  shows "primary_run R W sha rfc (ph, ws) (ph, finish_fetch r pending ws)"
proof (cases pending)
  case None
  then show ?thesis by (simp add: finish_fetch_def)
next
  case (Some qids)
  obtain res ws' where "dr_process r qids ws = (res, ws')" by (metis surj_pair)
  with process_runs[OF assms this] Some show ?thesis by (simp add: finish_fetch_def)
qed

lemma drain_runs:
  assumes ph: "running ph"
  shows "\<forall>r \<in> set rs. runs_within R W sha rfc r \<Longrightarrow> primary_run R W sha rfc (ph, ws) (ph, drainQueue R rs pending ws)"
proof (induction rs arbitrary: pending ws)
  case Nil
  then show ?case by simp
next
  case (Cons r rs)
  then have r: "runs_within R W sha rfc r" by simp
  obtain w s where ws: "ws = (w, s)" by fastforce
  let ?s = "dr_others r s"
  obtain out s1 where cl: "ClaimPendingBatch R (dr_claim r) retryBatchSize ?s = (out, s1)" by (metis surj_pair)
  have others: "primary_run R W sha rfc (ph, w, s) (ph, w, ?s)" using r ph by (simp add: runs_within_def)
  have "primary_step R W sha rfc (ph, w, ?s) (ph, w, s1)"
    using primary_step.claim[OF ph, of R "dr_claim r" "(w, ?s)" out s1] cl by simp
  with others have claimed: "primary_run R W sha rfc (ph, ws) (ph, w, s1)" unfolding ws by (rule rtranclp.rtrancl_into_rtrancl)
  note fin = finish_runs[OF ph r]
  show ?case
  proof (cases "dr_cancelled r")
    case True
    with fin show ?thesis by simp
  next
    case running: False
    show ?thesis
    proof (cases out)
      case (Inl e)
      with running cl ws have "drainQueue R (r # rs) pending ws = finish_fetch r pending (w, s1)" by simp
      with rtranclp_trans[OF claimed fin] show ?thesis by simp
    next
      case (Inr qids)
      obtain go ws2 where rec: "(case pending of None \<Rightarrow> (True, w, s1) | Some prev \<Rightarrow> receive_batch R r (dr_fate r) prev (w, s1)) = (go, ws2)"
        by (metis surj_pair)
      have received: "primary_run R W sha rfc (ph, w, s1) (ph, ws2)"
        using rec receive_runs[OF ph r] by (cases pending) auto
      note sofar = rtranclp_trans[OF claimed received]
      have d: "drainQueue R (r # rs) pending ws = (if \<not> go then (if qids = [] then ws2
          else requeueOnFailure R (dr_fate2 r) qids (snd (dr_process r qids ws2)))
        else if qids = [] then ws2
        else if length qids < retryBatchSize then snd (receive_batch R r (dr_fate2 r) qids ws2)
        else drainQueue R rs (Some qids) ws2)"
        unfolding drainQueue.simps ws fst_conv snd_conv cl prod.case Inr sum.case rec by (simp add: running)
      obtain res ws3 where p: "dr_process r qids ws2 = (res, ws3)" by (metis surj_pair)
      obtain go' ws4 where rc: "receive_batch R r (dr_fate2 r) qids ws2 = (go', ws4)" by (metis surj_pair)
      have "primary_run R W sha rfc (ph, ws2) (ph, requeueOnFailure R (dr_fate2 r) qids ws3)"
        by (rule rtranclp.rtrancl_into_rtrancl[OF process_runs[OF ph r p] primary_step.requeue[OF ph refl]])
      moreover have "primary_run R W sha rfc (ph, ws2) (ph, drainQueue R rs (Some qids) ws2)" using Cons by simp
      ultimately have "primary_run R W sha rfc (ph, ws2) (ph, drainQueue R (r # rs) pending ws)"
        unfolding d using receive_runs[OF ph r rc] p rc by simp
      with sofar show ?thesis by (rule rtranclp_trans)
    qed
  qed
qed

lemma retries_run:
  assumes ph: "running ph"
  shows "primary_run R W sha rfc (ph, ws) (ph, fold (\<lambda>qid ws'. snd (run_pipe R (fates qid) (retry_pipe now errs qid) ws')) qids ws)"
proof (induction qids arbitrary: ws)
  case Nil
  then show ?case by simp
next
  case (Cons q qids)
  obtain e ws1 where p: "run_pipe R (fates q) (retry_pipe now errs q) ws = (e, ws1)" by (metis surj_pair)
  from converse_rtranclp_into_rtranclp[of "primary_step R W sha rfc", OF primary_step.retry[OF ph p] Cons[of ws1]] p
  show ?case by simp
qed

lemma retry_runs:
  assumes ph: "running ph"
  shows "primary_run R W sha rfc (ph, ws) (ph, retryFailedEntities R answered (processor R W up f c) now fates ws)"
proof (cases "LastFailedEntities R answered retryBatchSize (snd ws)")
  case (Inl e)
  then show ?thesis by (simp add: retryFailedEntities_def)
next
  case (Inr qids)
  obtain res ws1 where p: "processor R W up f c qids ws = (res, ws1)" by (metis surj_pair)
  note pr = one_step[OF primary_step.process[OF ph p]]
  from Inr p pr rtranclp_trans[OF pr retries_run[OF ph]] show ?thesis
    by (cases res) (simp_all add: retryFailedEntities_def)
qed

lemma background_runs:
  assumes ph: "running ph" and b: "\<forall>rounds. b = Drained rounds \<longrightarrow> (\<forall>r \<in> set rounds. runs_within R W sha rfc r)"
  shows "primary_run R W sha rfc (ph, ws) (ph, run_background R W b ws)"
  using b by (cases b) (simp_all add: drain_runs[OF ph] retry_runs[OF ph])

text \<open>The drains of a connection, and the turns of the process, whose writes are steps.\<close>

definition conn_within :: "'s redis \<Rightarrow> wiki_json \<Rightarrow> (string \<Rightarrow> string) \<Rightarrow> (string \<Rightarrow> string option) \<Rightarrow> 's conn_in \<Rightarrow> bool" where
  "conn_within R W sha rfc c \<longleftrightarrow>
     (\<forall>b \<in> set (cn_others c). \<forall>rounds. b = Drained rounds \<longrightarrow> (\<forall>r \<in> set rounds. runs_within R W sha rfc r))"

definition turn_within :: "'s redis \<Rightarrow> wiki_json \<Rightarrow> (string \<Rightarrow> string) \<Rightarrow> (string \<Rightarrow> string option) \<Rightarrow> 's primary_turn \<Rightarrow> bool" where
  "turn_within R W sha rfc t \<longleftrightarrow> se_rfc3339 (pt_seed t) = rfc \<and> (\<forall>c \<in> set (pt_conns t). conn_within R W sha rfc c)"

lemma backgrounds_run:
  assumes ph: "running ph"
  shows "\<forall>b \<in> set bs. \<forall>rounds. b = Drained rounds \<longrightarrow> (\<forall>r \<in> set rounds. runs_within R W sha rfc r) \<Longrightarrow>
    primary_run R W sha rfc (ph, ws) (ph, fold (run_background R W) bs ws)"
proof (induction bs arbitrary: ws)
  case (Cons b bs)
  have "primary_run R W sha rfc (ph, ws) (ph, run_background R W b ws)"
    by (rule background_runs[OF ph]) (use Cons.prems in simp)
  moreover have "primary_run R W sha rfc (ph, run_background R W b ws) (ph, fold (run_background R W) bs (run_background R W b ws))"
    using Cons by simp
  ultimately show ?case by simp
qed simp

lemma watch_loop_runs:
  "watch_loop R W env parse_time cs ws = (res, ws') \<Longrightarrow> \<forall>c \<in> set cs. conn_within R W sha rfc c \<Longrightarrow>
   primary_run R W sha rfc (Watching, ws) (if res = StreamGap then TooOld else Watching, ws')"
proof (induction cs arbitrary: ws)
  case (Cons c cs)
  obtain err ws1 where con: "connectAndProcess R env parse_time (cn_first c) (cn_second c) (cn_upstream c) (cn_weave c)
      (cn_gap c) (cn_last c) ws = (err, ws1)" by (metis surj_pair)
  let ?ph = "if err = StreamTooOld then TooOld else Watching" and ?ws2 = "fold (run_background R W) (cn_others c) ws1"
  have "primary_run R W sha rfc (?ph, ws1) (?ph, ?ws2)"
    by (rule backgrounds_run) (use Cons.prems(2) in \<open>simp_all add: conn_within_def\<close>)
  with connection_runs[OF con] have sofar: "primary_run R W sha rfc (Watching, ws) (?ph, ?ws2)" by (rule rtranclp_trans)
  consider (gap) "err = StreamTooOld" | (cancelled) "err \<noteq> StreamTooOld" "cn_cancelled c" | (again) "err \<noteq> StreamTooOld" "\<not> cn_cancelled c"
    by blast
  then show ?case
  proof cases
    case again
    with Cons.prems(1) con have "watch_loop R W env parse_time cs ?ws2 = (res, ws')" by simp
    from Cons.IH[OF this] Cons.prems(2)
    have "primary_run R W sha rfc (Watching, ?ws2) (if res = StreamGap then TooOld else Watching, ws')" by simp
    moreover have "primary_run R W sha rfc (Watching, ws) (Watching, ?ws2)" using sofar again by simp
    ultimately show ?thesis by (rule rtranclp_trans[rotated])
  qed (use Cons.prems(1) con sofar in auto)
qed simp

lemma loop_result: "watch_loop R W env parse_time cs ws = (res, ws') \<Longrightarrow> res \<in> {StreamGap, WatchCancelled}"
  by (induction cs arbitrary: ws) (auto simp: Let_def split: prod.splits if_splits)

text \<open>The phase in which \<open>Watch\<close> returns.\<close>

fun watch_phase :: "watch_result \<Rightarrow> phase" where
  "watch_phase StreamGap = TooOld"
| "watch_phase WatchCancelled = Watching"
| "watch_phase (RecoverFailed e) = Stopped"

lemma watch_runs:
  assumes run: "Watch R W env parse_time c1 c2 conns ws = (res, ws')" and c: "\<forall>c \<in> set conns. conn_within R W sha rfc c"
  shows "primary_run R W sha rfc (Recovering, ws) (watch_phase res, ws')"
proof -
  obtain err s1 where r: "RecoverProcessing R c1 c2 (snd ws) = (err, s1)" by (metis surj_pair)
  note step = primary_step.recover[OF r, of W sha rfc]
  show ?thesis
  proof (cases err)
    case (Some e)
    with run r step show ?thesis by (auto simp: Watch_def next_phase_def)
  next
    case None
    with run r have loop: "watch_loop R W env parse_time conns (fst ws, s1) = (res, ws')" by (simp add: Watch_def)
    from loop_result[OF loop] have "watch_phase res = (if res = StreamGap then TooOld else Watching)" by auto
    with watch_loop_runs[OF loop c] converse_rtranclp_into_rtranclp[of "primary_step R W sha rfc", OF step] None
    show ?thesis by (simp add: next_phase_def)
  qed
qed

lemma stopped_run: "primary_run R W sha rfc (ph, ws) (Stopped, ws)"
  by (rule one_step[OF primary_step.stop])

lemma turn_runs:
  assumes needs: "NeedsSeed R sha a1 a2 (snd ws) = Inr needs"
    and rfc: "se_rfc3339 env = rfc"
    and seed: "(if needs then Seed R W sha env ws else (None, ws)) = (err, ws')"
  shows "primary_run R W sha rfc (Checking, ws) (next_phase Announcing err, ws')"
proof (cases needs)
  case True
  with seed have "Seed R W sha env ws = (err, ws')" by simp
  from primary_step.seed[OF rfc this] have "primary_step R W sha rfc (Seeding, ws) (next_phase Announcing err, ws')" .
  moreover have "primary_step R W sha rfc (Checking, ws) (Seeding, ws)" using needs True by (simp add: primary_step.needs_seed)
  ultimately show ?thesis using converse_rtranclp_into_rtranclp[of "primary_step R W sha rfc"] one_step by metis
next
  case False
  with needs have "primary_step R W sha rfc (Checking, ws) (Announcing, ws)" by (simp add: primary_step.up_to_date)
  with seed False show ?thesis by (auto simp: next_phase_def dest: one_step)
qed

lemma announce_runs:
  assumes "run_pipe R f (SetSyncState ''state'' ''streaming'') ws = (err, ws')"
  shows "primary_run R W sha rfc (Announcing, ws) (next_phase Recovering err, ws')"
  by (rule one_step[OF primary_step.announce[OF assms]])

text \<open>Every result of \<open>runPrimary\<close> is one that the relation has for a stopped process.\<close>

lemma primary_runs:
  "runPrimary R W sha env parse_time ts ws = (res, ws') \<Longrightarrow> \<forall>t \<in> set ts. turn_within R W sha rfc t \<Longrightarrow>
   primary_run R W sha rfc (Checking, ws) (Stopped, ws')"
proof (induction ts arbitrary: ws)
  case Nil
  then show ?case by (simp add: stopped_run)
next
  case (Cons t ts)
  note run = Cons.prems(1) and ends = rtranclp_trans[OF _ stopped_run]
  show ?case
  proof (cases "NeedsSeed R sha (pt_first t) (pt_second t) (snd ws)")
    case (Inl e)
    with run show ?thesis by (simp add: stopped_run)
  next
    case (Inr needs)
    obtain e1 ws1 where seed: "(if needs then Seed R W sha (pt_seed t) ws else (None, ws)) = (e1, ws1)" by (metis surj_pair)
    have "se_rfc3339 (pt_seed t) = rfc" using Cons.prems(2) by (simp add: turn_within_def)
    note seeded = turn_runs[OF Inr this seed]
    show ?thesis
    proof (cases e1)
      case (Some e)
      with run Inr seed ends[OF seeded] show ?thesis by (simp split: if_splits)
    next
      case None
      obtain e2 ws2 where st: "run_pipe R (pt_state t) (SetSyncState ''state'' ''streaming'') ws1 = (e2, ws2)" by (metis surj_pair)
      have announced: "primary_run R W sha rfc (Checking, ws) (next_phase Recovering e2, ws2)"
        using rtranclp_trans[OF seeded] announce_runs[OF st] None by (simp add: next_phase_def)
      show ?thesis
      proof (cases e2)
        case (Some e)
        with run Inr seed None st ends[OF announced] show ?thesis by simp
      next
        case none: None
        obtain r ws3 where w: "Watch R W env parse_time (fst (pt_recover t)) (snd (pt_recover t)) (pt_conns t) ws2 = (r, ws3)"
          by (metis surj_pair)
        have "primary_run R W sha rfc (Recovering, ws2) (watch_phase r, ws3)"
          by (rule watch_runs[OF w]) (use Cons.prems(2) in \<open>simp add: turn_within_def\<close>)
        with announced none have watched: "primary_run R W sha rfc (Checking, ws) (watch_phase r, ws3)"
          by (simp add: next_phase_def)
        show ?thesis
        proof (cases r)
          case StreamGap
          with run Inr seed None st none w have "runPrimary R W sha env parse_time ts ws3 = (res, ws')" by simp
          from Cons.IH[OF this] Cons.prems(2) have rest: "primary_run R W sha rfc (Checking, ws3) (Stopped, ws')" by simp
          have "primary_run R W sha rfc (TooOld, ws3) (Checking, ws3)" by (rule one_step[OF primary_step.too_old])
          with watched StreamGap have "primary_run R W sha rfc (Checking, ws) (Checking, ws3)" by simp
          from this rest show ?thesis by (rule rtranclp_trans)
        qed (use run Inr seed None st none w ends[OF watched] in simp_all)
      qed
    qed
  qed
qed

text \<open>
  Claim C15: \<open>runPrimary\<close> refines the step relation: whatever its turns, its imports, its connections,
  its drains and its retries do, in any number of turns and with any error, is a run of the
  relation from its check to a stopped process with the same store.
\<close>

theorem runPrimary_refines:
  assumes "\<forall>t \<in> set ts. turn_within R W sha rfc t"
    and "runPrimary R W sha env parse_time ts ws = (res, ws')"
  shows "primary_run R W sha rfc (Checking, ws) (Stopped, ws')"
  by (rule primary_runs[OF assms(2,1)])

section \<open>Witness\<close>

definition example_conn :: "content conn_in" where
  "example_conn = \<lparr>cn_first = True, cn_second = True, cn_upstream = (\<lambda>_. None), cn_weave = map (\<lambda>(q, e). (Item q e, good_fate)),
     cn_gap = good_fate, cn_last = good_fate, cn_cancelled = True,
     cn_others = [Drained [idle_round, idle_round],
       Retried True (\<lambda>_. None) good_fate fresh_client (\<lambda>_. (''now'', 0)) (\<lambda>_. good_fate)]\<rparr>"

definition example_turn :: "content primary_turn" where
  "example_turn = \<lparr>pt_first = True, pt_second = True, pt_seed = example_env, pt_cancelled = False, pt_state = good_fate,
     pt_recover = (Answered, Answered), pt_conns = [example_conn]\<rparr>"

lemma example_turn_within: "turn_within mem_redis plain_json id (se_rfc3339 example_env) example_turn"
  by (auto simp: turn_within_def example_turn_def conn_within_def example_conn_def runs_within_def idle_round_def)

lemma failed_connect:
  "connectAndProcess R env parse_time a1 a2 (\<lambda>_. None) weave f_old f_last ws = (err, ws') \<Longrightarrow> err \<noteq> StreamTooOld"
  by (auto simp: connectAndProcess_def start_position_def split: sum.splits option.splits if_splits)

lemma runPrimary_refines_witness:
  "\<exists>ws. runPrimary mem_redis plain_json id \<lparr>decode_event = (\<lambda>_. None), decode_offsets = (\<lambda>_. None)\<rparr> (\<lambda>_. None)
       [example_turn] example_start = (PrimaryDone, ws) \<and>
     primary_run mem_redis plain_json id (se_rfc3339 example_env) (Checking, example_start) (Stopped, ws)"
proof -
  let ?env = "\<lparr>decode_event = (\<lambda>_. None), decode_offsets = (\<lambda>_. None)\<rparr>"
  let ?run = "runPrimary mem_redis plain_json id ?env (\<lambda>_. None) [example_turn] example_start"
  obtain ws1 where s: "Seed mem_redis plain_json id example_env example_start = (None, ws1)" using example_seeded by blast
  obtain ws2 where a: "run_pipe mem_redis good_fate (SetSyncState ''state'' ''streaming'') ws1 = (None, ws2)"
    using example_announced by blast
  have n: "NeedsSeed mem_redis id True True (snd example_start) = Inr True"
    by (simp add: NeedsSeed_def GetSyncState_def example_start_def redis_hash(1)[OF mem_redis_ok])
  obtain s3 where r: "RecoverProcessing mem_redis Answered Answered (snd ws2) = (None, s3)"
    by (auto simp: RecoverProcessing_def)
  obtain err ws4 where c: "connectAndProcess mem_redis ?env (\<lambda>_. None) True True (\<lambda>_. None)
      (map (\<lambda>(q, e). (Item q e, good_fate))) good_fate good_fate (fst ws2, s3) = (err, ws4)" by (metis surj_pair)
  obtain ws5 where w: "watch_loop mem_redis plain_json ?env (\<lambda>_. None) [example_conn] (fst ws2, s3) = (WatchCancelled, ws5)"
    using c failed_connect[OF c] by (simp add: example_conn_def)
  have "?run = (PrimaryDone, ws5)"
    by (simp only: runPrimary.simps example_turn_def primary_turn.simps n s a fst_conv snd_conv Watch_def r w sum.case
        prod.case option.case if_True watch_result.case)
  with runPrimary_refines[of "[example_turn]", OF _ this] example_turn_within show ?thesis by auto
qed

end
