(* ===== verification/Transport.thy ===== *)
theory Transport
  imports GoStd
begin

text \<open>
  \<open>internal/watcher/http.go\<close>: the transports that all requests to Wikimedia go through, one at a
  time: a rate limiter, the request with the user agent, and a cool-down after a slow answer.

  The limiter is a parameter: \<open>wait\<close> gives the time that it reserves for a request, or nothing
  when the context is cancelled first. Times and durations are nanoseconds, counted from some
  fixed moment. The base transport returns when the headers of the answer are there; its body may
  still be read after that, when the mutex is free again.
\<close>

section \<open>The user agent\<close>

record http_request =
  hq_url :: string
  hq_headers :: "string \<Rightarrow> string list"

definition user_agent :: "string \<Rightarrow> string" where
  "user_agent contact = ''WdxrefBot/0.1.0 ('' @ contact @ '')''"

text \<open>The request that the base transport gets; the caller's own is left alone.\<close>

definition UserAgent_RoundTrip :: "string \<Rightarrow> (http_request \<Rightarrow> 'r) \<Rightarrow> http_request \<Rightarrow> 'r" where
  "UserAgent_RoundTrip contact base req =
     base (req\<lparr>hq_headers := (hq_headers req)(''User-Agent'' := [user_agent contact])\<rparr>)"

section \<open>Throttling\<close>

definition second_ns :: int where "second_ns = 1000000000"

definition wikimediaRateLimit :: int where "wikimediaRateLimit = 5"
definition wikimediaExpensiveThreshold :: int where "wikimediaExpensiveThreshold = 1 * second_ns"
definition wikimediaExpensiveCooldown :: int where "wikimediaExpensiveCooldown = 5 * second_ns"

record 'l ThrottleTransport =
  tt_limiter :: 'l
  tt_threshold :: int
  tt_cooldown :: int
  tt_free :: int

text \<open>\<open>tt_free\<close> is when the mutex was last released; a list of calls is in the order in which they lock it.\<close>

definition NewThrottleTransport :: "'l \<Rightarrow> int \<Rightarrow> 'l ThrottleTransport" where
  "NewThrottleTransport limiter now =
     \<lparr>tt_limiter = limiter, tt_threshold = wikimediaExpensiveThreshold, tt_cooldown = wikimediaExpensiveCooldown,
      tt_free = now\<rparr>"

text \<open>
  A call: when it comes, how late the timer of the limiter wakes it up, how long the base transport
  takes and whether it answers, and how long after the answer the context is cancelled, if it is.
\<close>

record call_in =
  ci_at :: int
  ci_late :: int
  ci_elapsed :: int
  ci_answered :: bool
  ci_cancel :: "int option"

text \<open>The time reserved, the start of the request, and the arrival of the headers of its answer.\<close>

record call_out =
  co_reserved :: int
  co_start :: int
  co_end :: int
  co_slow :: bool
  co_cancelled :: bool

definition RoundTrip ::
  "('l \<Rightarrow> int \<Rightarrow> int option \<times> 'l) \<Rightarrow> call_in \<Rightarrow> 'l ThrottleTransport \<Rightarrow> call_out option \<times> 'l ThrottleTransport" where
  "RoundTrip wait c t =
     (let locked = max (ci_at c) (tt_free t) in
      (case wait (tt_limiter t) locked of
         (None, l) \<Rightarrow> (None, t\<lparr>tt_limiter := l, tt_free := locked\<rparr>)
       | (Some reserved, l) \<Rightarrow>
           let start = reserved + ci_late c;
               finish = start + ci_elapsed c;
               threshold = (if tt_threshold t \<le> 0 then wikimediaExpensiveThreshold else tt_threshold t);
               cooldown = (if tt_cooldown t \<le> 0 then wikimediaExpensiveCooldown else tt_cooldown t);
               slow = (ci_answered c \<and> ci_elapsed c > threshold);
               rest = (if \<not> slow then 0 else (case ci_cancel c of None \<Rightarrow> cooldown | Some d \<Rightarrow> min d cooldown))
           in (Some \<lparr>co_reserved = reserved, co_start = start, co_end = finish, co_slow = slow,
                     co_cancelled = (slow \<and> (case ci_cancel c of None \<Rightarrow> False | Some d \<Rightarrow> d < cooldown))\<rparr>,
               t\<lparr>tt_limiter := l, tt_free := finish + rest\<rparr>)))"

fun round_trips ::
  "('l \<Rightarrow> int \<Rightarrow> int option \<times> 'l) \<Rightarrow> call_in list \<Rightarrow> 'l ThrottleTransport \<Rightarrow> call_out list" where
  "round_trips wait [] t = []"
| "round_trips wait (c # cs) t =
     (case RoundTrip wait c t of
        (None, t') \<Rightarrow> round_trips wait cs t'
      | (Some out, t') \<Rightarrow> out # round_trips wait cs t')"

section \<open>What Wikimedia sees\<close>

text \<open>
  What \<open>golang.org/x/time/rate\<close> promises of a limiter with a burst of one: the time reserved is no
  earlier than it is asked for, and no sooner after the last one than the rate allows.
\<close>

definition limiter_ok :: "('l \<Rightarrow> int option) \<Rightarrow> ('l \<Rightarrow> int \<Rightarrow> int option \<times> 'l) \<Rightarrow> bool" where
  "limiter_ok granted wait \<longleftrightarrow>
     (\<forall>l now. case wait l now of
        (None, l') \<Rightarrow> granted l' = granted l
      | (Some t, l') \<Rightarrow> now \<le> t \<and> granted l' = Some t \<and>
          (\<forall>g. granted l = Some g \<longrightarrow> g + second_ns div wikimediaRateLimit \<le> t))"

text \<open>
  What holds between a call and the next one. The next starts when the headers of the first one's
  answer are there, and at the time reserved for it or later; the rate is that of the reservations,
  so that two starts are only closer than it allows by as much as the first timer was late.
\<close>

definition polite :: "call_out \<Rightarrow> call_out \<Rightarrow> bool" where
  "polite a b \<longleftrightarrow> co_end a \<le> co_start b \<and> co_reserved b \<le> co_start b \<and>
     co_reserved a + second_ns div wikimediaRateLimit \<le> co_reserved b \<and>
     (co_slow a \<and> \<not> co_cancelled a \<longrightarrow> co_end a + wikimediaExpensiveCooldown \<le> co_start b)"

lemma polite_starts:
  "polite a b \<Longrightarrow> co_start a + second_ns div wikimediaRateLimit - (co_start a - co_reserved a) \<le> co_start b"
  by (simp add: polite_def)

definition in_order :: "('a \<Rightarrow> 'a \<Rightarrow> bool) \<Rightarrow> 'a list \<Rightarrow> bool" where
  "in_order P xs \<longleftrightarrow> (\<forall>i. Suc i < length xs \<longrightarrow> P (xs ! i) (xs ! Suc i))"

lemma in_order_simps [simp]:
  "in_order P []" "in_order P [x]" "in_order P (x # y # zs) \<longleftrightarrow> P x y \<and> in_order P (y # zs)"
proof -
  show "in_order P (x # y # zs) \<longleftrightarrow> P x y \<and> in_order P (y # zs)"
    unfolding in_order_def by (auto simp: nth_Cons' less_Suc_eq_0_disj split: if_splits)
qed (simp_all add: in_order_def)

text \<open>The transport after a request: what the next one has to keep to.\<close>

definition after_call :: "('l \<Rightarrow> int option) \<Rightarrow> call_out \<Rightarrow> 'l ThrottleTransport \<Rightarrow> bool" where
  "after_call granted a t \<longleftrightarrow> co_end a \<le> tt_free t \<and> granted (tt_limiter t) = Some (co_reserved a) \<and>
     (co_slow a \<and> \<not> co_cancelled a \<longrightarrow> co_end a + wikimediaExpensiveCooldown \<le> tt_free t)"

definition configured :: "'l ThrottleTransport \<Rightarrow> bool" where
  "configured t \<longleftrightarrow> tt_threshold t = wikimediaExpensiveThreshold \<and> tt_cooldown t = wikimediaExpensiveCooldown"

definition timely :: "call_in \<Rightarrow> bool" where
  "timely c \<longleftrightarrow> 0 \<le> ci_late c \<and> 0 \<le> ci_elapsed c \<and> (\<forall>d. ci_cancel c = Some d \<longrightarrow> 0 \<le> d)"

lemma round_trip_step:
  assumes l: "limiter_ok granted wait" and t: "configured t" "timely c" and run: "RoundTrip wait c t = (out, t')"
  shows "configured t' \<and> (case out of
      None \<Rightarrow> tt_free t \<le> tt_free t' \<and> granted (tt_limiter t') = granted (tt_limiter t)
    | Some b \<Rightarrow> after_call granted b t' \<and> (\<forall>a. after_call granted a t \<longrightarrow> polite a b))"
proof -
  obtain g l' where w: "wait (tt_limiter t) (max (ci_at c) (tt_free t)) = (g, l')" by fastforce
  have law: "case g of None \<Rightarrow> granted l' = granted (tt_limiter t)
    | Some s \<Rightarrow> max (ci_at c) (tt_free t) \<le> s \<and> granted l' = Some s \<and>
        (\<forall>x. granted (tt_limiter t) = Some x \<longrightarrow> x + second_ns div wikimediaRateLimit \<le> s)"
    using l[unfolded limiter_ok_def, THEN spec, THEN spec, of "tt_limiter t" "max (ci_at c) (tt_free t)"] w
    by (simp split: option.splits)
  have pos: "0 < wikimediaExpensiveThreshold" "0 < wikimediaExpensiveCooldown"
    by (simp_all add: wikimediaExpensiveThreshold_def wikimediaExpensiveCooldown_def second_ns_def)
  show ?thesis
  proof (cases g)
    case None
    with run w law t show ?thesis by (auto simp: RoundTrip_def configured_def Let_def)
  next
    case (Some s)
    with run w law t pos show ?thesis
      by (auto simp: RoundTrip_def configured_def timely_def after_call_def polite_def Let_def split: option.splits)
  qed
qed

lemma throttled:
  assumes l: "limiter_ok granted wait"
  shows "configured t \<Longrightarrow> \<forall>c \<in> set cs. timely c \<Longrightarrow>
    in_order polite (round_trips wait cs t) \<and>
    (\<forall>a. after_call granted a t \<longrightarrow> in_order polite (a # round_trips wait cs t))"
proof (induction cs arbitrary: t)
  case Nil
  then show ?case by simp
next
  case (Cons c cs)
  obtain out t' where r: "RoundTrip wait c t = (out, t')" by fastforce
  have "timely c" using Cons.prems(2) by simp
  note st = round_trip_step[OF l Cons.prems(1) this r]
  then have ih: "in_order polite (round_trips wait cs t')"
    "\<forall>a. after_call granted a t' \<longrightarrow> in_order polite (a # round_trips wait cs t')"
    using Cons.IH[of t'] Cons.prems(2) by auto
  show ?case
  proof (cases out)
    case None
    with st have "after_call granted a t'" if "after_call granted a t" for a using that by (auto simp: after_call_def)
    with ih r None show ?thesis by simp
  next
    case (Some b)
    with st ih r show ?thesis by simp
  qed
qed

text \<open>
  Claim C32: whenever calls come, no request to Wikimedia starts between the start of another one and the
  headers of its answer (the body may still be coming in); the times reserved for them are a fifth
  of a second apart, and no request starts before its own; and none starts within five seconds of the
  headers of a slow answer, unless the context of the slow request is cancelled in that time.
\<close>

theorem round_trips_polite:
  assumes "limiter_ok granted wait" and "\<forall>c \<in> set cs. timely c"
  shows "in_order polite (round_trips wait cs (NewThrottleTransport limiter now))"
  using throttled[OF assms(1) _ assms(2), of "NewThrottleTransport limiter now"]
  by (simp add: configured_def NewThrottleTransport_def)

section \<open>Witness\<close>

definition token_bucket :: "int option \<Rightarrow> int \<Rightarrow> int option \<times> int option" where
  "token_bucket l now = (let t = (case l of None \<Rightarrow> now | Some g \<Rightarrow> max now (g + 200000000)) in (Some t, Some t))"

definition example_trips :: "call_in list" where
  "example_trips = [\<lparr>ci_at = 0, ci_late = 3, ci_elapsed = 2000000000, ci_answered = True, ci_cancel = None\<rparr>,
     \<lparr>ci_at = 1, ci_late = 0, ci_elapsed = 1, ci_answered = True, ci_cancel = None\<rparr>]"

lemma round_trips_polite_witness:
  "in_order polite (round_trips token_bucket example_trips (NewThrottleTransport None 0)) \<and>
   map co_start (round_trips token_bucket example_trips (NewThrottleTransport None 0)) = [3, 7000000003]"
proof
  have "limiter_ok id token_bucket"
    by (auto simp: limiter_ok_def token_bucket_def second_ns_def wikimediaRateLimit_def Let_def split: option.splits)
  moreover have "\<forall>c \<in> set example_trips. timely c" by (simp add: example_trips_def timely_def)
  ultimately show "in_order polite (round_trips token_bucket example_trips (NewThrottleTransport None 0))"
    by (rule round_trips_polite)
  show "map co_start (round_trips token_bucket example_trips (NewThrottleTransport None 0)) = [3, 7000000003]"
    by (simp add: example_trips_def RoundTrip_def token_bucket_def NewThrottleTransport_def
        wikimediaExpensiveThreshold_def wikimediaExpensiveCooldown_def second_ns_def Let_def)
qed

end
