(* ===== verification/Spec2Isabelle.thy ===== *)
theory Spec2Isabelle
  imports Changes Admin WorkQueue Reader Protocol StreamServe SnapshotGen Replica ReplicaStream Wikidata
    Processor EventStream Queue ReplicaSnapshot SnapshotRoundtrip DumpReader Seed HttpEncoding
    Api ReplicateHandler SnapshotRun ReplicaRole PrimaryRuns Transport Roles
begin

text \<open>
  A verification library for wdxref, a service that keeps a reverse index of the external
  identifiers in Wikidata (\<open>P345:nm0010930\<close> leads to \<open>Q42\<close>) and replicates it.

  \<^bold>\<open>The program.\<close> A primary fills a Redis-compatible database (Kvrocks) from a dump of Wikidata
  (\<open>internal/watcher/seed.go\<close>), then follows the stream of recent changes
  (\<open>internal/watcher/eventstream.go\<close>): the entities that change go through a queue in the database,
  are fetched in batches (\<open>wikidata.go\<close>), and written with Lua scripts (\<open>internal/store/writer.go\<close>)
  that keep the entities, the reverse index, a counter and a changelog together. A replicator
  (\<open>internal/replicate\<close>) publishes snapshots of the entities and serves the changelog; a replica
  (\<open>internal/replica/client.go\<close>) applies both to a database of its own. The API
  (\<open>internal/api/server.go\<close>) answers lookups through \<open>internal/store/reader.go\<close>, and
  \<open>internal/httpencoding\<close> compresses responses. \<open>cmd/wdxref/main.go\<close> puts the roles together.

  \<^bold>\<open>How it is modelled.\<close> Go's strings are byte strings, its integers \<open>int\<close> with the wrap-around written
  out where it can matter (\<open>wrap64\<close>, \<open>int64\<close>), errors are values of sum and option types. The
  database is a parameter: \<open>'s redis\<close> is the record of its commands, \<open>redis_ok R v\<close> their documented
  effect on the content that the view \<open>v\<close> shows (\<open>Redis\<close>); \<open>MemRedis\<close> is a server for which it
  holds, used in the witnesses. A call that is refused, or whose reply is lost, is an argument, and so
  is the fate of a pipe's connection: the commands that each broken attempt got through before the
  client library sent everything again. A crash is a run that is cut off between two steps: only the
  database remains.

  \<^bold>\<open>Theories.\<close>
  \<^item> \<open>Prelude\<close>, \<open>GoStd\<close>, \<open>Json\<close>: loops that stop at an error, 64-bit integers; \<open>strings\<close> and \<open>strconv\<close>;
    the JSON text of a list of strings and its decoder. \<open>Transitions\<close>: step relations and their
    invariants (locale \<open>invariant\<close>, interpreted by the primary, the snapshot generator and the replica).
  \<^item> \<open>Mappings\<close>, \<open>Scripts\<close>, \<open>Index\<close>, \<open>Entities\<close>: identifiers and entries; the Lua scripts; the locale
    \<open>reverse_index\<close> and its instance; what a script does to the store as a whole.
  \<^item> \<open>Pipe\<close>, \<open>Store\<close>, \<open>Changes\<close>, \<open>PipeRuns\<close>: the pipe and its operations; the abstract store
    (\<open>abstract\<close>, \<open>cmd_spec\<close>) that its commands refine; what every pipe keeps wherever it breaks.
  \<^item> \<open>Admin\<close>, \<open>WorkQueue\<close>, \<open>Reader\<close>: migration and the trimmer; the queue (locale \<open>work_queue\<close>); all
    queries.
  \<^item> \<open>Protocol\<close>, \<open>StreamServe\<close>, \<open>SnapshotGen\<close>, \<open>SnapshotRun\<close>, \<open>ReplicateHandler\<close>: wire formats (locale
    \<open>line_codec\<close>), the change stream, one generation of a snapshot, the generator's loop, the endpoints.
  \<^item> \<open>Replica\<close>, \<open>ReplicaStream\<close>, \<open>ReplicaSnapshot\<close>, \<open>SnapshotRoundtrip\<close>, \<open>SnapshotAttempt\<close>,
    \<open>Replication\<close>, \<open>ReplicaRuns\<close>, \<open>ReplicaRole\<close>: the client; the stream from server to client; the snapshot from
    generator to client; a fetch that may fail anywhere; snapshot and stream together; \<open>Client.Run\<close> over
    any list of turns and the role that runs it.
  \<^item> \<open>Wikidata\<close>, \<open>Processor\<close>, \<open>EventStream\<close>, \<open>Queue\<close>: requests, backoff and claims; a batch; one connection
    to the stream with its background writer; draining, requeueing and retrying.
  \<^item> \<open>DumpReader\<close>, \<open>Seed\<close>, \<open>Primary\<close>, \<open>PrimaryRuns\<close>: the readers of a dump (locale \<open>io_reader\<close>); the import;
    the loop of the primary as the step relation \<open>primary_step\<close>; as functions that refine it.
  \<^item> \<open>Transport\<close>, \<open>HttpEncoding\<close>, \<open>Api\<close>, \<open>Roles\<close>: throttling; negotiation and the compressing writer; the
    query API; the database connection, the HTTP server and the start of a process.

  \<^bold>\<open>What is shown.\<close> Of the store: a script keeps the index and the counter exact, and its changelog entry
  replays to what it did; so does every pipe of well-formed operations, at every point where it can
  break (\<open>Exec_keeps_store\<close>).
  Of the primary: no entity leaves the queue unprocessed, the stored position never gets ahead of the
  queue, a dump counts as imported only when all of it is stored, and the watcher only runs on such a
  database.
  Of replication: a snapshot that was scanned while the database changed, followed by the change stream
  from its position, leads to the upstream's entities (\<open>replica_converges\<close>); and over any turns of
  its loop, with pipes that break anywhere, snapshots cut off between lines and streams cut off
  outside a payload, a replica never has a position that does not belong to its entities
  (\<open>Run_converges\<close>). What is served is complete, contiguous and stable under its ETag.
  Of the API: the JSON text of the result of the route or of the error that belongs to the status, and
  exactly the entities that have the mapping. Of a process: at most one writer, on a database of the
  current schema, but a reader that was made before it (\<open>main_starts_ready\<close>).
  Some theorems show faults of the code: \<open>fetchSnapshot_stuck\<close>, \<open>connectStream_applies_cut_line\<close>,
  \<open>drainQueue_loses_rearrival\<close>, \<open>extractExternalIDs_duplicates\<close>, \<open>Accepts_overrides_refusal\<close>,
  \<open>failed_clear_skips_import\<close> and \<open>parseChangelogRetention_wraps\<close>; \<open>negotiation_agrees\<close> contradicts
  what the README says of an empty \<open>ENCODINGS\<close>.

  \<^bold>\<open>Bounds and fuel.\<close> Loops over data are structural recursion. Loops whose end is decided outside (turns of
  a scan, rounds of a stream, drains, connections) run over a list of what happens in each turn; a
  result about such a loop is for every list, and the results that it succeeds
  (\<open>fetchSnapshot_succeeds\<close>, \<open>serve_rounds_complete\<close>, \<open>Seed_succeeds\<close>, \<open>trim_turns_drain\<close>) say how many
  turns are enough. Times are explicit arguments.

  \<^bold>\<open>Parameters.\<close> The database, the JSON library where the program decodes foreign text, compressors and
  decompressors, SHA-256, the rate limiter, clocks, HTTP transport and the parsing of times and
  durations. Each has named hypotheses for its documented behaviour (\<open>redis_ok\<close>, \<open>json_ok\<close>,
  \<open>wiki_utf8\<close>, \<open>limiter_ok\<close>, \<open>scan_promise\<close>, \<open>honest\<close>), met by concrete functions in the witnesses.

  \<^bold>\<open>Not modelled.\<close> What the Redis client does with its options, logging, and the delivery of signals (a
  cancelled context is an argument): libraries without logic of the program. The Go memory model:
  goroutines are interleavings of whole calls, and the data race on the backoff of the Wikidata client
  is outside the model. Durability of files after a power failure. Of \<open>net/http\<close>: the redirect for paths
  that are not clean, and the guess of a missing content type.
\<close>

end
